(* ===== verification/Prelude.thy ===== *)
theory Prelude
  imports Main "HOL-Library.Finite_Map" "HOL-Library.AList"
begin

text \<open>
  What every theory of the development shares: the named collections of simplification facts,
  Rust's 64-bit signed arithmetic and its conversions on \<open>int\<close>, \<open>std::time::Duration\<close> as a
  number of nanoseconds, and the lemmas on finite maps and association lists that the component
  theories use.
\<close>

named_theorems bson_simps \<open>reading and writing fields of BSON documents\<close>
named_theorems query_simps \<open>what the filters and updates built by the code mean\<close>
named_theorems tracker_simps \<open>effect of the expiry tracker's operations on the tracked map\<close>

section \<open>Machine integers\<close>

text \<open>
  Rust's \<open>i64\<close> is an \<open>int\<close> between \<open>i64_min\<close> and \<open>i64_max\<close>, and \<open>u64\<close> and \<open>u128\<close> are
  \<open>nat\<close>. The operations the code applies to them write out saturation, wrap-around and failure.
\<close>

definition i64_max :: int where
  "i64_max = 9223372036854775807"

definition i64_min :: int where
  "i64_min = - 9223372036854775808"

definition in_i64 :: "int \<Rightarrow> bool" where
  "in_i64 x \<longleftrightarrow> i64_min \<le> x \<and> x \<le> i64_max"

text \<open>\<open>i64::saturating_add\<close>.\<close>

definition saturating_add :: "int \<Rightarrow> int \<Rightarrow> int" where
  "saturating_add a b = max i64_min (min i64_max (a + b))"

text \<open>The cast \<open>x as i64\<close> of a \<open>u128\<close>: the low 64 bits read in two's complement.\<close>

definition as_i64 :: "nat \<Rightarrow> int" where
  "as_i64 n = (let m = int n mod 18446744073709551616
    in if m \<le> i64_max then m else m - 18446744073709551616)"

text \<open>The cast \<open>x as u64\<close> of an \<open>i64\<close> that may have wrapped around.\<close>

definition as_u64 :: "int \<Rightarrow> nat" where
  "as_u64 x = nat (x mod 18446744073709551616)"

text \<open>\<open>i64::try_from(x: u128)\<close> and \<open>u64::try_from(x: i64)\<close>, \<open>None\<close> for the error.\<close>

definition i64_try_from :: "nat \<Rightarrow> int option" where
  "i64_try_from n = (if int n \<le> i64_max then Some (int n) else None)"

definition u64_try_from :: "int \<Rightarrow> nat option" where
  "u64_try_from x = (if 0 \<le> x then Some (nat x) else None)"

lemma saturating_add_in_i64: "in_i64 (saturating_add a b)"
  by (simp add: in_i64_def saturating_add_def i64_max_def i64_min_def)

lemma saturating_add_exact: "in_i64 (a + b) \<Longrightarrow> saturating_add a b = a + b"
  by (simp add: in_i64_def saturating_add_def)

lemma as_i64_exact: "int n \<le> i64_max \<Longrightarrow> as_i64 n = int n"
  by (simp add: as_i64_def i64_max_def Let_def)

lemma as_u64_exact: "0 \<le> x \<Longrightarrow> x < 18446744073709551616 \<Longrightarrow> as_u64 x = nat x"
  by (simp add: as_u64_def)

section \<open>Durations\<close>

text \<open>
  \<open>std::time::Duration\<close>, which tokio re-exports, as its number of nanoseconds. The largest
  duration is \<open>u64::MAX\<close> seconds and 999999999 nanoseconds.
\<close>

type_synonym duration = nat

definition duration_max :: duration where
  "duration_max = 18446744073709551615999999999"

definition as_millis :: "duration \<Rightarrow> nat" where
  "as_millis d = d div 1000000"

definition from_millis :: "nat \<Rightarrow> duration" where
  "from_millis n = n * 1000000"

definition from_secs :: "nat \<Rightarrow> duration" where
  "from_secs n = n * 1000000000"

lemma as_millis_from_millis [simp]: "as_millis (from_millis n) = n"
  by (simp add: as_millis_def from_millis_def)

section \<open>Results\<close>

text \<open>Rust's \<open>Result<T, E>\<close> is the sum \<open>E + T\<close>: \<open>Inl\<close> for \<open>Err\<close>, \<open>Inr\<close> for \<open>Ok\<close>.\<close>

type_synonym ('e, 'a) result = "'e + 'a"

section \<open>Association lists and finite maps\<close>

lemma map_of_AList_update: "map_of (AList.update k v xs) k' = (if k' = k then Some v else map_of xs k')"
  by (simp add: update_conv')

lemma map_of_AList_delete: "map_of (AList.delete k xs) k' = (if k' = k then None else map_of xs k')"
  by (simp add: delete_conv')

lemma sorted_list_of_fset_Nil_iff: "sorted_list_of_fset S = [] \<longleftrightarrow> S = {||}"
  by (metis fset_of_list_simps(1) sorted_list_of_fset_simps(2) bot_fset.rep_eq
      sorted_list_of_fset.rep_eq sorted_list_of_set_empty)

lemma distinct_sorted_list_of_fset: "distinct (sorted_list_of_fset S)"
  by (simp add: sorted_list_of_fset.rep_eq)

lemma sorted_sorted_list_of_fset: "sorted (sorted_list_of_fset S)"
  by (simp add: sorted_list_of_fset.rep_eq)

lemma sorted_list_of_fset_hd_least:
  assumes "sorted_list_of_fset S = x # xs"
  shows "x |\<in>| S" and "\<And>y. y |\<in>| S \<Longrightarrow> x \<le> y"
proof -
  have eq: "set (sorted_list_of_fset S) = fset S" by simp
  show "x |\<in>| S" using assms eq by auto
  fix y assume "y |\<in>| S"
  then have "y \<in> set (x # xs)" using assms eq by auto
  moreover have "sorted (x # xs)" using assms sorted_sorted_list_of_fset by metis
  ultimately show "x \<le> y" by auto
qed

end
