(* ===== verification/Bson.thy ===== *)
theory Bson
  imports Prelude
begin

text \<open>
  The values the code stores in MongoDB. \<open>bson::Bson\<close> is the datatype \<open>bson\<close>; the variants the
  code never builds or inspects are one constructor with an opaque payload. \<open>bson::Document\<close>
  keeps its fields in insertion order, so it is an association list. The accessors
  \<open>get\<close>, \<open>get_str\<close>, \<open>get_i64\<close>, \<open>get_datetime\<close>, \<open>get_document\<close> and \<open>get_object_id\<close> are
  written with \<open>None\<close> for their error, whose contents the code never looks at.
\<close>

section \<open>Object ids\<close>

text \<open>A 12-byte \<open>ObjectId\<close> is opaque to the code: it is only compared, hashed and copied.\<close>

datatype object_id = ObjectId nat

primrec oid_number :: "object_id \<Rightarrow> nat" where
  "oid_number (ObjectId n) = n"

instantiation object_id :: linorder
begin
definition less_eq_object_id :: "object_id \<Rightarrow> object_id \<Rightarrow> bool" where
  "less_eq_object_id a b \<longleftrightarrow> oid_number a \<le> oid_number b"
definition less_object_id :: "object_id \<Rightarrow> object_id \<Rightarrow> bool" where
  "less_object_id a b \<longleftrightarrow> oid_number a < oid_number b"
instance
proof
  fix x y z :: object_id
  show "x < y \<longleftrightarrow> x \<le> y \<and> \<not> y \<le> x"
    by (auto simp: less_eq_object_id_def less_object_id_def)
  show "x \<le> x" by (simp add: less_eq_object_id_def)
  show "x \<le> y \<Longrightarrow> y \<le> z \<Longrightarrow> x \<le> z" by (simp add: less_eq_object_id_def)
  show "x \<le> y \<Longrightarrow> y \<le> x \<Longrightarrow> x = y"
    by (cases x; cases y) (simp add: less_eq_object_id_def)
  show "x \<le> y \<or> y \<le> x" by (auto simp: less_eq_object_id_def)
qed
end

lemma less_eq_ObjectId [simp]: "ObjectId a \<le> ObjectId b \<longleftrightarrow> a \<le> b"
  by (simp add: less_eq_object_id_def)

lemma less_ObjectId [simp]: "ObjectId a < ObjectId b \<longleftrightarrow> a < b"
  by (simp add: less_object_id_def)

section \<open>Values and documents\<close>

datatype bson =
    BNull
  | BString string
  | BInt32 int
  | BInt64 int
  | BBool bool
  | BDateTime int
  | BObjectId object_id
  | BDocument "(string \<times> bson) list"
  | BArray "bson list"
  | BOther nat

type_synonym document = "(string \<times> bson) list"

definition doc_get :: "document \<Rightarrow> string \<Rightarrow> bson option" where
  "doc_get d k = map_of d k"

text \<open>\<open>Document::insert\<close> replaces a present key where it stands and appends a new one.\<close>

definition doc_insert :: "document \<Rightarrow> string \<Rightarrow> bson \<Rightarrow> document" where
  "doc_insert d k v = AList.update k v d"

fun as_string :: "bson \<Rightarrow> string option" where
  "as_string (BString s) = Some s"
| "as_string _ = None"

fun as_int64 :: "bson \<Rightarrow> int option" where
  "as_int64 (BInt64 n) = Some n"
| "as_int64 _ = None"

fun as_datetime :: "bson \<Rightarrow> int option" where
  "as_datetime (BDateTime t) = Some t"
| "as_datetime _ = None"

fun as_document :: "bson \<Rightarrow> document option" where
  "as_document (BDocument d) = Some d"
| "as_document _ = None"

fun as_object_id :: "bson \<Rightarrow> object_id option" where
  "as_object_id (BObjectId i) = Some i"
| "as_object_id _ = None"

definition get_str :: "document \<Rightarrow> string \<Rightarrow> string option" where
  "get_str d k = Option.bind (doc_get d k) as_string"

definition get_i64 :: "document \<Rightarrow> string \<Rightarrow> int option" where
  "get_i64 d k = Option.bind (doc_get d k) as_int64"

definition get_datetime :: "document \<Rightarrow> string \<Rightarrow> int option" where
  "get_datetime d k = Option.bind (doc_get d k) as_datetime"

definition get_document :: "document \<Rightarrow> string \<Rightarrow> document option" where
  "get_document d k = Option.bind (doc_get d k) as_document"

definition get_object_id :: "document \<Rightarrow> string \<Rightarrow> object_id option" where
  "get_object_id d k = Option.bind (doc_get d k) as_object_id"

lemmas accessor_defs = get_str_def get_i64_def get_datetime_def get_document_def get_object_id_def

lemma as_string_Some [simp]: "as_string v = Some s \<longleftrightarrow> v = BString s"
  by (cases v) auto

lemma as_int64_Some [simp]: "as_int64 v = Some n \<longleftrightarrow> v = BInt64 n"
  by (cases v) auto

lemma as_datetime_Some [simp]: "as_datetime v = Some t \<longleftrightarrow> v = BDateTime t"
  by (cases v) auto

lemma as_document_Some [simp]: "as_document v = Some e \<longleftrightarrow> v = BDocument e"
  by (cases v) auto

lemma as_object_id_Some [simp]: "as_object_id v = Some i \<longleftrightarrow> v = BObjectId i"
  by (cases v) auto

lemma get_str_Some: "get_str d k = Some s \<longleftrightarrow> doc_get d k = Some (BString s)"
  by (auto simp: get_str_def bind_eq_Some_conv)

lemma get_i64_Some: "get_i64 d k = Some n \<longleftrightarrow> doc_get d k = Some (BInt64 n)"
  by (auto simp: get_i64_def bind_eq_Some_conv)

lemma get_datetime_Some: "get_datetime d k = Some t \<longleftrightarrow> doc_get d k = Some (BDateTime t)"
  by (auto simp: get_datetime_def bind_eq_Some_conv)

lemma get_document_Some: "get_document d k = Some e \<longleftrightarrow> doc_get d k = Some (BDocument e)"
  by (auto simp: get_document_def bind_eq_Some_conv)

lemma get_object_id_Some: "get_object_id d k = Some i \<longleftrightarrow> doc_get d k = Some (BObjectId i)"
  by (auto simp: get_object_id_def bind_eq_Some_conv)

lemmas get_Some = get_str_Some get_i64_Some get_datetime_Some get_document_Some get_object_id_Some

lemma doc_get_Nil [bson_simps]: "doc_get [] k = None"
  by (simp add: doc_get_def)

lemma doc_get_Cons [bson_simps]: "doc_get ((k', v) # d) k = (if k = k' then Some v else doc_get d k)"
  by (simp add: doc_get_def)

lemma doc_get_insert [bson_simps]:
  "doc_get (doc_insert d k v) k' = (if k' = k then Some v else doc_get d k')"
  by (simp add: doc_get_def doc_insert_def map_of_AList_update)

lemma doc_insert_Nil [bson_simps]: "doc_insert [] k v = [(k, v)]"
  by (simp add: doc_insert_def)

lemma doc_insert_Cons [bson_simps]:
  "doc_insert ((k', w) # d) k v = (if k' = k then (k, v) # d else (k', w) # doc_insert d k v)"
  by (simp add: doc_insert_def)

section \<open>Dotted paths\<close>

text \<open>
  MongoDB's filters and updates address a field of an embedded document by a path with dots,
  \<open>worker_state.heartbeat_at\<close>. These functions are the vocabulary in which the interface to the
  server is stated; the code itself only builds such strings. A key of a BSON document may contain
  a dot too, and \<open>doc_get\<close> reads such a key literally, as the change-stream code needs.
\<close>

fun split_path :: "string \<Rightarrow> string list" where
  "split_path [] = [[]]"
| "split_path (c # cs) =
     (if c = CHR ''.'' then [] # split_path cs
      else (case split_path cs of [] \<Rightarrow> [[c]] | p # ps \<Rightarrow> (c # p) # ps))"

fun get_in :: "document \<Rightarrow> string list \<Rightarrow> bson option" where
  "get_in d [] = None"
| "get_in d [k] = doc_get d k"
| "get_in d (k # ks) = (case doc_get d k of Some (BDocument e) \<Rightarrow> get_in e ks | _ \<Rightarrow> None)"

definition path_get :: "document \<Rightarrow> string \<Rightarrow> bson option" where
  "path_get d p = get_in d (split_path p)"

text \<open>No array stands on the path, so the server's implicit array traversal does not apply.\<close>

fun plain_in :: "document \<Rightarrow> string list \<Rightarrow> bool" where
  "plain_in d [] = True"
| "plain_in d (k # ks) =
     (case doc_get d k of
        Some (BArray xs) \<Rightarrow> False
      | Some (BDocument e) \<Rightarrow> plain_in e ks
      | _ \<Rightarrow> True)"

definition plain_path :: "document \<Rightarrow> string \<Rightarrow> bool" where
  "plain_path d p = plain_in d (split_path p)"

text \<open>Every field above the last one of the path is a document or is missing, so \<open>$set\<close> applies.\<close>

fun settable_in :: "document \<Rightarrow> string list \<Rightarrow> bool" where
  "settable_in d [] = False"
| "settable_in d [k] = True"
| "settable_in d (k # ks) =
     (case doc_get d k of None \<Rightarrow> True | Some (BDocument e) \<Rightarrow> settable_in e ks | _ \<Rightarrow> False)"

definition settable :: "document \<Rightarrow> string \<Rightarrow> bool" where
  "settable d p = settable_in d (split_path p)"

text \<open>Two paths where neither addresses a part of the other.\<close>

fun apart :: "string list \<Rightarrow> string list \<Rightarrow> bool" where
  "apart (x # xs) (y # ys) = (x \<noteq> y \<or> apart xs ys)"
| "apart _ _ = False"

definition paths_apart :: "string \<Rightarrow> string \<Rightarrow> bool" where
  "paths_apart p q = apart (split_path p) (split_path q)"

lemma path_get_field [bson_simps]: "split_path k = [k] \<Longrightarrow> path_get d k = doc_get d k"
  by (simp add: path_get_def)

lemma apart_sym: "apart xs ys = apart ys xs"
  by (induction xs ys rule: apart.induct) auto

end
