(* ===== verification/Mongo.thy ===== *)
theory Mongo
  imports Bson "HOL-Library.Sublist"
begin

text \<open>
  The MongoDB server and its driver, as far as the code uses them. Neither is part of the
  repository, so both are parameters: a record of the operations the code calls, over a type
  \<open>'w\<close> of the world outside the process, and two locales whose assumptions state the documented
  behaviour of filters, updates and single-document operations. \<open>RefServer\<close> shows that the
  assumptions can hold together.
\<close>

section \<open>Driver errors and results\<close>

text \<open>
  \<open>mongodb::error::Error\<close>: the code distinguishes a command error by its code and name, a write
  error by its code, and prints every error with \<open>to_string\<close>; the string each constructor carries
  last is that rendering.
\<close>

datatype mongo_error =
    CommandError int string string
  | WriteError int string
  | OtherError string

fun error_text :: "mongo_error \<Rightarrow> string" where
  "error_text (CommandError code code_name msg) = msg"
| "error_text (WriteError code msg) = msg"
| "error_text (OtherError msg) = msg"

record update_result =
  matched_count :: nat
  upserted_id :: "bson option"

text \<open>
  The operations the code calls. \<open>DateTime::now()\<close> and \<open>Uuid::new_v4()\<close> are operations too, since
  their results come from outside the process. \<open>find\<close> gives what the cursor yields, one result per
  \<open>next()\<close>. \<open>find_one_and_update\<close> is the variant the code uses, which returns the document after
  the update.
\<close>

record 'w server =
  sv_now :: "'w \<Rightarrow> int \<times> 'w"
  sv_uuid :: "'w \<Rightarrow> string \<times> 'w"
  sv_find_one :: "document \<Rightarrow> 'w \<Rightarrow> (mongo_error + document option) \<times> 'w"
  sv_find :: "document \<Rightarrow> 'w \<Rightarrow> (mongo_error + (mongo_error + document) list) \<times> 'w"
  sv_update_one :: "document \<Rightarrow> document \<Rightarrow> bool \<Rightarrow> 'w \<Rightarrow> (mongo_error + update_result) \<times> 'w"
  sv_find_one_and_update ::
    "document \<Rightarrow> document \<Rightarrow> document option \<Rightarrow> 'w \<Rightarrow> (mongo_error + document option) \<times> 'w"

section \<open>Filters and updates\<close>

text \<open>The keys of an operator document, as \<open>doc!\<close> builds them.\<close>

abbreviation op_doc :: "string \<Rightarrow> bson \<Rightarrow> bson" where
  "op_doc k v \<equiv> BDocument [(k, v)]"

definition is_field :: "string \<Rightarrow> bool" where
  "is_field k \<longleftrightarrow> k \<noteq> [] \<and> hd k \<noteq> CHR ''$''"

fun is_scalar :: "bson \<Rightarrow> bool" where
  "is_scalar (BString s) = True"
| "is_scalar (BObjectId i) = True"
| "is_scalar _ = False"

definition update_fields :: "document \<Rightarrow> string \<Rightarrow> document" where
  "update_fields u op = (case get_document u op of None \<Rightarrow> [] | Some fs \<Rightarrow> fs)"

text \<open>The paths an update writes in a document it matched, and those it writes on insertion.\<close>

definition touched :: "document \<Rightarrow> string list" where
  "touched u = map fst (update_fields u ''$set'') @ map fst (update_fields u ''$unset'')"

definition touched_on_insert :: "document \<Rightarrow> string list" where
  "touched_on_insert u = touched u @ map fst (update_fields u ''$setOnInsert'')"

fun pairwise_apart :: "string list \<Rightarrow> bool" where
  "pairwise_apart [] = True"
| "pairwise_apart (p # ps) = ((\<forall>q\<in>set ps. paths_apart p q) \<and> pairwise_apart ps)"

text \<open>
  What the code relies on of the query language. \<open>qmatch f d\<close>: the filter \<open>f\<close> selects the
  document \<open>d\<close>. \<open>agg e d\<close>: the aggregation expression \<open>e\<close> evaluated on \<open>d\<close>, \<open>None\<close> for a missing
  field. \<open>upd u d\<close>: the document \<open>d\<close> after the update \<open>u\<close>. \<open>ins f u i\<close>: the document an upsert
  with the filter \<open>f\<close> inserts under the id \<open>i\<close>. Each assumption is the manual's description of one
  operator, restricted to the operand types and plain paths the code uses.
\<close>

locale mongo_query =
  fixes qmatch :: "document \<Rightarrow> document \<Rightarrow> bool"
    and agg :: "bson \<Rightarrow> document \<Rightarrow> bson option"
    and upd :: "document \<Rightarrow> document \<Rightarrow> document"
    and ins :: "document \<Rightarrow> document \<Rightarrow> object_id \<Rightarrow> document"
  assumes match_all: "qmatch f d \<longleftrightarrow> (\<forall>e\<in>set f. qmatch [e] d)"
    and match_eq: "is_field k \<Longrightarrow> plain_path d k \<Longrightarrow> is_scalar v \<Longrightarrow>
      qmatch [(k, v)] d \<longleftrightarrow> path_get d k = Some v"
    and match_in: "is_field k \<Longrightarrow> list_all is_scalar xs \<Longrightarrow>
      qmatch [(k, op_doc ''$in'' (BArray xs))] d \<longleftrightarrow> (\<exists>x\<in>set xs. qmatch [(k, x)] d)"
    and match_nin: "is_field k \<Longrightarrow> list_all is_scalar xs \<Longrightarrow>
      qmatch [(k, op_doc ''$nin'' (BArray xs))] d \<longleftrightarrow> \<not> (\<exists>x\<in>set xs. qmatch [(k, x)] d)"
    and match_exists: "is_field k \<Longrightarrow> plain_path d k \<Longrightarrow>
      qmatch [(k, op_doc ''$exists'' (BBool b))] d \<longleftrightarrow> ((path_get d k \<noteq> None) = b)"
    and match_date: "is_field k \<Longrightarrow> plain_path d k \<Longrightarrow>
      qmatch [(k, op_doc ''$type'' (BString ''date''))] d \<longleftrightarrow> (\<exists>t. path_get d k = Some (BDateTime t))"
    and match_or: "fs \<noteq> [] \<Longrightarrow>
      qmatch [(''$or'', BArray (map BDocument fs))] d \<longleftrightarrow> (\<exists>f\<in>set fs. qmatch f d)"
    and match_and: "fs \<noteq> [] \<Longrightarrow>
      qmatch [(''$and'', BArray (map BDocument fs))] d \<longleftrightarrow> (\<forall>f\<in>set fs. qmatch f d)"
    and match_expr: "agg e d = Some (BBool b) \<Longrightarrow> qmatch [(''$expr'', e)] d \<longleftrightarrow> b"
    and agg_path: "is_field p \<Longrightarrow> plain_path d p \<Longrightarrow>
      agg (BString (CHR ''$'' # p)) d = path_get d p"
    and agg_int64: "agg (BInt64 n) d = Some (BInt64 n)"
    and agg_date: "agg (BDateTime t) d = Some (BDateTime t)"
    and agg_if_null: "agg (op_doc ''$ifNull'' (BArray [x, y])) d =
      (case agg x d of None \<Rightarrow> agg y d | Some BNull \<Rightarrow> agg y d | Some v \<Rightarrow> Some v)"
    and agg_add: "agg x d = Some (BDateTime t) \<Longrightarrow> agg y d = Some (BInt64 n) \<Longrightarrow> in_i64 (t + n) \<Longrightarrow>
      agg (op_doc ''$add'' (BArray [x, y])) d = Some (BDateTime (t + n))"
    and agg_lte: "agg x d = Some (BDateTime t) \<Longrightarrow> agg y d = Some (BDateTime s) \<Longrightarrow>
      agg (op_doc ''$lte'' (BArray [x, y])) d = Some (BBool (t \<le> s))"
    and upd_set: "pairwise_apart (touched u) \<Longrightarrow> (p, v) \<in> set (update_fields u ''$set'') \<Longrightarrow>
      settable d p \<Longrightarrow> path_get (upd u d) p = Some v"
    and upd_unset: "pairwise_apart (touched u) \<Longrightarrow> p \<in> fst ` set (update_fields u ''$unset'') \<Longrightarrow>
      path_get (upd u d) p = None"
    and upd_frame: "list_all (paths_apart p) (touched u) \<Longrightarrow> list_all (settable d) (touched u) \<Longrightarrow>
      path_get (upd u d) p = path_get d p"
    and ins_set: "pairwise_apart (touched_on_insert u) \<Longrightarrow>
      (p, v) \<in> set (update_fields u ''$set'') \<union> set (update_fields u ''$setOnInsert'') \<Longrightarrow>
      settable [] p \<Longrightarrow> path_get (ins f u i) p = Some v"
    and ins_unset: "pairwise_apart (touched_on_insert u) \<Longrightarrow>
      p \<in> fst ` set (update_fields u ''$unset'') \<Longrightarrow> path_get (ins f u i) p = None"
    and ins_id: "list_all (paths_apart ''_id'') (touched_on_insert u) \<Longrightarrow>
      path_get (ins f u i) ''_id'' = Some (BObjectId i)"

section \<open>Task documents\<close>

text \<open>
  The field types every writer of the collection keeps: \<open>upsert_task\<close>, the claims and the
  ownership writes produce them, and the schema of \<open>docs/implementation.md\<close> lists them. Fields may
  be missing, as in documents written by older versions.
\<close>

definition field_ok :: "(bson \<Rightarrow> bool) \<Rightarrow> document \<Rightarrow> string \<Rightarrow> bool" where
  "field_ok P d k \<longleftrightarrow> (case doc_get d k of None \<Rightarrow> True | Some v \<Rightarrow> P v)"

definition worker_state_typed :: "bson \<Rightarrow> bool" where
  "worker_state_typed v \<longleftrightarrow>
     (case v of
        BDocument e \<Rightarrow>
          field_ok (\<lambda>x. as_string x \<noteq> None) e ''worker_id'' \<and>
          field_ok (\<lambda>x. as_string x \<noteq> None) e ''claim_token'' \<and>
          field_ok (\<lambda>x. as_datetime x \<noteq> None) e ''heartbeat_at'' \<and>
          field_ok (\<lambda>x. as_int64 x \<noteq> None) e ''switch_timeout_ms''
      | _ \<Rightarrow> False)"

definition doc_typed :: "document \<Rightarrow> bool" where
  "doc_typed d \<longleftrightarrow>
     field_ok (\<lambda>x. as_string x \<noteq> None) d ''status'' \<and>
     field_ok (\<lambda>x. as_string x \<noteq> None) d ''task_id'' \<and>
     field_ok (\<lambda>x. as_int64 x \<noteq> None) d ''worker_switch_timeout'' \<and>
     field_ok worker_state_typed d ''worker_state''"

type_synonym collection = "object_id \<Rightarrow> document option"

definition coll_ok :: "collection \<Rightarrow> bool" where
  "coll_ok D \<longleftrightarrow> (\<forall>i d. D i = Some d \<longrightarrow> doc_get d ''_id'' = Some (BObjectId i) \<and> doc_typed d)"

section \<open>Single-document operations\<close>

definition no_match :: "(document \<Rightarrow> document \<Rightarrow> bool) \<Rightarrow> document \<Rightarrow> collection \<Rightarrow> bool" where
  "no_match qm f D \<longleftrightarrow> (\<forall>i d. D i = Some d \<longrightarrow> \<not> qm f d)"

text \<open>
  One document that the filter selects, the first in the sort order when there is one, is
  replaced by its update.
\<close>

definition updates_one ::
  "(document \<Rightarrow> document \<Rightarrow> bool) \<Rightarrow> (document \<Rightarrow> document \<Rightarrow> document) \<Rightarrow>
   document \<Rightarrow> document \<Rightarrow> collection \<Rightarrow> object_id \<Rightarrow> document \<Rightarrow> collection \<Rightarrow> bool" where
  "updates_one qm up f u D i d D' \<longleftrightarrow> D i = Some d \<and> qm f d \<and> D' = D(i \<mapsto> up u d)"

definition first_in_order ::
  "(document \<Rightarrow> document \<Rightarrow> document \<Rightarrow> bool) \<Rightarrow> document option \<Rightarrow>
   (document \<Rightarrow> document \<Rightarrow> bool) \<Rightarrow> document \<Rightarrow> collection \<Rightarrow> document \<Rightarrow> bool" where
  "first_in_order le s qm f D d \<longleftrightarrow>
     (case s of None \<Rightarrow> True | Some so \<Rightarrow> (\<forall>j e. D j = Some e \<longrightarrow> qm f e \<longrightarrow> le so d e))"

text \<open>
  The server as the code sees it. \<open>docs w\<close> is the collection. Other clients of the collection run
  at any time: \<open>rely D D'\<close> says that they may turn \<open>D\<close> into \<open>D'\<close>, and every operation acts on a
  collection that the others may have changed since the previous one. A failed operation may or
  may not have taken effect, as after a lost connection. \<open>le so\<close> is the sort order that the sort
  document \<open>so\<close> describes, and \<open>uniq\<close> says that the recommended unique index on \<open>task_id\<close> exists,
  and no other unique index beside it.
\<close>

locale mongo_server = mongo_query qmatch agg upd ins
  for qmatch :: "document \<Rightarrow> document \<Rightarrow> bool"
    and agg :: "bson \<Rightarrow> document \<Rightarrow> bson option"
    and upd :: "document \<Rightarrow> document \<Rightarrow> document"
    and ins :: "document \<Rightarrow> document \<Rightarrow> object_id \<Rightarrow> document" +
  fixes srv :: "'w server"
    and docs :: "'w \<Rightarrow> collection"
    and rely :: "collection \<Rightarrow> collection \<Rightarrow> bool"
    and le :: "document \<Rightarrow> document \<Rightarrow> document \<Rightarrow> bool"
    and uniq :: bool
  assumes rely_refl: "rely D D"
    and rely_trans: "rely D D1 \<Longrightarrow> rely D1 D2 \<Longrightarrow> rely D D2"
    and rely_ok: "rely D D1 \<Longrightarrow> coll_ok D \<Longrightarrow> coll_ok D1"
    and now_docs: "sv_now srv w = (t, w1) \<Longrightarrow> docs w1 = docs w"
    and uuid_docs: "sv_uuid srv w = (s, w1) \<Longrightarrow> docs w1 = docs w"
    and find_one_docs: "sv_find_one srv f w = (r1, w1) \<Longrightarrow>
      rely (docs w) (docs w1) \<and>
      (case r1 of
         Inl e \<Rightarrow> True
       | Inr None \<Rightarrow> no_match qmatch f (docs w1)
       | Inr (Some d) \<Rightarrow> (\<exists>i. docs w1 i = Some d \<and> qmatch f d))"
    and find_docs: "sv_find srv f w = (r2, w1) \<Longrightarrow>
      rely (docs w) (docs w1) \<and>
      (case r2 of
         Inl e \<Rightarrow> True
       | Inr xs \<Rightarrow>
           (\<forall>d. Inr d \<in> set xs \<longrightarrow>
              (\<exists>D1 i. rely (docs w) D1 \<and> rely D1 (docs w1) \<and> D1 i = Some d \<and> qmatch f d)) \<and>
           ((\<forall>x\<in>set xs. isl x = False) \<longrightarrow>
              (\<forall>i d. (\<forall>D1. rely (docs w) D1 \<and> rely D1 (docs w1) \<longrightarrow> D1 i = Some d) \<and> qmatch f d \<longrightarrow>
                 Inr d \<in> set xs)))"
    and update_docs: "sv_update_one srv f u False w = (r3, w1) \<Longrightarrow>
      (\<exists>D. rely (docs w) D \<and>
        (case r3 of
           Inl e \<Rightarrow> docs w1 = D \<or> (\<exists>i d. updates_one qmatch upd f u D i d (docs w1))
         | Inr res \<Rightarrow> upserted_id res = None \<and>
             (if matched_count res = 0 then docs w1 = D \<and> no_match qmatch f D
              else \<exists>i d. updates_one qmatch upd f u D i d (docs w1))))"
    and upsert_docs: "sv_update_one srv f u True w = (r3, w1) \<Longrightarrow>
      (\<exists>D. rely (docs w) D \<and>
        (case r3 of
           Inl e \<Rightarrow>
             (if \<exists>m. e = WriteError 11000 m
              then no_match qmatch f D \<and> rely D (docs w1) \<and>
                (\<exists>i d. docs w1 i = Some d \<and> (\<exists>v. (''task_id'', v) \<in> set (update_fields u ''$set'') \<and>
                   doc_get d ''task_id'' = Some v))
              else docs w1 = D \<or> (\<exists>i d. updates_one qmatch upd f u D i d (docs w1)) \<or>
                (no_match qmatch f D \<and> (\<exists>i. D i = None \<and> docs w1 = D(i \<mapsto> ins f u i) \<and>
                  (uniq \<longrightarrow> (\<forall>j e. D j = Some e \<longrightarrow> doc_get e ''task_id'' \<noteq> doc_get (ins f u i) ''task_id'')))))
         | Inr res \<Rightarrow>
             (case upserted_id res of
                None \<Rightarrow> 0 < matched_count res \<and> (\<exists>i d. updates_one qmatch upd f u D i d (docs w1))
              | Some v \<Rightarrow> matched_count res = 0 \<and> no_match qmatch f D \<and>
                  (\<exists>i. v = BObjectId i \<and> D i = None \<and> docs w1 = D(i \<mapsto> ins f u i) \<and>
                    (uniq \<longrightarrow> (\<forall>j e. D j = Some e \<longrightarrow> doc_get e ''task_id'' \<noteq> doc_get (ins f u i) ''task_id''))))))"
    and find_and_update_docs: "sv_find_one_and_update srv f u so w = (r1, w1) \<Longrightarrow>
      (\<exists>D. rely (docs w) D \<and>
        (case r1 of
           Inl e \<Rightarrow> docs w1 = D \<or> (\<exists>i d. updates_one qmatch upd f u D i d (docs w1))
         | Inr None \<Rightarrow> docs w1 = D \<and> no_match qmatch f D
         | Inr (Some d1) \<Rightarrow>
             (\<exists>i d. updates_one qmatch upd f u D i d (docs w1) \<and> d1 = upd u d \<and>
                first_in_order le so qmatch f D d)))"

end
