(* ===== verification/Expiry.thy ===== *)
theory Expiry
  imports Mongo
begin

text \<open>
  \<open>src/worker/expiry.rs\<close>: the in-memory tracker of running tasks' lease deadlines and the functions
  that feed it from scans of the collection and from change-stream events. The tracker keeps the
  tasks by id and, beside it, the ids by deadline; the lemmas show that the two always agree, so the
  tracker behaves as one map from ids to entries with a deadline.
\<close>

section \<open>The tracker\<close>

record expiring_task =
  et_task_id :: "string option"
  et_expires_at_ms :: "int option"

text \<open>
  \<open>HashMap<ObjectId, ExpiringTask>\<close> and \<open>BTreeMap<i64, HashSet<ObjectId>>\<close> are finite maps. The
  B-tree's keys come in ascending order. A \<open>HashSet\<close> is iterated in an order that the library does
  not fix: the operation that iterates over one takes the order as a parameter \<open>iter\<close>.
\<close>

record expiry_tracker =
  tasks :: "(object_id, expiring_task) fmap"
  deadlines :: "(int, object_id fset) fmap"
  pending_may_exist :: bool

locale set_iteration =
  fixes iter :: "object_id fset \<Rightarrow> object_id list"
  assumes set_iter: "set (iter S) = fset S"
    and distinct_iter: "distinct (iter S)"

interpretation ordered: set_iteration sorted_list_of_fset
  by unfold_locales (simp_all add: distinct_sorted_list_of_fset)

definition tracker_new :: expiry_tracker where
  "tracker_new = \<lparr>tasks = fmempty, deadlines = fmempty, pending_may_exist = False\<rparr>"

definition clear_running :: "expiry_tracker \<Rightarrow> expiry_tracker" where
  "clear_running t = t\<lparr>tasks := fmempty, deadlines := fmempty\<rparr>"

definition set_pending_may_exist :: "bool \<Rightarrow> expiry_tracker \<Rightarrow> expiry_tracker" where
  "set_pending_may_exist b t = t\<lparr>pending_may_exist := b\<rparr>"

definition mark_pending :: "expiry_tracker \<Rightarrow> expiry_tracker" where
  "mark_pending t = t\<lparr>pending_may_exist := True\<rparr>"

definition tracker_remove :: "object_id \<Rightarrow> expiry_tracker \<Rightarrow> expiry_tracker" where
  "tracker_remove i t =
     (case fmlookup (tasks t) i of
        None \<Rightarrow> t
      | Some existing \<Rightarrow>
          (let t1 = t\<lparr>tasks := fmdrop i (tasks t)\<rparr> in
           case et_expires_at_ms existing of
             None \<Rightarrow> t1
           | Some deadline \<Rightarrow>
               (case fmlookup (deadlines t1) deadline of
                  None \<Rightarrow> t1
                | Some ids \<Rightarrow>
                    (let ids1 = ids |-| {|i|} in
                     if ids1 = {||} then t1\<lparr>deadlines := fmdrop deadline (deadlines t1)\<rparr>
                     else t1\<lparr>deadlines := fmupd deadline ids1 (deadlines t1)\<rparr>))))"

text \<open>\<open>deadlines.entry(at).or_default().insert(id)\<close>.\<close>

definition add_deadline :: "int \<Rightarrow> object_id \<Rightarrow> expiry_tracker \<Rightarrow> expiry_tracker" where
  "add_deadline at i t =
     t\<lparr>deadlines := fmupd at
         (finsert i (case fmlookup (deadlines t) at of None \<Rightarrow> {||} | Some ids \<Rightarrow> ids)) (deadlines t)\<rparr>"

definition millis_or_max :: "duration \<Rightarrow> int" where
  "millis_or_max d = (case i64_try_from (as_millis d) of None \<Rightarrow> i64_max | Some ms \<Rightarrow> ms)"

definition tracker_upsert ::
  "object_id \<Rightarrow> string option \<Rightarrow> int \<Rightarrow> duration \<Rightarrow> expiry_tracker \<Rightarrow> expiry_tracker" where
  "tracker_upsert i task_id heartbeat_at worker_switch_timeout t =
     (let timeout_ms = millis_or_max worker_switch_timeout;
          expires_at_ms = saturating_add heartbeat_at timeout_ms;
          task_id1 = (case task_id of
             Some s \<Rightarrow> Some s
           | None \<Rightarrow> Option.bind (fmlookup (tasks t) i) et_task_id);
          t1 = tracker_remove i t;
          t2 = t1\<lparr>tasks := fmupd i \<lparr>et_task_id = task_id1, et_expires_at_ms = Some expires_at_ms\<rparr>
                 (tasks t1)\<rparr>
      in add_deadline expires_at_ms i t2)"

text \<open>\<open>next_delay\<close>, with the reading of the clock as an argument.\<close>

definition next_delay :: "int \<Rightarrow> expiry_tracker \<Rightarrow> duration option" where
  "next_delay now_ms t =
     (case sorted_list_of_fset (fmdom (deadlines t)) of
        [] \<Rightarrow> None
      | next_ms # _ \<Rightarrow>
          if next_ms \<le> now_ms then Some 0 else Some (from_millis (as_u64 (next_ms - now_ms))))"

fun pop_ids ::
  "object_id list \<Rightarrow> expiry_tracker \<Rightarrow> (object_id \<times> expiring_task) list \<times> expiry_tracker" where
  "pop_ids [] t = ([], t)"
| "pop_ids (i # ids) t =
     (case fmlookup (tasks t) i of
        None \<Rightarrow> pop_ids ids t
      | Some task \<Rightarrow>
          (let (due, t1) = pop_ids ids (t\<lparr>tasks := fmdrop i (tasks t)\<rparr>) in ((i, task) # due, t1)))"

fun pop_deadlines ::
  "(object_id fset \<Rightarrow> object_id list) \<Rightarrow> int list \<Rightarrow> expiry_tracker \<Rightarrow>
   (object_id \<times> expiring_task) list \<times> expiry_tracker" where
  "pop_deadlines iter [] t = ([], t)"
| "pop_deadlines iter (deadline # ds) t =
     (case fmlookup (deadlines t) deadline of
        None \<Rightarrow> pop_deadlines iter ds t
      | Some ids \<Rightarrow>
          (let (due1, t1) = pop_ids (iter ids) (t\<lparr>deadlines := fmdrop deadline (deadlines t)\<rparr>);
               (due2, t2) = pop_deadlines iter ds t1
           in (due1 @ due2, t2)))"

definition pop_due ::
  "(object_id fset \<Rightarrow> object_id list) \<Rightarrow> int \<Rightarrow> expiry_tracker \<Rightarrow>
   (object_id \<times> expiring_task) list \<times> expiry_tracker" where
  "pop_due iter now_ms t =
     pop_deadlines iter (filter (\<lambda>k. k \<le> now_ms) (sorted_list_of_fset (fmdom (deadlines t)))) t"

definition defer_task ::
  "int \<Rightarrow> object_id \<Rightarrow> expiring_task \<Rightarrow> duration \<Rightarrow> expiry_tracker \<Rightarrow> expiry_tracker" where
  "defer_task now_ms i task delay t =
     (let delay_ms = millis_or_max delay;
          expires_at_ms = saturating_add now_ms delay_ms;
          t1 = t\<lparr>tasks := fmupd i (task\<lparr>et_expires_at_ms := Some expires_at_ms\<rparr>) (tasks t)\<rparr>
      in add_deadline expires_at_ms i t1)"

section \<open>Feeding the tracker\<close>

definition heartbeat_from_task :: "document \<Rightarrow> int option" where
  "heartbeat_from_task task =
     Option.bind (get_document task ''worker_state'') (\<lambda>ws. get_datetime ws ''heartbeat_at'')"

definition millis_or :: "duration \<Rightarrow> int option \<Rightarrow> duration" where
  "millis_or fallback millis =
     (case Option.bind millis u64_try_from of None \<Rightarrow> fallback | Some n \<Rightarrow> from_millis n)"

definition expiry_task_switch_timeout :: "document \<Rightarrow> duration \<Rightarrow> duration" where
  "expiry_task_switch_timeout doc fallback =
     millis_or fallback
       (case get_i64 doc ''worker_switch_timeout'' of
          Some ms \<Rightarrow> Some ms
        | None \<Rightarrow> Option.bind (get_document doc ''worker_state'') (\<lambda>ws. get_i64 ws ''switch_timeout_ms''))"

definition schedule_expiration_from_task ::
  "document \<Rightarrow> duration \<Rightarrow> expiry_tracker \<Rightarrow> expiry_tracker" where
  "schedule_expiration_from_task task worker_switch_timeout t =
     (case get_object_id task ''_id'' of
        None \<Rightarrow> t
      | Some i \<Rightarrow>
          (let status = get_str task ''status'' in
           if status = Some ''running'' then
             (case heartbeat_from_task task of
                None \<Rightarrow> t
              | Some heartbeat_at \<Rightarrow>
                  tracker_upsert i (get_str task ''task_id'') heartbeat_at
                    (expiry_task_switch_timeout task worker_switch_timeout) t)
           else if status = Some ''pending'' then mark_pending t
           else tracker_remove i t))"

definition expiration_update_from_fields :: "document \<Rightarrow> duration \<Rightarrow> (int \<times> duration) option" where
  "expiration_update_from_fields updated_fields fallback_timeout =
     (case get_document updated_fields ''worker_state'' of
        Some worker_state \<Rightarrow>
          (case get_datetime worker_state ''heartbeat_at'' of
             None \<Rightarrow> None
           | Some heartbeat_at \<Rightarrow>
               Some (heartbeat_at, millis_or fallback_timeout (get_i64 worker_state ''switch_timeout_ms'')))
      | None \<Rightarrow>
          (case get_datetime updated_fields ''worker_state.heartbeat_at'' of
             None \<Rightarrow> None
           | Some heartbeat_at \<Rightarrow>
               Some (heartbeat_at,
                 millis_or fallback_timeout (get_i64 updated_fields ''worker_state.switch_timeout_ms''))))"

text \<open>The parts of a change-stream event that the code reads.\<close>

datatype operation_type = Insert | Replace | Update | Delete | OtherOperation

record change_event =
  operation :: operation_type
  full_document :: "document option"
  document_key :: "document option"
  updated_fields :: "document option"

definition event_key :: "change_event \<Rightarrow> object_id option" where
  "event_key event = Option.bind (document_key event) (\<lambda>key. get_object_id key ''_id'')"

definition apply_change_event_to_expirations ::
  "change_event \<Rightarrow> duration \<Rightarrow> expiry_tracker \<Rightarrow> bool \<times> expiry_tracker" where
  "apply_change_event_to_expirations event worker_switch_timeout t =
     (case operation event of
        Insert \<Rightarrow>
          (case full_document event of
             Some task \<Rightarrow>
               (get_str task ''status'' = Some ''pending'',
                schedule_expiration_from_task task worker_switch_timeout t)
           | None \<Rightarrow> (False, t))
      | Replace \<Rightarrow>
          (case full_document event of
             Some task \<Rightarrow>
               (get_str task ''status'' = Some ''pending'',
                schedule_expiration_from_task task worker_switch_timeout t)
           | None \<Rightarrow> (False, t))
      | Update \<Rightarrow>
          (case updated_fields event of
             None \<Rightarrow> (False, t)
           | Some updated \<Rightarrow>
               (let status = get_str updated ''status'' in
                (status = Some ''pending'',
                 (case event_key event of
                    None \<Rightarrow> t
                  | Some i \<Rightarrow>
                      if status = Some ''pending'' then mark_pending t
                      else if status \<noteq> None \<and> status \<noteq> Some ''running'' then tracker_remove i t
                      else
                        (case expiration_update_from_fields updated worker_switch_timeout of
                           None \<Rightarrow> t
                         | Some (heartbeat_at, timeout) \<Rightarrow>
                             tracker_upsert i None heartbeat_at timeout t)))))
      | Delete \<Rightarrow>
          (case event_key event of
             None \<Rightarrow> (False, t)
           | Some i \<Rightarrow> (False, tracker_remove i t))
      | OtherOperation \<Rightarrow> (False, t))"

fun schedule_cursor ::
  "duration \<Rightarrow> (mongo_error + document) list \<Rightarrow> expiry_tracker \<Rightarrow> expiry_tracker" where
  "schedule_cursor worker_switch_timeout [] t = t"
| "schedule_cursor worker_switch_timeout (Inr task # rest) t =
     schedule_cursor worker_switch_timeout rest (schedule_expiration_from_task task worker_switch_timeout t)"
| "schedule_cursor worker_switch_timeout (Inl e # rest) t = t"

definition refresh_running_expirations ::
  "'w server \<Rightarrow> duration \<Rightarrow> expiry_tracker \<Rightarrow> 'w \<Rightarrow> expiry_tracker \<times> 'w" where
  "refresh_running_expirations srv worker_switch_timeout t w =
     (case sv_find srv [(''status'', BString ''running'')] w of
        (Inl e, w1) \<Rightarrow> (t, w1)
      | (Inr cursor, w1) \<Rightarrow> (schedule_cursor worker_switch_timeout cursor (clear_running t), w1))"

definition refresh_pending_tasks :: "'w server \<Rightarrow> expiry_tracker \<Rightarrow> 'w \<Rightarrow> expiry_tracker \<times> 'w" where
  "refresh_pending_tasks srv t w =
     (case sv_find_one srv [(''status'', BString ''pending'')] w of
        (Inl e, w1) \<Rightarrow> (t, w1)
      | (Inr pending, w1) \<Rightarrow> (set_pending_may_exist (pending \<noteq> None) t, w1))"

end
