(* ===== verification/RefServer.thy ===== *)
theory RefServer
  imports Mongo
begin

text \<open>
  A small executable document store that satisfies the assumptions of \<open>Mongo\<close>: it shows that they
  are consistent and is the instance on which the witnesses evaluate the code's operations.
\<close>

section \<open>Expressions, filters and updates\<close>

fun ref_binary :: "string \<Rightarrow> bson option \<Rightarrow> bson option \<Rightarrow> bson option" where
  "ref_binary op x y =
     (if op = ''$ifNull'' then (case x of None \<Rightarrow> y | Some BNull \<Rightarrow> y | Some v \<Rightarrow> Some v)
      else if op = ''$add'' then
        (case (x, y) of (Some (BDateTime t), Some (BInt64 n)) \<Rightarrow> Some (BDateTime (t + n)) | _ \<Rightarrow> None)
      else if op = ''$lte'' then
        (case (x, y) of (Some (BDateTime t), Some (BDateTime s)) \<Rightarrow> Some (BBool (t \<le> s)) | _ \<Rightarrow> None)
      else if op = ''$ne'' then Some (BBool (x \<noteq> y))
      else None)"

definition ref_type :: "bson option \<Rightarrow> string" where
  "ref_type x = (case x of None \<Rightarrow> ''missing'' | Some (BDateTime t) \<Rightarrow> ''date'' | Some v \<Rightarrow> ''other'')"

fun ref_agg :: "bson \<Rightarrow> document \<Rightarrow> bson option" where
  "ref_agg v d =
     (case v of
        BString s \<Rightarrow> (case s of c # p \<Rightarrow> if c = CHR ''$'' then path_get d p else Some v | [] \<Rightarrow> Some v)
      | BDocument fs \<Rightarrow>
          (case fs of
             (op, BArray (x # y # [])) # [] \<Rightarrow> ref_binary op (ref_agg x d) (ref_agg y d)
           | (op, BDocument ((k, x) # (l, BString f) # [])) # [] \<Rightarrow>
               (case ref_agg x d of Some (BDocument e) \<Rightarrow> doc_get e f | _ \<Rightarrow> None)
           | (op, x) # [] \<Rightarrow> Some (BString (ref_type (ref_agg x d)))
           | _ \<Rightarrow> Some v)
      | _ \<Rightarrow> Some v)"

declare ref_agg.simps [simp del]

definition ref_operator :: "string \<Rightarrow> string \<Rightarrow> bson \<Rightarrow> document \<Rightarrow> bool" where
  "ref_operator op k v d =
     (if op = ''$in'' then (case v of BArray xs \<Rightarrow> (\<exists>x\<in>set xs. path_get d k = Some x) | _ \<Rightarrow> False)
      else if op = ''$nin'' then
        (case v of BArray xs \<Rightarrow> \<not> (\<exists>x\<in>set xs. path_get d k = Some x) | _ \<Rightarrow> False)
      else if op = ''$exists'' then (path_get d k \<noteq> None) = (v = BBool True)
      else if op = ''$type'' then (case path_get d k of Some (BDateTime t) \<Rightarrow> True | _ \<Rightarrow> False)
      else path_get d k = Some (op_doc op v))"

definition ref_cond :: "string \<Rightarrow> bson \<Rightarrow> document \<Rightarrow> bool" where
  "ref_cond k c d =
     (case c of
        BDocument fs \<Rightarrow> (case fs of (op, v) # [] \<Rightarrow> ref_operator op k v d | _ \<Rightarrow> path_get d k = Some c)
      | _ \<Rightarrow> path_get d k = Some c)"

lemma size_BDocument_field: "(k, v) \<in> set f \<Longrightarrow> size v < size (BDocument f)"
  by (induction f) auto

lemma size_BArray_elem: "v \<in> set xs \<Longrightarrow> size v < size (BArray xs)"
  by (induction xs) auto

function ref_entry :: "string \<Rightarrow> bson \<Rightarrow> document \<Rightarrow> bool" where
  "ref_entry k c d =
     (if k = ''$or'' then
        (case c of
           BArray xs \<Rightarrow>
             (\<exists>x\<in>set xs. case x of BDocument f \<Rightarrow> (\<forall>e\<in>set f. ref_entry (fst e) (snd e) d) | _ \<Rightarrow> False)
         | _ \<Rightarrow> False)
      else if k = ''$and'' then
        (case c of
           BArray xs \<Rightarrow>
             (\<forall>x\<in>set xs. case x of BDocument f \<Rightarrow> (\<forall>e\<in>set f. ref_entry (fst e) (snd e) d) | _ \<Rightarrow> False)
         | _ \<Rightarrow> False)
      else if k = ''$expr'' then ref_agg c d = Some (BBool True)
      else ref_cond k c d)"
  by pat_completeness auto
termination
  by (relation "measure (\<lambda>(k, c, d). size c)")
     (auto dest!: size_BDocument_field size_BArray_elem)

declare ref_entry.simps [simp del]

definition ref_match :: "document \<Rightarrow> document \<Rightarrow> bool" where
  "ref_match f d \<longleftrightarrow> (\<forall>e\<in>set f. ref_entry (fst e) (snd e) d)"

fun set_in :: "document \<Rightarrow> string list \<Rightarrow> bson \<Rightarrow> document" where
  "set_in d [] v = d"
| "set_in d [k] v = doc_insert d k v"
| "set_in d (k # ks) v =
     (case doc_get d k of
        Some (BDocument e) \<Rightarrow> doc_insert d k (BDocument (set_in e ks v))
      | _ \<Rightarrow> doc_insert d k (BDocument (set_in [] ks v)))"

fun unset_in :: "document \<Rightarrow> string list \<Rightarrow> document" where
  "unset_in d [] = d"
| "unset_in d [k] = AList.delete k d"
| "unset_in d (k # ks) =
     (case doc_get d k of Some (BDocument e) \<Rightarrow> doc_insert d k (BDocument (unset_in e ks)) | _ \<Rightarrow> d)"

fun set_fields :: "document \<Rightarrow> document \<Rightarrow> document" where
  "set_fields [] d = d"
| "set_fields ((p, v) # fs) d = set_fields fs (set_in d (split_path p) v)"

fun unset_fields :: "document \<Rightarrow> document \<Rightarrow> document" where
  "unset_fields [] d = d"
| "unset_fields ((p, v) # fs) d = unset_fields fs (unset_in d (split_path p))"

definition ref_upd :: "document \<Rightarrow> document \<Rightarrow> document" where
  "ref_upd u d = unset_fields (update_fields u ''$unset'') (set_fields (update_fields u ''$set'') d)"

definition ref_ins :: "document \<Rightarrow> document \<Rightarrow> object_id \<Rightarrow> document" where
  "ref_ins f u i = unset_fields (update_fields u ''$unset'')
     (set_fields (update_fields u ''$set'' @ update_fields u ''$setOnInsert'')
        [(''_id'', BObjectId i)])"

section \<open>The assumptions hold\<close>

lemma split_path_ne: "split_path p \<noteq> []"
  by (cases p) (auto split: list.splits)

lemma get_in_Nil [simp]: "get_in [] ps = None"
  by (induction "[] :: document" ps rule: get_in.induct) (simp_all add: doc_get_Nil)

lemma doc_get_delete: "doc_get (AList.delete k d) k' = (if k' = k then None else doc_get d k')"
  by (simp add: doc_get_def map_of_AList_delete)

lemma get_in_set_in: "ps \<noteq> [] \<Longrightarrow> get_in (set_in d ps v) ps = Some v"
  by (induction d ps v rule: set_in.induct)
     (auto simp: doc_get_insert split: option.splits bson.splits)

lemma get_in_set_in_apart:
  "apart ps qs \<Longrightarrow> get_in (set_in d qs v) ps = get_in d ps"
proof (induction d qs v arbitrary: ps rule: set_in.induct)
  case (1 d v)
  then show ?case by simp
next
  case (2 d k v)
  then show ?case
    by (cases ps; cases "tl ps") (auto simp: doc_get_insert)
next
  case (3 d k k2 ks v)
  show ?case
  proof (cases ps)
    case Nil
    with "3.prems" show ?thesis by simp
  next
    case (Cons p ps')
    show ?thesis
    proof (cases "p = k")
      case True
      with Cons "3.prems" have apart: "apart ps' (k2 # ks)" by simp
      then obtain r rs where ps': "ps' = r # rs" by (cases ps') auto
      show ?thesis
        using "3.IH" apart Cons ps' True
        by (auto simp: doc_get_insert split: option.splits bson.splits)
    next
      case False
      then show ?thesis
        by (cases ps') (auto simp: Cons doc_get_insert split: option.splits bson.splits)
    qed
  qed
qed

lemma get_in_unset_in: "get_in (unset_in d ps) ps = None"
  by (induction d ps rule: unset_in.induct)
     (auto simp: doc_get_insert doc_get_delete split: option.splits bson.splits)

lemma get_in_unset_in_apart:
  "apart ps qs \<Longrightarrow> get_in (unset_in d qs) ps = get_in d ps"
proof (induction d qs arbitrary: ps rule: unset_in.induct)
  case (1 d)
  then show ?case by simp
next
  case (2 d k)
  then show ?case
    by (cases ps; cases "tl ps") (auto simp: doc_get_delete)
next
  case (3 d k k2 ks)
  show ?case
  proof (cases ps)
    case Nil
    with "3.prems" show ?thesis by simp
  next
    case (Cons p ps')
    show ?thesis
    proof (cases "p = k")
      case True
      with Cons "3.prems" have apart: "apart ps' (k2 # ks)" by simp
      then obtain r rs where ps': "ps' = r # rs" by (cases ps') auto
      show ?thesis
        using "3.IH" apart Cons ps' True
        by (auto simp: doc_get_insert split: option.splits bson.splits)
    next
      case False
      then show ?thesis
        by (cases ps') (auto simp: Cons doc_get_insert split: option.splits bson.splits)
    qed
  qed
qed


lemma paths_apart_sym: "paths_apart p q = paths_apart q p"
  by (simp add: paths_apart_def apart_sym)

lemma path_get_set_in: "path_get (set_in d (split_path p) v) p = Some v"
  by (simp add: path_get_def get_in_set_in split_path_ne)

lemma path_get_unset_in: "path_get (unset_in d (split_path p)) p = None"
  by (simp add: path_get_def get_in_unset_in)

lemma path_get_set_fields_apart:
  "list_all (paths_apart p) (map fst fs) \<Longrightarrow> path_get (set_fields fs d) p = path_get d p"
  by (induction fs d rule: set_fields.induct)
     (auto simp: path_get_def paths_apart_def get_in_set_in_apart)

lemma path_get_set_fields:
  "pairwise_apart (map fst fs) \<Longrightarrow> (p, v) \<in> set fs \<Longrightarrow> path_get (set_fields fs d) p = Some v"
proof (induction fs d rule: set_fields.induct)
  case (1 d)
  then show ?case by simp
next
  case (2 q w fs d)
  show ?case
  proof (cases "(p, v) \<in> set fs")
    case True
    with 2 show ?thesis by simp
  next
    case False
    with "2.prems" have "p = q" "v = w" by auto
    with "2.prems" have "list_all (paths_apart p) (map fst fs)"
      by (auto simp: list_all_iff)
    then show ?thesis
      using \<open>p = q\<close> \<open>v = w\<close>
      by (simp add: path_get_set_fields_apart path_get_set_in)
  qed
qed

lemma path_get_unset_fields_apart:
  "list_all (paths_apart p) (map fst fs) \<Longrightarrow> path_get (unset_fields fs d) p = path_get d p"
  by (induction fs d rule: unset_fields.induct)
     (auto simp: path_get_def paths_apart_def get_in_unset_in_apart)

lemma path_get_unset_fields:
  "pairwise_apart (map fst fs) \<Longrightarrow> p \<in> fst ` set fs \<Longrightarrow> path_get (unset_fields fs d) p = None"
proof (induction fs d rule: unset_fields.induct)
  case (1 d)
  then show ?case by simp
next
  case (2 q w fs d)
  show ?case
  proof (cases "p \<in> fst ` set fs")
    case True
    with 2 show ?thesis by simp
  next
    case False
    with "2.prems" have "p = q" by auto
    with "2.prems" have "list_all (paths_apart p) (map fst fs)"
      by (auto simp: list_all_iff)
    then show ?thesis
      using \<open>p = q\<close> by (simp add: path_get_unset_fields_apart path_get_unset_in)
  qed
qed

lemma pairwise_apart_append:
  "pairwise_apart (ps @ qs) \<longleftrightarrow>
     pairwise_apart ps \<and> pairwise_apart qs \<and> (\<forall>p\<in>set ps. \<forall>q\<in>set qs. paths_apart p q)"
  by (induction ps) auto

lemma ref_entry_field: "is_field k \<Longrightarrow> ref_entry k c d = ref_cond k c d"
  by (subst ref_entry.simps) (auto simp: is_field_def)

lemma ref_cond_scalar: "is_scalar v \<Longrightarrow> ref_cond k v d \<longleftrightarrow> path_get d k = Some v"
  by (cases v) (auto simp: ref_cond_def)

lemma ref_match_or:
  "ref_match [(''$or'', BArray (map BDocument fs))] d \<longleftrightarrow> (\<exists>f\<in>set fs. ref_match f d)"
  by (simp add: ref_match_def ref_entry.simps [of "''$or''"])

lemma ref_match_and:
  "ref_match [(''$and'', BArray (map BDocument fs))] d \<longleftrightarrow> (\<forall>f\<in>set fs. ref_match f d)"
  by (simp add: ref_match_def ref_entry.simps [of "''$and''"])

lemma ref_match_expr: "ref_match [(''$expr'', e)] d \<longleftrightarrow> ref_agg e d = Some (BBool True)"
  by (simp add: ref_match_def ref_entry.simps [of "''$expr''"])

lemmas ref_field_simps = ref_match_def ref_entry_field ref_cond_scalar

lemma ref_match_field: "is_field k \<Longrightarrow> ref_match [(k, c)] d \<longleftrightarrow> ref_cond k c d"
  by (simp add: ref_match_def ref_entry_field)

lemma ref_match_some:
  assumes "is_field k" and "list_all is_scalar xs"
  shows "(\<exists>x\<in>set xs. ref_match [(k, x)] d) \<longleftrightarrow> (\<exists>x\<in>set xs. path_get d k = Some x)"
  using assms by (auto simp: ref_match_field ref_cond_scalar list_all_iff)

lemma ref_cond_op: "ref_cond k (op_doc op v) d = ref_operator op k v d"
  by (simp add: ref_cond_def)

lemma path_get_id_doc: "path_get [(''_id'', v)] ''_id'' = Some v"
  by (simp add: path_get_def doc_get_def)

lemma insert_fields_apart:
  assumes "pairwise_apart (touched_on_insert u)"
    and "(p, v) \<in> set (update_fields u ''$set'') \<union> set (update_fields u ''$setOnInsert'')"
  shows "list_all (paths_apart p) (map fst (update_fields u ''$unset''))"
    and "pairwise_apart (map fst (update_fields u ''$set'' @ update_fields u ''$setOnInsert''))"
proof -
  have p: "p \<in> fst ` set (update_fields u ''$set'') \<union> fst ` set (update_fields u ''$setOnInsert'')"
    using assms(2) by force
  have sets: "\<forall>r\<in>fst ` set (update_fields u ''$set''). \<forall>q\<in>fst ` set (update_fields u ''$unset'').
      paths_apart r q"
    "\<forall>q\<in>fst ` set (update_fields u ''$unset''). \<forall>r\<in>fst ` set (update_fields u ''$setOnInsert'').
      paths_apart q r"
    using assms(1) unfolding touched_def touched_on_insert_def pairwise_apart_append set_append set_map
    by blast+
  then show "list_all (paths_apart p) (map fst (update_fields u ''$unset''))"
    unfolding list_all_iff set_map using p paths_apart_sym by blast
  show "pairwise_apart (map fst (update_fields u ''$set'' @ update_fields u ''$setOnInsert''))"
    using assms(1) by (auto simp: touched_def touched_on_insert_def pairwise_apart_append)
qed

interpretation refq: mongo_query ref_match ref_agg ref_upd ref_ins
proof unfold_locales
  show "ref_match f d \<longleftrightarrow> (\<forall>e\<in>set f. ref_match [e] d)" for f d
    by (simp add: ref_match_def)
next
  fix k :: string and v :: bson and xs :: "bson list" and d :: document and b :: bool
  assume k: "is_field k"
  show "is_scalar v \<Longrightarrow> ref_match [(k, v)] d \<longleftrightarrow> path_get d k = Some v"
    using k by (simp add: ref_match_field ref_cond_scalar)
  show "list_all is_scalar xs \<Longrightarrow>
      ref_match [(k, op_doc ''$in'' (BArray xs))] d \<longleftrightarrow> (\<exists>x\<in>set xs. ref_match [(k, x)] d)"
    using k by (simp add: ref_match_some) (simp add: ref_match_field ref_cond_op ref_operator_def)
  show "list_all is_scalar xs \<Longrightarrow>
      ref_match [(k, op_doc ''$nin'' (BArray xs))] d \<longleftrightarrow> \<not> (\<exists>x\<in>set xs. ref_match [(k, x)] d)"
    unfolding ref_match_some [OF k]
    using k by (simp add: ref_match_field ref_cond_op ref_operator_def)
  show "ref_match [(k, op_doc ''$exists'' (BBool b))] d \<longleftrightarrow> ((path_get d k \<noteq> None) = b)"
    using k by (simp add: ref_match_field ref_cond_op ref_operator_def)
  show "ref_match [(k, op_doc ''$type'' (BString ''date''))] d
      \<longleftrightarrow> (\<exists>t. path_get d k = Some (BDateTime t))"
    using k by (auto simp: ref_match_field ref_cond_op ref_operator_def
        split: option.splits bson.splits)
next
  fix fs :: "document list" and d :: document
  show "ref_match [(''$or'', BArray (map BDocument fs))] d \<longleftrightarrow> (\<exists>f\<in>set fs. ref_match f d)"
    by (rule ref_match_or)
  show "ref_match [(''$and'', BArray (map BDocument fs))] d \<longleftrightarrow> (\<forall>f\<in>set fs. ref_match f d)"
    by (rule ref_match_and)
next
  fix e x y :: bson and d :: document and b :: bool and t n s :: int
  show "ref_agg e d = Some (BBool b) \<Longrightarrow> ref_match [(''$expr'', e)] d \<longleftrightarrow> b"
    by (simp add: ref_match_expr)
  show "ref_agg (BInt64 n) d = Some (BInt64 n)" by (simp add: ref_agg.simps)
  show "ref_agg (BDateTime t) d = Some (BDateTime t)" by (simp add: ref_agg.simps)
  show "ref_agg (op_doc ''$ifNull'' (BArray [x, y])) d =
      (case ref_agg x d of None \<Rightarrow> ref_agg y d | Some BNull \<Rightarrow> ref_agg y d | Some v \<Rightarrow> Some v)"
    by (simp add: ref_agg.simps [of "op_doc _ _"])
  show "ref_agg x d = Some (BDateTime t) \<Longrightarrow> ref_agg y d = Some (BInt64 n) \<Longrightarrow>
      ref_agg (op_doc ''$add'' (BArray [x, y])) d = Some (BDateTime (t + n))"
    by (simp add: ref_agg.simps [of "op_doc _ _"])
  show "ref_agg x d = Some (BDateTime t) \<Longrightarrow> ref_agg y d = Some (BDateTime s) \<Longrightarrow>
      ref_agg (op_doc ''$lte'' (BArray [x, y])) d = Some (BBool (t \<le> s))"
    by (simp add: ref_agg.simps [of "op_doc _ _"])
next
  show "ref_agg (BString (CHR ''$'' # p)) d = path_get d p" for p d
    by (simp add: ref_agg.simps)
next
  fix u f d :: document and p :: string and v :: bson and i :: object_id
  show "pairwise_apart (touched u) \<Longrightarrow> (p, v) \<in> set (update_fields u ''$set'') \<Longrightarrow>
      path_get (ref_upd u d) p = Some v"
    by (force simp: ref_upd_def touched_def pairwise_apart_append list_all_iff
        path_get_unset_fields_apart path_get_set_fields)
  show "pairwise_apart (touched u) \<Longrightarrow> p \<in> fst ` set (update_fields u ''$unset'') \<Longrightarrow>
      path_get (ref_upd u d) p = None"
    by (simp add: ref_upd_def touched_def pairwise_apart_append path_get_unset_fields)
  show "list_all (paths_apart p) (touched u) \<Longrightarrow> path_get (ref_upd u d) p = path_get d p"
    by (simp add: ref_upd_def touched_def path_get_unset_fields_apart path_get_set_fields_apart)
  show "pairwise_apart (touched_on_insert u) \<Longrightarrow>
      (p, v) \<in> set (update_fields u ''$set'') \<union> set (update_fields u ''$setOnInsert'') \<Longrightarrow>
      path_get (ref_ins f u i) p = Some v"
    using insert_fields_apart [of u p v]
    by (simp add: ref_ins_def path_get_unset_fields_apart path_get_set_fields)
  show "pairwise_apart (touched_on_insert u) \<Longrightarrow>
      p \<in> fst ` set (update_fields u ''$unset'') \<Longrightarrow> path_get (ref_ins f u i) p = None"
    by (simp add: ref_ins_def touched_def touched_on_insert_def pairwise_apart_append
        path_get_unset_fields)
  show "list_all (paths_apart ''_id'') (touched_on_insert u) \<Longrightarrow>
      path_get (ref_ins f u i) ''_id'' = Some (BObjectId i)"
    by (simp add: ref_ins_def touched_def touched_on_insert_def path_get_unset_fields_apart
        path_get_set_fields_apart path_get_id_doc)
qed

section \<open>The store\<close>

text \<open>
  The world holds the documents by id, a clock that advances by one millisecond per reading, a
  counter for fresh identifiers, and the faults that the next operations suffer: an operation may
  fail before or after it took effect. No other client interferes, so \<open>rely\<close> is equality.
\<close>

datatype fault = NoFault | FailBefore | FailAfter

record ref_world =
  rw_docs :: "(object_id \<times> document) list"
  rw_clock :: int
  rw_uuids :: nat
  rw_faults :: "fault list"

definition ref_world_of :: "(object_id \<times> document) list \<Rightarrow> int \<Rightarrow> ref_world" where
  "ref_world_of ds t = \<lparr>rw_docs = ds, rw_clock = t, rw_uuids = 0, rw_faults = []\<rparr>"

definition ref_docs :: "ref_world \<Rightarrow> collection" where
  "ref_docs w = map_of (rw_docs w)"

definition ref_now :: "ref_world \<Rightarrow> int \<times> ref_world" where
  "ref_now w = (rw_clock w, w\<lparr>rw_clock := rw_clock w + 1\<rparr>)"

definition ref_uuid :: "ref_world \<Rightarrow> string \<times> ref_world" where
  "ref_uuid w = (''uuid-'' @ replicate (rw_uuids w) CHR ''i'', w\<lparr>rw_uuids := rw_uuids w + 1\<rparr>)"

fun next_fault :: "fault list \<Rightarrow> fault" where
  "next_fault [] = NoFault"
| "next_fault (x # xs) = x"

definition drop_fault :: "ref_world \<Rightarrow> ref_world" where
  "drop_fault w = w\<lparr>rw_faults := tl (rw_faults w)\<rparr>"

definition ref_failure :: mongo_error where
  "ref_failure = OtherError ''connection reset''"

text \<open>A sort document orders by an integer or date field; only its first key counts here.\<close>

definition sort_key :: "document \<Rightarrow> string \<Rightarrow> int" where
  "sort_key d k =
     (case path_get d k of
        Some (BDateTime t) \<Rightarrow> t | Some (BInt64 n) \<Rightarrow> n | Some (BInt32 n) \<Rightarrow> n | _ \<Rightarrow> 0)"

definition ref_le :: "document \<Rightarrow> document \<Rightarrow> document \<Rightarrow> bool" where
  "ref_le so d e =
     (case so of
        [] \<Rightarrow> True
      | (k, dir) # _ \<Rightarrow>
          if dir = BInt32 (- 1) then sort_key e k \<le> sort_key d k else sort_key d k \<le> sort_key e k)"

fun pick_first :: "('a \<Rightarrow> 'a \<Rightarrow> bool) \<Rightarrow> 'a list \<Rightarrow> 'a option" where
  "pick_first r [] = None"
| "pick_first r (x # xs) =
     (case pick_first r xs of None \<Rightarrow> Some x | Some y \<Rightarrow> if r x y then Some x else Some y)"

definition ref_candidates :: "document \<Rightarrow> ref_world \<Rightarrow> (object_id \<times> document) list" where
  "ref_candidates f w = filter (\<lambda>x. ref_match f (snd x)) (AList.clearjunk (rw_docs w))"

definition ref_pick :: "document \<Rightarrow> document option \<Rightarrow> ref_world \<Rightarrow> (object_id \<times> document) option" where
  "ref_pick f so w =
     pick_first (\<lambda>x y. case so of None \<Rightarrow> True | Some s \<Rightarrow> ref_le s (snd x) (snd y)) (ref_candidates f w)"

definition put_doc :: "object_id \<Rightarrow> document \<Rightarrow> ref_world \<Rightarrow> ref_world" where
  "put_doc i d w = w\<lparr>rw_docs := AList.update i d (rw_docs w)\<rparr>"

definition ref_find_one :: "document \<Rightarrow> ref_world \<Rightarrow> (mongo_error + document option) \<times> ref_world" where
  "ref_find_one f w =
     (if next_fault (rw_faults w) = NoFault
      then (Inr (map_option snd (ref_pick f None w)), drop_fault w)
      else (Inl ref_failure, drop_fault w))"

definition ref_find :: "document \<Rightarrow> ref_world \<Rightarrow> (mongo_error + (mongo_error + document) list) \<times> ref_world" where
  "ref_find f w =
     (case next_fault (rw_faults w) of
        NoFault \<Rightarrow> (Inr (map (\<lambda>x. Inr (snd x)) (ref_candidates f w)), drop_fault w)
      | FailBefore \<Rightarrow> (Inl ref_failure, drop_fault w)
      | FailAfter \<Rightarrow> (Inr [Inl ref_failure], drop_fault w))"

definition ref_find_one_and_update ::
  "document \<Rightarrow> document \<Rightarrow> document option \<Rightarrow> ref_world \<Rightarrow>
   (mongo_error + document option) \<times> ref_world" where
  "ref_find_one_and_update f u so w =
     (if next_fault (rw_faults w) = FailBefore then (Inl ref_failure, drop_fault w)
      else (case ref_pick f so w of
          None \<Rightarrow> (Inr None, drop_fault w)
        | Some (i, d) \<Rightarrow>
            (if next_fault (rw_faults w) = FailAfter then Inl ref_failure else Inr (Some (ref_upd u d)),
             put_doc i (ref_upd u d) (drop_fault w))))"

definition fresh_id :: "ref_world \<Rightarrow> object_id" where
  "fresh_id w = ObjectId (Suc (sum_list (map (oid_number \<circ> fst) (rw_docs w))))"

definition ref_insert :: "document \<Rightarrow> document \<Rightarrow> ref_world \<Rightarrow> (mongo_error + update_result) \<times> ref_world" where
  "ref_insert f u w =
     (let i = fresh_id w; d = ref_ins f u i in
      if (\<exists>x\<in>set (AList.clearjunk (rw_docs w)). doc_get (snd x) ''task_id'' = doc_get d ''task_id'')
      then (if (\<exists>x\<in>set (AList.clearjunk (rw_docs w)). \<exists>y\<in>set (update_fields u ''$set'').
               fst y = ''task_id'' \<and> doc_get (snd x) ''task_id'' = Some (snd y))
            then (Inl (WriteError 11000 ''duplicate key''), drop_fault w)
            else (Inl ref_failure, drop_fault w))
      else (if next_fault (rw_faults w) = FailAfter then Inl ref_failure
            else Inr \<lparr>matched_count = 0, upserted_id = Some (BObjectId i)\<rparr>,
            put_doc i d (drop_fault w)))"

definition ref_update_one ::
  "document \<Rightarrow> document \<Rightarrow> bool \<Rightarrow> ref_world \<Rightarrow> (mongo_error + update_result) \<times> ref_world" where
  "ref_update_one f u upsert w =
     (if next_fault (rw_faults w) = FailBefore then (Inl ref_failure, drop_fault w)
      else (case ref_pick f None w of
          None \<Rightarrow>
            if upsert then ref_insert f u w
            else (Inr \<lparr>matched_count = 0, upserted_id = None\<rparr>, drop_fault w)
        | Some (i, d) \<Rightarrow>
            (if next_fault (rw_faults w) = FailAfter then Inl ref_failure
             else Inr \<lparr>matched_count = 1, upserted_id = None\<rparr>,
             put_doc i (ref_upd u d) (drop_fault w))))"

definition ref_server :: "ref_world server" where
  "ref_server =
     \<lparr>sv_now = ref_now, sv_uuid = ref_uuid, sv_find_one = ref_find_one, sv_find = ref_find,
      sv_update_one = ref_update_one, sv_find_one_and_update = ref_find_one_and_update\<rparr>"

lemma ref_server_sel [simp]:
  "sv_now ref_server = ref_now" "sv_uuid ref_server = ref_uuid"
  "sv_find_one ref_server = ref_find_one" "sv_find ref_server = ref_find"
  "sv_update_one ref_server = ref_update_one"
  "sv_find_one_and_update ref_server = ref_find_one_and_update"
  by (simp_all add: ref_server_def)

lemma ref_docs_drop_fault [simp]: "ref_docs (drop_fault w) = ref_docs w"
  by (simp add: ref_docs_def drop_fault_def)

lemma ref_docs_put [simp]: "ref_docs (put_doc i d w) = (ref_docs w)(i \<mapsto> d)"
  by (simp add: ref_docs_def put_doc_def update_conv')

lemma set_clearjunk: "(i, d) \<in> set (AList.clearjunk al) \<longleftrightarrow> map_of al i = Some d"
  by (metis distinct_clearjunk map_of_clearjunk map_of_eq_Some_iff)

lemma ref_candidates_iff: "(i, d) \<in> set (ref_candidates f w) \<longleftrightarrow> ref_docs w i = Some d \<and> ref_match f d"
  by (auto simp: ref_candidates_def ref_docs_def set_clearjunk)

lemma pick_first_None: "pick_first r xs = None \<longleftrightarrow> xs = []"
  by (cases xs) (auto split: option.splits)

lemma pick_first_mem: "pick_first r xs = Some x \<Longrightarrow> x \<in> set xs"
  by (induction xs arbitrary: x) (auto split: option.splits if_splits)

lemma pick_first_least:
  assumes "\<And>x y. r x y \<or> r y x" and "\<And>x y z. r x y \<Longrightarrow> r y z \<Longrightarrow> r x z"
  shows "pick_first r xs = Some x \<Longrightarrow> y \<in> set xs \<Longrightarrow> r x y"
proof (induction xs arbitrary: x y)
  case Nil
  then show ?case by simp
next
  case (Cons z zs)
  have refl: "r v v" for v using assms(1) by blast
  show ?case
  proof (cases "pick_first r zs")
    case None
    then show ?thesis using Cons.prems refl by (auto simp: pick_first_None)
  next
    case (Some v)
    have zs: "\<And>y. y \<in> set zs \<Longrightarrow> r v y" using Cons.IH Some by blast
    show ?thesis
    proof (cases "r z v")
      case True
      then show ?thesis using Cons.prems Some zs refl assms(2) by auto
    next
      case False
      then have "r v z" using assms(1) by blast
      then show ?thesis using Cons.prems Some zs False by auto
    qed
  qed
qed

lemma ref_le_total: "ref_le so d e \<or> ref_le so e d"
  by (auto simp: ref_le_def split: list.splits)

lemma ref_le_trans: "ref_le so d e \<Longrightarrow> ref_le so e f \<Longrightarrow> ref_le so d f"
  by (auto simp: ref_le_def split: list.splits if_splits)

lemma ref_pick_None: "ref_pick f so w = None \<longleftrightarrow> no_match ref_match f (ref_docs w)"
proof -
  have "ref_candidates f w = [] \<longleftrightarrow> (\<forall>i d. (i, d) \<notin> set (ref_candidates f w))"
    by (metis list.set_intros(1) list.exhaust empty_iff empty_set old.prod.exhaust)
  then show ?thesis
    by (auto simp: ref_pick_def pick_first_None no_match_def ref_candidates_iff)
qed

lemma ref_pick_Some:
  assumes "ref_pick f so w = Some (i, d)"
  shows "ref_docs w i = Some d" and "ref_match f d"
    and "first_in_order ref_le so ref_match f (ref_docs w) d"
proof -
  have "(i, d) \<in> set (ref_candidates f w)"
    using assms by (auto simp: ref_pick_def dest: pick_first_mem)
  then show "ref_docs w i = Some d" and "ref_match f d"
    by (simp_all add: ref_candidates_iff)
  let ?r = "\<lambda>x y :: object_id \<times> document. case so of None \<Rightarrow> True | Some s \<Rightarrow> ref_le s (snd x) (snd y)"
  have least: "\<And>y. y \<in> set (ref_candidates f w) \<Longrightarrow> ?r (i, d) y"
    using pick_first_least [of ?r "ref_candidates f w" "(i, d)"] assms ref_le_total ref_le_trans
    by (fastforce simp: ref_pick_def split: option.splits)
  show "first_in_order ref_le so ref_match f (ref_docs w) d"
    using least unfolding first_in_order_def
    by (fastforce simp: ref_candidates_iff split: option.splits)
qed

lemma ref_pick_updates:
  assumes "ref_pick f so w = Some (i, d)"
  shows "updates_one ref_match ref_upd f u (ref_docs w) i d ((ref_docs w)(i \<mapsto> ref_upd u d))"
  using ref_pick_Some [OF assms] by (simp add: updates_one_def)

lemma fresh_id_unused: "ref_docs w (fresh_id w) = None"
proof -
  have "fst x \<noteq> fresh_id w" if "x \<in> set (rw_docs w)" for x
  proof -
    have "oid_number (fst x) \<le> sum_list (map (oid_number \<circ> fst) (rw_docs w))"
      using that by (intro member_le_sum_list) auto
    then show ?thesis by (auto simp: fresh_id_def)
  qed
  then have "fresh_id w \<notin> fst ` set (rw_docs w)" by force
  then show ?thesis by (simp add: ref_docs_def map_of_eq_None_iff)
qed

lemma ref_insert_cases:
  assumes "ref_insert f u w = (r, w1)"
  shows "(\<exists>m. r = Inl (WriteError 11000 m) \<and> ref_docs w1 = ref_docs w \<and>
            (\<exists>i d. ref_docs w i = Some d \<and> (\<exists>v. (''task_id'', v) \<in> set (update_fields u ''$set'') \<and>
               doc_get d ''task_id'' = Some v))) \<or>
         (r = Inl ref_failure \<and> ref_docs w1 = ref_docs w) \<or>
         ((r = Inl ref_failure \<or>
           r = Inr \<lparr>matched_count = 0, upserted_id = Some (BObjectId (fresh_id w))\<rparr>) \<and>
          ref_docs w1 = (ref_docs w)(fresh_id w \<mapsto> ref_ins f u (fresh_id w)) \<and>
          (\<forall>j e. ref_docs w j = Some e \<longrightarrow>
             doc_get e ''task_id'' \<noteq> doc_get (ref_ins f u (fresh_id w)) ''task_id''))"
proof -
  let ?ds = "set (AList.clearjunk (rw_docs w))"
  let ?same = "\<exists>x\<in>?ds. doc_get (snd x) ''task_id'' = doc_get (ref_ins f u (fresh_id w)) ''task_id''"
  let ?clash = "\<exists>x\<in>?ds. \<exists>y\<in>set (update_fields u ''$set'').
    fst y = ''task_id'' \<and> doc_get (snd x) ''task_id'' = Some (snd y)"
  have docs: "(i, d) \<in> ?ds \<longleftrightarrow> ref_docs w i = Some d" for i d
    by (simp add: set_clearjunk ref_docs_def)
  consider "?same" "?clash" | "?same" "\<not> ?clash" | "\<not> ?same" by blast
  then show ?thesis
  proof cases
    case 1
    then have "r = Inl (WriteError 11000 ''duplicate key'')" "w1 = drop_fault w"
      using assms by (simp_all add: ref_insert_def Let_def)
    moreover have "\<exists>i d. ref_docs w i = Some d \<and> (\<exists>v. (''task_id'', v) \<in> set (update_fields u ''$set'') \<and>
        doc_get d ''task_id'' = Some v)"
      using \<open>?clash\<close> docs by (metis prod.collapse)
    ultimately show ?thesis by simp
  next
    case 2
    then show ?thesis using assms by (auto simp: ref_insert_def Let_def split: if_splits)
  next
    case 3
    have "\<forall>j e. ref_docs w j = Some e \<longrightarrow>
        doc_get e ''task_id'' \<noteq> doc_get (ref_ins f u (fresh_id w)) ''task_id''"
      using 3 docs by fastforce
    then show ?thesis using assms 3
      by (cases "next_fault (rw_faults w) = FailAfter") (auto simp: ref_insert_def Let_def)
  qed
qed

text \<open>The store satisfies the assumptions of the server interface, without interference.\<close>

interpretation ref: mongo_server ref_match ref_agg ref_upd ref_ins ref_server ref_docs "(=)" ref_le True
proof unfold_locales
  fix f u :: document and so :: "document option" and w w1 :: ref_world
  fix r1 :: "mongo_error + document option"
  show "sv_find_one ref_server f w = (r1, w1) \<Longrightarrow>
      ref_docs w = ref_docs w1 \<and>
      (case r1 of Inl e \<Rightarrow> True | Inr None \<Rightarrow> no_match ref_match f (ref_docs w1)
       | Inr (Some d) \<Rightarrow> (\<exists>i. ref_docs w1 i = Some d \<and> ref_match f d))"
    using ref_pick_Some [of f None w]
    by (cases "ref_pick f None w")
       (auto simp: ref_find_one_def dest: ref_pick_None [THEN iffD1] split: if_splits)
  show "sv_find_one_and_update ref_server f u so w = (r1, w1) \<Longrightarrow>
      \<exists>D. ref_docs w = D \<and>
        (case r1 of
           Inl e \<Rightarrow> ref_docs w1 = D \<or> (\<exists>i d. updates_one ref_match ref_upd f u D i d (ref_docs w1))
         | Inr None \<Rightarrow> ref_docs w1 = D \<and> no_match ref_match f D
         | Inr (Some d1) \<Rightarrow>
             (\<exists>i d. updates_one ref_match ref_upd f u D i d (ref_docs w1) \<and> d1 = ref_upd u d \<and>
                first_in_order ref_le so ref_match f D d))"
    using ref_pick_updates [of f so w _ _ u] ref_pick_Some(3) [of f so w]
    by (cases "ref_pick f so w")
       (fastforce simp: ref_find_one_and_update_def split: if_splits
          dest: ref_pick_None [THEN iffD1])+
next
  fix f :: document and w w1 :: ref_world and r2 :: "mongo_error + (mongo_error + document) list"
  have all: "Inr d \<in> (\<lambda>x. Inr (snd x)) ` set (ref_candidates f w) \<longleftrightarrow>
      (\<exists>i. ref_docs w i = Some d \<and> ref_match f d)" for d and f
    unfolding ref_candidates_iff [symmetric] image_iff by (metis Inr_inject prod.collapse snd_conv)
  assume find: "sv_find ref_server f w = (r2, w1)"
  then have same: "ref_docs w1 = ref_docs w"
    by (auto simp: ref_find_def split: fault.splits)
  show "ref_docs w = ref_docs w1 \<and>
      (case r2 of
         Inl e \<Rightarrow> True
       | Inr xs \<Rightarrow>
           (\<forall>d. Inr d \<in> set xs \<longrightarrow>
              (\<exists>D1 i. ref_docs w = D1 \<and> D1 = ref_docs w1 \<and> D1 i = Some d \<and> ref_match f d)) \<and>
           ((\<forall>x\<in>set xs. isl x = False) \<longrightarrow>
              (\<forall>i d. (\<forall>D1. ref_docs w = D1 \<and> D1 = ref_docs w1 \<longrightarrow> D1 i = Some d) \<and> ref_match f d \<longrightarrow>
                 Inr d \<in> set xs)))"
  proof (cases "next_fault (rw_faults w)")
    case NoFault
    then have r2: "r2 = Inr (map (\<lambda>x. Inr (snd x)) (ref_candidates f w))"
      using find by (simp add: ref_find_def)
    show ?thesis unfolding r2 same sum.case set_map all by blast
  next
    case FailBefore
    then have r2: "r2 = Inl ref_failure" using find by (simp add: ref_find_def)
    show ?thesis unfolding r2 same sum.case by simp
  next
    case FailAfter
    then have r2: "r2 = Inr [Inl ref_failure]" using find by (simp add: ref_find_def)
    have "\<not> (\<forall>x\<in>set [Inl ref_failure :: mongo_error + document]. isl x = False)"
      and "\<And>d. Inr d \<notin> set [Inl ref_failure :: mongo_error + document]" by simp_all
    then show ?thesis unfolding r2 same sum.case by blast
  qed
next
  fix f u :: document and w w1 :: ref_world and r3 :: "mongo_error + update_result"
  show "sv_update_one ref_server f u False w = (r3, w1) \<Longrightarrow>
      \<exists>D. ref_docs w = D \<and>
        (case r3 of
           Inl e \<Rightarrow> ref_docs w1 = D \<or> (\<exists>i d. updates_one ref_match ref_upd f u D i d (ref_docs w1))
         | Inr res \<Rightarrow> upserted_id res = None \<and>
             (if matched_count res = 0 then ref_docs w1 = D \<and> no_match ref_match f D
              else \<exists>i d. updates_one ref_match ref_upd f u D i d (ref_docs w1)))"
    using ref_pick_updates [of f None w _ _ u]
    by (cases "ref_pick f None w")
       (auto simp: ref_update_one_def split: if_splits dest: ref_pick_None [THEN iffD1], blast)
next
  fix f u :: document and w w1 :: ref_world and r3 :: "mongo_error + update_result"
  assume upsert: "sv_update_one ref_server f u True w = (r3, w1)"
  let ?goal = "\<lambda>r w1. \<exists>D. ref_docs w = D \<and>
      (case r of
         Inl e \<Rightarrow>
           (if \<exists>m. e = WriteError 11000 m
            then no_match ref_match f D \<and> D = ref_docs w1 \<and>
              (\<exists>i d. ref_docs w1 i = Some d \<and> (\<exists>v. (''task_id'', v) \<in> set (update_fields u ''$set'') \<and>
                 doc_get d ''task_id'' = Some v))
            else ref_docs w1 = D \<or> (\<exists>i d. updates_one ref_match ref_upd f u D i d (ref_docs w1)) \<or>
              (no_match ref_match f D \<and> (\<exists>i. D i = None \<and> ref_docs w1 = D(i \<mapsto> ref_ins f u i) \<and>
                (True \<longrightarrow> (\<forall>j e. D j = Some e \<longrightarrow>
                   doc_get e ''task_id'' \<noteq> doc_get (ref_ins f u i) ''task_id'')))))
       | Inr res \<Rightarrow>
           (case upserted_id res of
              None \<Rightarrow> 0 < matched_count res \<and> (\<exists>i d. updates_one ref_match ref_upd f u D i d (ref_docs w1))
            | Some v \<Rightarrow> matched_count res = 0 \<and> no_match ref_match f D \<and>
                (\<exists>i. v = BObjectId i \<and> D i = None \<and> ref_docs w1 = D(i \<mapsto> ref_ins f u i) \<and>
                  (True \<longrightarrow> (\<forall>j e. D j = Some e \<longrightarrow>
                     doc_get e ''task_id'' \<noteq> doc_get (ref_ins f u i) ''task_id'')))))"
  show "?goal r3 w1"
  proof (cases "next_fault (rw_faults w) = FailBefore")
    case True
    then have "r3 = Inl ref_failure" "w1 = drop_fault w"
      using upsert by (simp_all add: ref_update_one_def)
    then show ?thesis by (simp add: ref_failure_def)
  next
    case ok: False
    show ?thesis
    proof (cases "ref_pick f None w")
      case None
      then have ins: "ref_insert f u w = (r3, w1)"
        using upsert ok by (simp add: ref_update_one_def)
      have none: "no_match ref_match f (ref_docs w)"
        using None by (simp add: ref_pick_None)
      from ref_insert_cases [OF ins] none fresh_id_unused [of w] show ?thesis
        by (elim disjE conjE exE) (simp_all add: ref_failure_def, blast, intro disjI2 exI [of _ "fresh_id w"], simp)
    next
      case (Some x)
      then show ?thesis using upsert ok ref_pick_updates [of f None w "fst x" "snd x" u]
        by (cases x) (auto simp: ref_update_one_def ref_failure_def split: if_splits, blast)
    qed
  qed
qed (auto simp: ref_now_def ref_uuid_def ref_docs_def)

end
