(* ===== verification/Tracker.thy ===== *)
theory Tracker
  imports Expiry RefServer
begin

text \<open>
  The tracker's two maps agree, its operations act on it as on one map from ids to entries, and the
  interface \<open>deadline_queue\<close> that the worker's expiry pump relies on holds for them.
\<close>

section \<open>The invariant\<close>

definition indexed :: "expiry_tracker \<Rightarrow> int \<Rightarrow> object_id \<Rightarrow> bool" where
  "indexed t x i \<longleftrightarrow> (case fmlookup (deadlines t) x of None \<Rightarrow> False | Some ids \<Rightarrow> i |\<in>| ids)"

definition entry :: "expiry_tracker \<Rightarrow> object_id \<Rightarrow> expiring_task option" where
  "entry t i = fmlookup (tasks t) i"

definition expires_at :: "expiry_tracker \<Rightarrow> object_id \<Rightarrow> int option" where
  "expires_at t i = Option.bind (entry t i) et_expires_at_ms"

definition tracker_wf :: "expiry_tracker \<Rightarrow> bool" where
  "tracker_wf t \<longleftrightarrow>
     (\<forall>x i. indexed t x i \<longleftrightarrow> expires_at t i = Some x) \<and>
     (\<forall>i e. entry t i = Some e \<longrightarrow> (\<exists>x. et_expires_at_ms e = Some x \<and> in_i64 x)) \<and>
     (\<forall>x. fmlookup (deadlines t) x \<noteq> Some {||})"

lemma wf_indexed: "tracker_wf t \<Longrightarrow> indexed t x i \<longleftrightarrow> expires_at t i = Some x"
  by (simp add: tracker_wf_def)

lemma wf_expires: "tracker_wf t \<Longrightarrow> entry t i = Some e \<Longrightarrow> \<exists>x. et_expires_at_ms e = Some x"
  unfolding tracker_wf_def by blast

lemma wf_in_i64: "tracker_wf t \<Longrightarrow> expires_at t i = Some x \<Longrightarrow> in_i64 x"
  by (force simp: tracker_wf_def expires_at_def bind_eq_Some_conv)

lemma wf_expires_range: "tracker_wf t \<Longrightarrow> entry t i = Some e \<Longrightarrow> \<exists>x. et_expires_at_ms e = Some x \<and> in_i64 x"
  by (auto simp: tracker_wf_def)

lemma wf_nonempty: "tracker_wf t \<Longrightarrow> fmlookup (deadlines t) x \<noteq> Some {||}"
  by (simp add: tracker_wf_def)

lemma wf_deadlines_dom: "tracker_wf t \<Longrightarrow> x |\<in>| fmdom (deadlines t) \<longleftrightarrow> (\<exists>i. indexed t x i)"
  by (force simp: fmlookup_dom_iff indexed_def dest: wf_nonempty [of t x] split: option.splits)

lemma tracker_wf_new: "tracker_wf tracker_new"
  by (simp add: tracker_wf_def tracker_new_def indexed_def entry_def expires_at_def)

lemma tracker_wf_clear: "tracker_wf (clear_running t)"
  by (simp add: tracker_wf_def clear_running_def indexed_def entry_def expires_at_def)

lemma tracker_wf_pending: "tracker_wf (set_pending_may_exist b t) \<longleftrightarrow> tracker_wf t"
  by (simp add: tracker_wf_def set_pending_may_exist_def indexed_def entry_def expires_at_def)

lemma tracker_wf_mark: "tracker_wf (mark_pending t) \<longleftrightarrow> tracker_wf t"
  by (simp add: tracker_wf_def mark_pending_def indexed_def entry_def expires_at_def)

lemma entry_simps [tracker_simps]:
  "entry tracker_new i = None"
  "entry (clear_running t) i = None"
  "entry (set_pending_may_exist b t) i = entry t i"
  "entry (mark_pending t) i = entry t i"
  by (simp_all add: entry_def tracker_new_def clear_running_def set_pending_may_exist_def mark_pending_def)

section \<open>Removing and adding an entry\<close>

lemma entry_remove [tracker_simps]: "entry (tracker_remove i t) j = (if j = i then None else entry t j)"
  by (auto simp: entry_def tracker_remove_def Let_def split: option.splits)

lemma indexed_remove:
  assumes "tracker_wf t"
  shows "indexed (tracker_remove i t) x j \<longleftrightarrow> indexed t x j \<and> j \<noteq> i"
proof (cases "entry t i")
  case None
  then have "\<not> indexed t x i" using assms by (simp add: wf_indexed expires_at_def)
  then show ?thesis using None by (auto simp: tracker_remove_def entry_def)
next
  case (Some e)
  then obtain d where d: "et_expires_at_ms e = Some d" using assms wf_expires by blast
  have only: "indexed t y i \<longleftrightarrow> y = d" for y
    using assms Some d by (auto simp: wf_indexed expires_at_def)
  then have "indexed t d i" by simp
  then obtain S where S: "fmlookup (deadlines t) d = Some S" "i |\<in>| S"
    by (auto simp: indexed_def split: option.splits)
  have "tracker_remove i t =
      (if S |-| {|i|} = {||} then t\<lparr>tasks := fmdrop i (tasks t), deadlines := fmdrop d (deadlines t)\<rparr>
       else t\<lparr>tasks := fmdrop i (tasks t), deadlines := fmupd d (S |-| {|i|}) (deadlines t)\<rparr>)"
    using Some d S by (simp add: tracker_remove_def entry_def Let_def)
  then have "indexed (tracker_remove i t) x j \<longleftrightarrow>
      (if x = d then j |\<in>| S |-| {|i|} else indexed t x j)"
    by (cases "S |-| {|i|} = {||}") (auto simp: indexed_def)
  then show ?thesis using only [of x] S by (auto simp: indexed_def)
qed

lemma deadlines_remove_nonempty:
  "tracker_wf t \<Longrightarrow> fmlookup (deadlines (tracker_remove i t)) x \<noteq> Some {||}"
  using wf_nonempty [of t x]
  by (auto simp: tracker_remove_def Let_def split: option.splits)

lemma tracker_wf_remove: "tracker_wf t \<Longrightarrow> tracker_wf (tracker_remove i t)"
  unfolding tracker_wf_def [of "tracker_remove i t"]
  by (auto simp: indexed_remove wf_indexed expires_at_def entry_remove deadlines_remove_nonempty
      dest: wf_expires_range)

lemma indexed_add_deadline: "indexed (add_deadline x i t) y j \<longleftrightarrow> indexed t y j \<or> (y = x \<and> j = i)"
  by (auto simp: indexed_def add_deadline_def split: option.splits)

lemma tasks_add_deadline [simp]: "tasks (add_deadline x i t) = tasks t"
  by (simp add: add_deadline_def)

definition add_entry :: "object_id \<Rightarrow> expiring_task \<Rightarrow> int \<Rightarrow> expiry_tracker \<Rightarrow> expiry_tracker" where
  "add_entry i e x t = add_deadline x i (t\<lparr>tasks := fmupd i e (tasks t)\<rparr>)"

lemma entry_add_entry [tracker_simps]: "entry (add_entry i e x t) j = (if j = i then Some e else entry t j)"
  by (simp add: entry_def add_entry_def)

lemma indexed_add_entry: "indexed (add_entry i e x t) y j \<longleftrightarrow> indexed t y j \<or> (y = x \<and> j = i)"
  by (simp add: add_entry_def indexed_add_deadline) (simp add: indexed_def)

lemma tracker_wf_add_entry:
  assumes "tracker_wf t" and "entry t i = None" and "et_expires_at_ms e = Some x" and "in_i64 x"
  shows "tracker_wf (add_entry i e x t)"
proof -
  have "\<not> indexed t y i" for y
    using assms by (simp add: wf_indexed expires_at_def)
  moreover have "fmlookup (deadlines (add_entry i e x t)) y \<noteq> Some {||}" for y
    using wf_nonempty [OF assms(1)] by (auto simp: add_entry_def add_deadline_def)
  ultimately show ?thesis
    unfolding tracker_wf_def using assms
    by (auto simp: indexed_add_entry entry_add_entry expires_at_def wf_indexed dest: wf_expires_range)
qed

definition upsert_entry :: "expiry_tracker \<Rightarrow> object_id \<Rightarrow> string option \<Rightarrow> int \<Rightarrow> duration \<Rightarrow> expiring_task" where
  "upsert_entry t i task_id heartbeat_at timeout =
     \<lparr>et_task_id = (case task_id of Some s \<Rightarrow> Some s | None \<Rightarrow> Option.bind (entry t i) et_task_id),
      et_expires_at_ms = Some (saturating_add heartbeat_at (millis_or_max timeout))\<rparr>"

lemma tracker_upsert_eq:
  "tracker_upsert i task_id heartbeat_at timeout t =
     add_entry i (upsert_entry t i task_id heartbeat_at timeout)
       (saturating_add heartbeat_at (millis_or_max timeout)) (tracker_remove i t)"
  unfolding tracker_upsert_def add_entry_def upsert_entry_def entry_def Let_def by (rule refl)

lemma entry_upsert [tracker_simps]:
  "entry (tracker_upsert i task_id heartbeat_at timeout t) j =
     (if j = i then Some (upsert_entry t i task_id heartbeat_at timeout) else entry t j)"
  by (simp add: tracker_upsert_eq entry_add_entry entry_remove)

lemma tracker_wf_upsert: "tracker_wf t \<Longrightarrow> tracker_wf (tracker_upsert i task_id heartbeat_at timeout t)"
  unfolding tracker_upsert_eq
  by (intro tracker_wf_add_entry) (simp_all add: tracker_wf_remove entry_remove upsert_entry_def saturating_add_in_i64)

definition deferred :: "int \<Rightarrow> expiring_task \<Rightarrow> duration \<Rightarrow> expiring_task" where
  "deferred now_ms e delay = e\<lparr>et_expires_at_ms := Some (saturating_add now_ms (millis_or_max delay))\<rparr>"

lemma defer_task_eq:
  "defer_task now_ms i e delay t =
     add_entry i (deferred now_ms e delay) (saturating_add now_ms (millis_or_max delay)) t"
  by (simp add: defer_task_def add_entry_def deferred_def Let_def)

lemma entry_defer [tracker_simps]:
  "entry (defer_task now_ms i e delay t) j = (if j = i then Some (deferred now_ms e delay) else entry t j)"
  by (simp add: defer_task_eq entry_add_entry)

lemma tracker_wf_defer: "tracker_wf t \<Longrightarrow> entry t i = None \<Longrightarrow> tracker_wf (defer_task now_ms i e delay t)"
  unfolding defer_task_eq by (intro tracker_wf_add_entry) (simp_all add: deferred_def saturating_add_in_i64)

section \<open>Taking the due entries\<close>

lemma pop_ids_eq:
  "distinct ids \<Longrightarrow> pop_ids ids t =
     (map (\<lambda>i. (i, the (entry t i))) (filter (\<lambda>i. entry t i \<noteq> None) ids),
      t\<lparr>tasks := fmdrop_fset (fset_of_list ids) (tasks t)\<rparr>)"
proof (induction ids t rule: pop_ids.induct)
  case (1 t)
  then show ?case by simp
next
  case (2 i ids t)
  show ?case
  proof (cases "fmlookup (tasks t) i")
    case None
    then have "fmdrop_fset (finsert i (fset_of_list ids)) (tasks t) = fmdrop_fset (fset_of_list ids) (tasks t)"
      by (intro fmap_ext) simp
    then show ?thesis using None 2 by (simp add: entry_def)
  next
    case (Some e)
    let ?t = "t\<lparr>tasks := fmdrop i (tasks t)\<rparr>"
    have rest: "entry ?t j = entry t j" if "j \<in> set ids" for j
      using that "2.prems" by (auto simp: entry_def)
    have drop: "fmdrop_fset (fset_of_list ids) (fmdrop i (tasks t)) =
        fmdrop_fset (finsert i (fset_of_list ids)) (tasks t)"
      by (intro fmap_ext) simp
    have "filter (\<lambda>j. entry ?t j \<noteq> None) ids = filter (\<lambda>j. entry t j \<noteq> None) ids"
      using rest by (intro filter_cong) auto
    moreover have "map (\<lambda>j. (j, the (entry ?t j))) (filter (\<lambda>j. entry t j \<noteq> None) ids) =
        map (\<lambda>j. (j, the (entry t j))) (filter (\<lambda>j. entry t j \<noteq> None) ids)"
      using rest by (intro map_cong) auto
    ultimately show ?thesis
      using "2.IH"(2) [OF Some] "2.prems" Some drop by (simp add: entry_def)
  qed
qed

text \<open>Every entry whose deadline is one of \<open>ds\<close>, by ascending deadline and in the set's order within one.\<close>

definition bucket :: "(object_id fset \<Rightarrow> object_id list) \<Rightarrow> expiry_tracker \<Rightarrow> int \<Rightarrow> (object_id \<times> expiring_task) list" where
  "bucket iter t x =
     (case fmlookup (deadlines t) x of None \<Rightarrow> []
      | Some ids \<Rightarrow> map (\<lambda>i. (i, the (entry t i))) (iter ids))"

definition drop_bucket :: "expiry_tracker \<Rightarrow> int \<Rightarrow> expiry_tracker" where
  "drop_bucket t x =
     (case fmlookup (deadlines t) x of None \<Rightarrow> t
      | Some ids \<Rightarrow> t\<lparr>deadlines := fmdrop x (deadlines t), tasks := fmdrop_fset ids (tasks t)\<rparr>)"

lemma entry_drop_bucket:
  assumes "tracker_wf t"
  shows "entry (drop_bucket t x) i = (if expires_at t i = Some x then None else entry t i)"
  using wf_indexed [OF assms, of x i]
  by (auto simp: drop_bucket_def entry_def indexed_def split: option.splits)

lemma indexed_drop_bucket: "indexed (drop_bucket t x) y i \<longleftrightarrow> indexed t y i \<and> y \<noteq> x"
  by (auto simp: drop_bucket_def indexed_def split: option.splits)

lemma tracker_wf_drop_bucket:
  assumes "tracker_wf t"
  shows "tracker_wf (drop_bucket t x)"
proof -
  have "fmlookup (deadlines (drop_bucket t x)) y \<noteq> Some {||}" for y
    using wf_nonempty [OF assms, of y] by (auto simp: drop_bucket_def split: option.splits)
  then show ?thesis
    unfolding tracker_wf_def [of "drop_bucket t x"] using assms
    by (auto simp: indexed_drop_bucket entry_drop_bucket expires_at_def wf_indexed
        dest: wf_expires_range)
qed

context set_iteration
begin

lemma bucket_mem:
  assumes "tracker_wf t"
  shows "(i, e) \<in> set (bucket iter t x) \<longleftrightarrow> entry t i = Some e \<and> et_expires_at_ms e = Some x"
  using wf_indexed [OF assms, of x i]
  by (auto simp: bucket_def indexed_def expires_at_def bind_eq_Some_conv set_iter split: option.splits)

lemma bucket_distinct: "distinct (map fst (bucket iter t x))"
  by (simp add: bucket_def comp_def distinct_iter split: option.splits)

lemma pop_deadlines_Cons:
  assumes "tracker_wf t"
  shows "pop_deadlines iter (x # ds) t =
     (let (due, t1) = pop_deadlines iter ds (drop_bucket t x) in (bucket iter t x @ due, t1))"
proof (cases "fmlookup (deadlines t) x")
  case None
  then show ?thesis by (simp add: bucket_def drop_bucket_def case_prod_beta)
next
  case (Some ids)
  have all: "entry t i \<noteq> None" if "i \<in> set (iter ids)" for i
    using that Some wf_indexed [OF assms, of x i]
    by (auto simp: indexed_def expires_at_def set_iter bind_eq_Some_conv)
  have ids: "fset_of_list (iter ids) = ids"
    by (metis fset_inject fset_of_list.rep_eq set_iter)
  let ?t = "t\<lparr>deadlines := fmdrop x (deadlines t)\<rparr>"
  have "pop_ids (iter ids) ?t = (bucket iter t x, drop_bucket t x)"
    using all by (simp add: pop_ids_eq distinct_iter ids Some bucket_def drop_bucket_def entry_def)
  then show ?thesis using Some by (simp add: Let_def case_prod_beta)
qed

text \<open>What \<open>pop_deadlines\<close> takes and what it leaves, for distinct deadlines.\<close>

lemma pop_deadlines_spec:
  assumes "tracker_wf t" and "pop_deadlines iter ds t = (due, t1)" and "distinct ds"
  shows "tracker_wf t1 \<and> distinct (map fst due) \<and>
    (\<forall>i e. (i, e) \<in> set due \<longleftrightarrow> entry t i = Some e \<and> (\<exists>x\<in>set ds. et_expires_at_ms e = Some x)) \<and>
    (\<forall>i. entry t1 i = (if \<exists>x\<in>set ds. expires_at t i = Some x then None else entry t i)) \<and>
    pending_may_exist t1 = pending_may_exist t"
  using assms
proof (induction ds arbitrary: t due)
  case Nil
  then show ?case by simp
next
  case (Cons x ds)
  obtain due2 where rec: "pop_deadlines iter ds (drop_bucket t x) = (due2, t1)"
    and due: "due = bucket iter t x @ due2"
    using Cons.prems pop_deadlines_Cons [OF Cons.prems(1), of x ds]
    by (auto simp: case_prod_beta prod_eq_iff)
  have wf: "tracker_wf (drop_bucket t x)" by (rule tracker_wf_drop_bucket [OF Cons.prems(1)])
  from Cons.prems have ds: "x \<notin> set ds" "distinct ds" by auto
  note IH = Cons.IH [OF wf rec ds(2)]
  have entries: "entry (drop_bucket t x) i = (if expires_at t i = Some x then None else entry t i)" for i
    by (rule entry_drop_bucket [OF Cons.prems(1)])
  have mem: "(i, e) \<in> set due2 \<longleftrightarrow> entry t i = Some e \<and> (\<exists>y\<in>set ds. et_expires_at_ms e = Some y)" for i e
    using IH ds(1) by (auto simp: entries expires_at_def split: if_splits)
  have "distinct (map fst due)"
    using IH bucket_distinct [of t x] bucket_mem [OF Cons.prems(1)] mem ds(1)
    by (fastforce simp: due)
  moreover have "(i, e) \<in> set due \<longleftrightarrow> entry t i = Some e \<and> (\<exists>y\<in>set (x # ds). et_expires_at_ms e = Some y)" for i e
    by (auto simp: due mem bucket_mem [OF Cons.prems(1)])
  moreover have "entry t1 i = (if \<exists>y\<in>set (x # ds). expires_at t i = Some y then None else entry t i)" for i
    using IH by (auto simp: entries expires_at_def split: if_splits)
  moreover have "pending_may_exist (drop_bucket t x) = pending_may_exist t"
    by (simp add: drop_bucket_def split: option.splits)
  ultimately show ?case using IH by auto
qed

text \<open>\<open>pop_due\<close> takes exactly the entries whose deadline has passed.\<close>

lemma pop_due_spec:
  assumes "tracker_wf t" and "pop_due iter now t = (due, t1)"
  shows "tracker_wf t1" and "distinct (map fst due)"
    and "(i, e) \<in> set due \<longleftrightarrow> entry t i = Some e \<and> (\<exists>x\<le>now. et_expires_at_ms e = Some x)"
    and "entry t1 i = (if \<exists>x\<le>now. expires_at t i = Some x then None else entry t i)"
    and "pending_may_exist t1 = pending_may_exist t"
proof -
  let ?ds = "filter (\<lambda>k. k \<le> now) (sorted_list_of_fset (fmdom (deadlines t)))"
  have mem: "x \<in> set ?ds \<longleftrightarrow> x \<le> now \<and> (\<exists>j. expires_at t j = Some x)" for x
    using wf_deadlines_dom [OF assms(1), of x] by (auto simp: wf_indexed [OF assms(1)])
  have ds: "distinct ?ds" by (simp add: distinct_sorted_list_of_fset)
  note spec = pop_deadlines_spec [OF assms(1) assms(2) [unfolded pop_due_def] ds]
  show "tracker_wf t1" and "distinct (map fst due)" and "pending_may_exist t1 = pending_may_exist t"
    using spec by blast+
  have due: "(\<exists>x\<in>set ?ds. expires_at t j = Some x) \<longleftrightarrow> (\<exists>x\<le>now. expires_at t j = Some x)" for j
    using mem by blast
  have "entry t i = Some e \<Longrightarrow> et_expires_at_ms e = expires_at t i"
    by (simp add: expires_at_def)
  then show "(i, e) \<in> set due \<longleftrightarrow> entry t i = Some e \<and> (\<exists>x\<le>now. et_expires_at_ms e = Some x)"
    using spec due [of i] by metis
  show "entry t1 i = (if \<exists>x\<le>now. expires_at t i = Some x then None else entry t i)"
    using spec due [of i] by metis
qed

end

section \<open>The next wake-up\<close>

lemma first_deadline:
  assumes "tracker_wf t"
  shows "sorted_list_of_fset (fmdom (deadlines t)) = [] \<longleftrightarrow> (\<forall>i. expires_at t i = None)"
    and "sorted_list_of_fset (fmdom (deadlines t)) = x # xs \<Longrightarrow>
      (\<exists>i. expires_at t i = Some x) \<and> (\<forall>i y. expires_at t i = Some y \<longrightarrow> x \<le> y)"
proof -
  have dom: "y |\<in>| fmdom (deadlines t) \<longleftrightarrow> (\<exists>i. expires_at t i = Some y)" for y
    using wf_deadlines_dom [OF assms] wf_indexed [OF assms] by simp
  then show "sorted_list_of_fset (fmdom (deadlines t)) = [] \<longleftrightarrow> (\<forall>i. expires_at t i = None)"
  proof -
    have "fmdom (deadlines t) = {||} \<longleftrightarrow> (\<forall>y. y |\<notin>| fmdom (deadlines t))" by auto
    also have "\<dots> \<longleftrightarrow> (\<forall>y i. expires_at t i \<noteq> Some y)" using dom by simp
    also have "\<dots> \<longleftrightarrow> (\<forall>i. expires_at t i = None)"
      by (metis option.exhaust option.distinct(1))
    finally show ?thesis by (simp add: sorted_list_of_fset_Nil_iff)
  qed
  show "sorted_list_of_fset (fmdom (deadlines t)) = x # xs \<Longrightarrow>
      (\<exists>i. expires_at t i = Some x) \<and> (\<forall>i y. expires_at t i = Some y \<longrightarrow> x \<le> y)"
    using dom sorted_list_of_fset_hd_least [of "fmdom (deadlines t)" x xs] by blast
qed

lemma next_delay_None: "tracker_wf t \<Longrightarrow> next_delay now t = None \<longleftrightarrow> (\<forall>i. expires_at t i = None)"
  unfolding first_deadline(1) [symmetric]
  by (auto simp: next_delay_def split: list.splits)

lemma as_u64_diff: "in_i64 x \<Longrightarrow> in_i64 y \<Longrightarrow> y \<le> x \<Longrightarrow> int (as_u64 (x - y)) = x - y"
  by (subst as_u64_exact) (auto simp: in_i64_def i64_max_def i64_min_def)

lemma next_delay_Some:
  assumes wf: "tracker_wf t" and now: "in_i64 now" and delay: "next_delay now t = Some d"
  shows "(\<exists>i x. expires_at t i = Some x \<and> x \<le> now + int (as_millis d)) \<and>
    (\<forall>i x. expires_at t i = Some x \<longrightarrow> x \<le> now \<or> now + int (as_millis d) \<le> x)"
proof -
  obtain x xs where l: "sorted_list_of_fset (fmdom (deadlines t)) = x # xs"
    using delay by (auto simp: next_delay_def split: list.splits)
  from first_deadline(2) [OF wf l] obtain i where i: "expires_at t i = Some x"
    and least: "\<forall>j y. expires_at t j = Some y \<longrightarrow> x \<le> y" by blast
  show ?thesis
  proof (cases "x \<le> now")
    case True
    then have "d = 0" using delay l by (simp add: next_delay_def)
    then show ?thesis using i True by (fastforce simp: as_millis_def)
  next
    case False
    then have "int (as_millis d) = x - now"
      using delay l as_u64_diff [OF wf_in_i64 [OF wf i] now] by (auto simp: next_delay_def)
    then show ?thesis using i least by fastforce
  qed
qed

section \<open>A queue of deadlines\<close>

text \<open>
  What the worker's expiry pump relies on: an entry is in the queue until it is taken, taking at a
  time takes exactly the entries that are due, and a taken entry comes back only if it is put back.
\<close>

locale deadline_queue =
  fixes inv :: "'t \<Rightarrow> bool"
    and lookup :: "'t \<Rightarrow> 'k \<Rightarrow> 'e option"
    and is_due :: "int \<Rightarrow> 'e \<Rightarrow> bool"
    and pop :: "int \<Rightarrow> 't \<Rightarrow> ('k \<times> 'e) list \<times> 't"
    and put :: "int \<Rightarrow> 'k \<Rightarrow> 'e \<Rightarrow> 't \<Rightarrow> 't"
    and postponed :: "int \<Rightarrow> 'e \<Rightarrow> 'e"
  assumes pop_inv: "inv t \<Longrightarrow> pop now t = (due, t1) \<Longrightarrow> inv t1"
    and pop_distinct: "inv t \<Longrightarrow> pop now t = (due, t1) \<Longrightarrow> distinct (map fst due)"
    and pop_taken: "inv t \<Longrightarrow> pop now t = (due, t1) \<Longrightarrow>
      (k, e) \<in> set due \<longleftrightarrow> lookup t k = Some e \<and> is_due now e"
    and pop_left: "inv t \<Longrightarrow> pop now t = (due, t1) \<Longrightarrow>
      lookup t1 k = (case lookup t k of None \<Rightarrow> None | Some e \<Rightarrow> if is_due now e then None else Some e)"
    and put_inv: "inv t \<Longrightarrow> lookup t k = None \<Longrightarrow> inv (put now k e t)"
    and put_lookup: "lookup (put now k e t) j = (if j = k then Some (postponed now e) else lookup t j)"
begin

lemma pop_no_loss:
  assumes "inv t" and "pop now t = (due, t1)"
  shows "lookup t k = Some e \<longleftrightarrow> (k, e) \<in> set due \<or> lookup t1 k = Some e"
  using pop_taken [OF assms, of k e] pop_left [OF assms, of k] by (auto split: option.splits if_splits)

lemma popped_not_tracked:
  assumes "inv t" and "pop now t = (due, t1)" and "k \<in> fst ` set due"
  shows "lookup t1 k = None"
  using pop_taken [OF assms(1,2)] pop_left [OF assms(1,2), of k] assms(3) by force

text \<open>Putting back one taken entry tracks that one; every other taken entry stays forgotten.\<close>

lemma put_one_forgets_rest:
  assumes "inv t" and "pop now t = (due, t1)" and "(k, e) \<in> set due"
  shows "inv (put now2 k e t1)"
    and "\<And>j. j \<noteq> k \<Longrightarrow> j \<in> fst ` set due \<Longrightarrow> lookup (put now2 k e t1) j = None"
    and "\<And>j. j \<notin> fst ` set due \<Longrightarrow> lookup (put now2 k e t1) j = lookup t j"
proof -
  have k: "k \<in> fst ` set due" using assms(3) by force
  show "inv (put now2 k e t1)"
    using pop_inv [OF assms(1,2)] popped_not_tracked [OF assms(1,2) k] by (rule put_inv)
  show "lookup (put now2 k e t1) j = None" if "j \<noteq> k" "j \<in> fst ` set due" for j
    using that popped_not_tracked [OF assms(1,2)] by (simp add: put_lookup)
  show "lookup (put now2 k e t1) j = lookup t j" if "j \<notin> fst ` set due" for j
  proof -
    have "\<And>e. (j, e) \<notin> set due" using that by force
    then show ?thesis
      using that k pop_no_loss [OF assms(1,2), of j] by (auto simp: put_lookup) (metis option.exhaust)
  qed
qed

end

definition entry_due :: "int \<Rightarrow> expiring_task \<Rightarrow> bool" where
  "entry_due now e \<longleftrightarrow> (case et_expires_at_ms e of None \<Rightarrow> False | Some x \<Rightarrow> x \<le> now)"

definition defer_second :: "int \<Rightarrow> object_id \<Rightarrow> expiring_task \<Rightarrow> expiry_tracker \<Rightarrow> expiry_tracker" where
  "defer_second now i e t = defer_task now i e (from_secs 1) t"

context set_iteration
begin

lemma tracker_queue:
  "deadline_queue tracker_wf entry entry_due (pop_due iter) defer_second (\<lambda>now e. deferred now e (from_secs 1))"
proof
  fix t t1 :: expiry_tracker and now :: int and due k e
  assume wf: "tracker_wf t"
  show "entry t k = None \<Longrightarrow> tracker_wf (defer_second now k e t)"
    using wf by (simp add: defer_second_def tracker_wf_defer)
  assume pop: "pop_due iter now t = (due, t1)"
  show "tracker_wf t1" and "distinct (map fst due)"
    using pop_due_spec(1,2) [OF wf pop] by simp_all
  show "(k, e) \<in> set due \<longleftrightarrow> entry t k = Some e \<and> entry_due now e"
    using pop_due_spec(3) [OF wf pop, of k e] by (auto simp: entry_due_def split: option.splits)
  show "entry t1 k = (case entry t k of None \<Rightarrow> None | Some e \<Rightarrow> if entry_due now e then None else Some e)"
    using pop_due_spec(4) [OF wf pop, of k]
    by (auto simp: entry_due_def expires_at_def split: option.splits)
next
  show "entry (defer_second now k e t) j = (if j = k then Some (deferred now e (from_secs 1)) else entry t j)"
    for now k e t j
    by (simp add: defer_second_def entry_defer)
qed

end

interpretation expiry_queue: deadline_queue tracker_wf entry entry_due
  "pop_due sorted_list_of_fset" defer_second "\<lambda>now e. deferred now e (from_secs 1)"
  by (rule ordered.tracker_queue)

end
