(* ===== verification/TaskDoc.thy ===== *)
theory TaskDoc
  imports Mongo
begin

text \<open>
  The fields of a task document that decide who may do what with it, and what the filters and
  updates of the code mean for them on a well-typed document. These facts carry the proofs about
  claims, ownership writes and enqueueing.
\<close>

section \<open>Reading a task document\<close>

definition status_of :: "document \<Rightarrow> string option" where
  "status_of d = get_str d ''status''"

definition task_id_of :: "document \<Rightarrow> string option" where
  "task_id_of d = get_str d ''task_id''"

definition state_field :: "document \<Rightarrow> string \<Rightarrow> bson option" where
  "state_field d k = Option.bind (get_document d ''worker_state'') (\<lambda>e. doc_get e k)"

definition owner_of :: "document \<Rightarrow> string option" where
  "owner_of d = Option.bind (state_field d ''worker_id'') as_string"

definition token_of :: "document \<Rightarrow> string option" where
  "token_of d = Option.bind (state_field d ''claim_token'') as_string"

definition heartbeat_of :: "document \<Rightarrow> int option" where
  "heartbeat_of d = Option.bind (state_field d ''heartbeat_at'') as_datetime"

definition holder_timeout_of :: "document \<Rightarrow> int option" where
  "holder_timeout_of d = Option.bind (state_field d ''switch_timeout_ms'') as_int64"

definition switch_timeout_of :: "document \<Rightarrow> int option" where
  "switch_timeout_of d =
     (case get_i64 d ''worker_switch_timeout'' of
        Some n \<Rightarrow> Some n
      | None \<Rightarrow> holder_timeout_of d)"

definition doc_id :: "document \<Rightarrow> object_id option" where
  "doc_id d = get_object_id d ''_id''"

lemmas reader_defs = status_of_def task_id_of_def owner_of_def token_of_def heartbeat_of_def
  state_field_def doc_id_def

section \<open>The paths the code writes in filters and updates\<close>

lemma split_paths [query_simps]:
  "split_path ''_id'' = [''_id'']"
  "split_path ''status'' = [''status'']"
  "split_path ''task_id'' = [''task_id'']"
  "split_path ''task_input'' = [''task_input'']"
  "split_path ''task_output'' = [''task_output'']"
  "split_path ''error_reason'' = [''error_reason'']"
  "split_path ''created_at'' = [''created_at'']"
  "split_path ''updated_at'' = [''updated_at'']"
  "split_path ''trace_context'' = [''trace_context'']"
  "split_path ''worker_switch_timeout'' = [''worker_switch_timeout'']"
  "split_path ''worker_state'' = [''worker_state'']"
  "split_path ''worker_state.worker_id'' = [''worker_state'', ''worker_id'']"
  "split_path ''worker_state.claim_token'' = [''worker_state'', ''claim_token'']"
  "split_path ''worker_state.heartbeat_at'' = [''worker_state'', ''heartbeat_at'']"
  "split_path ''worker_state.finished_at'' = [''worker_state'', ''finished_at'']"
  "split_path ''worker_state.switch_timeout_ms'' = [''worker_state'', ''switch_timeout_ms'']"
  by simp_all

lemma get_in_one: "get_in d [k] = doc_get d k"
  by simp

lemma get_in_state: "get_in d [''worker_state'', k] = state_field d k"
  by (simp add: state_field_def get_document_def as_document.simps split: option.split bson.split)

lemma path_gets [query_simps]:
  "path_get d ''_id'' = doc_get d ''_id''"
  "path_get d ''status'' = doc_get d ''status''"
  "path_get d ''task_id'' = doc_get d ''task_id''"
  "path_get d ''task_input'' = doc_get d ''task_input''"
  "path_get d ''task_output'' = doc_get d ''task_output''"
  "path_get d ''error_reason'' = doc_get d ''error_reason''"
  "path_get d ''created_at'' = doc_get d ''created_at''"
  "path_get d ''updated_at'' = doc_get d ''updated_at''"
  "path_get d ''trace_context'' = doc_get d ''trace_context''"
  "path_get d ''worker_switch_timeout'' = doc_get d ''worker_switch_timeout''"
  "path_get d ''worker_state'' = doc_get d ''worker_state''"
  "path_get d ''worker_state.worker_id'' = state_field d ''worker_id''"
  "path_get d ''worker_state.claim_token'' = state_field d ''claim_token''"
  "path_get d ''worker_state.heartbeat_at'' = state_field d ''heartbeat_at''"
  "path_get d ''worker_state.finished_at'' = state_field d ''finished_at''"
  "path_get d ''worker_state.switch_timeout_ms'' = state_field d ''switch_timeout_ms''"
  by (simp_all only: path_get_def split_paths get_in_state get_in_one)

lemma is_fields [query_simps]:
  "is_field ''_id''" "is_field ''status''" "is_field ''task_id''"
  "is_field ''worker_switch_timeout''"
  "is_field ''worker_state.worker_id''" "is_field ''worker_state.claim_token''"
  "is_field ''worker_state.heartbeat_at''" "is_field ''worker_state.switch_timeout_ms''"
  by (simp_all add: is_field_def)

section \<open>Well-typed documents\<close>

lemma field_ok_str: "field_ok (\<lambda>x. as_string x \<noteq> None) d k \<Longrightarrow> doc_get d k = map_option BString (get_str d k)"
  by (auto simp: field_ok_def get_str_def split: option.splits)

lemma field_ok_i64: "field_ok (\<lambda>x. as_int64 x \<noteq> None) d k \<Longrightarrow> doc_get d k = map_option BInt64 (get_i64 d k)"
  by (auto simp: field_ok_def get_i64_def split: option.splits)

lemma field_ok_datetime:
  "field_ok (\<lambda>x. as_datetime x \<noteq> None) d k \<Longrightarrow> doc_get d k = map_option BDateTime (get_datetime d k)"
  by (auto simp: field_ok_def get_datetime_def split: option.splits)

lemma worker_state_typedD: "worker_state_typed v \<Longrightarrow> \<exists>e. v = BDocument e"
  by (cases v) (auto simp: worker_state_typed_def)

lemma field_ok_state: "field_ok worker_state_typed d k \<Longrightarrow> doc_get d k = map_option BDocument (get_document d k)"
  by (auto simp: field_ok_def get_document_def split: option.splits dest!: worker_state_typedD)

lemma typed_fields:
  assumes "doc_typed d"
  shows "doc_get d ''status'' = map_option BString (status_of d)"
    and "doc_get d ''task_id'' = map_option BString (task_id_of d)"
    and "doc_get d ''worker_switch_timeout'' = map_option BInt64 (get_i64 d ''worker_switch_timeout'')"
    and "doc_get d ''worker_state'' = map_option BDocument (get_document d ''worker_state'')"
  using assms
  by (simp_all only: doc_typed_def status_of_def task_id_of_def field_ok_str field_ok_i64 field_ok_state)

lemma state_of_typed:
  assumes "doc_typed d" and "get_document d ''worker_state'' = Some e"
  shows "worker_state_typed (BDocument e)"
  using assms by (auto simp: doc_typed_def field_ok_def get_document_Some)

lemma state_reads:
  "owner_of d = Option.bind (get_document d ''worker_state'') (\<lambda>e. get_str e ''worker_id'')"
  "token_of d = Option.bind (get_document d ''worker_state'') (\<lambda>e. get_str e ''claim_token'')"
  "heartbeat_of d = Option.bind (get_document d ''worker_state'') (\<lambda>e. get_datetime e ''heartbeat_at'')"
  "holder_timeout_of d = Option.bind (get_document d ''worker_state'') (\<lambda>e. get_i64 e ''switch_timeout_ms'')"
  by (cases "get_document d ''worker_state''",
      simp_all add: owner_of_def token_of_def heartbeat_of_def holder_timeout_of_def state_field_def accessor_defs)

lemma typed_state:
  assumes "doc_typed d"
  shows "state_field d ''worker_id'' = map_option BString (owner_of d)"
    and "state_field d ''claim_token'' = map_option BString (token_of d)"
    and "state_field d ''heartbeat_at'' = map_option BDateTime (heartbeat_of d)"
    and "state_field d ''switch_timeout_ms'' = map_option BInt64 (holder_timeout_of d)"
  unfolding state_reads using state_of_typed [OF assms]
  by (cases "get_document d ''worker_state''",
      simp_all add: state_field_def worker_state_typed_def field_ok_str field_ok_i64 field_ok_datetime)+

definition no_array :: "bson option \<Rightarrow> bool" where
  "no_array v \<longleftrightarrow> (case v of Some (BArray xs) \<Rightarrow> False | _ \<Rightarrow> True)"

lemma no_array_map [simp]:
  "no_array (map_option BString a)" "no_array (map_option BInt64 b)"
  "no_array (map_option BDateTime c)" "no_array (map_option BDocument e)"
  "no_array (map_option BObjectId i)"
  by (cases a; cases b; cases c; cases e; cases i; simp add: no_array_def)+

lemma plain_field: "split_path k = [k] \<Longrightarrow> no_array (doc_get d k) \<Longrightarrow> plain_path d k"
  by (auto simp: plain_path_def no_array_def split: option.splits bson.splits)

lemma plain_state_field:
  assumes "doc_typed d" and "split_path p = [''worker_state'', k]" and "no_array (state_field d k)"
  shows "plain_path d p"
  using assms typed_fields(4) [OF assms(1)]
  by (cases "get_document d ''worker_state''")
     (auto simp: plain_path_def no_array_def state_field_def split: option.splits bson.splits)

lemma typed_plain [query_simps]:
  assumes "doc_typed d"
  shows "plain_path d ''status''" and "plain_path d ''task_id''" and "plain_path d ''worker_switch_timeout''"
    and "plain_path d ''worker_state.worker_id''" and "plain_path d ''worker_state.claim_token''"
    and "plain_path d ''worker_state.heartbeat_at''" and "plain_path d ''worker_state.switch_timeout_ms''"
  by (rule plain_field plain_state_field [OF assms], rule split_paths,
      subst typed_fields [OF assms] typed_state [OF assms], rule no_array_map)+

lemma id_plain [query_simps]: "doc_get d ''_id'' = Some (BObjectId i) \<Longrightarrow> plain_path d ''_id''"
  by (rule plain_field) (simp_all add: split_paths no_array_def)

section \<open>What the filters select\<close>

context mongo_query
begin

lemma match_Nil [query_simps]: "qmatch [] d"
  by (subst match_all) simp

lemma match_Cons [query_simps]: "qmatch (e # e' # f) d \<longleftrightarrow> qmatch [e] d \<and> qmatch (e' # f) d"
  by (subst (1 3) match_all) simp

lemma match_fields [query_simps]:
  assumes "doc_typed d"
  shows "qmatch [(''status'', BString s)] d \<longleftrightarrow> status_of d = Some s"
    and "qmatch [(''task_id'', BString s)] d \<longleftrightarrow> task_id_of d = Some s"
    and "qmatch [(''worker_state.worker_id'', BString s)] d \<longleftrightarrow> owner_of d = Some s"
    and "qmatch [(''worker_state.claim_token'', BString s)] d \<longleftrightarrow> token_of d = Some s"
  by (auto simp: match_eq is_fields typed_plain [OF assms] path_gets typed_fields [OF assms]
      typed_state [OF assms])

lemma match_status_exists [query_simps]:
  "doc_typed d \<Longrightarrow> qmatch [(''status'', op_doc ''$exists'' (BBool False))] d \<longleftrightarrow> status_of d = None"
  by (simp add: match_exists is_fields typed_plain path_gets typed_fields)

lemma match_heartbeat_date [query_simps]:
  "doc_typed d \<Longrightarrow>
    qmatch [(''worker_state.heartbeat_at'', op_doc ''$type'' (BString ''date''))] d \<longleftrightarrow> heartbeat_of d \<noteq> None"
  by (auto simp: match_date is_fields typed_plain path_gets typed_state)

lemma match_status_in [query_simps]:
  assumes "doc_typed d"
  shows "qmatch [(''status'', op_doc ''$in'' (BArray (map BString xs)))] d \<longleftrightarrow> (\<exists>s\<in>set xs. status_of d = Some s)"
  by (subst match_in) (auto simp: is_fields list_all_iff match_fields [OF assms])

lemma match_task_nin [query_simps]:
  assumes "doc_typed d"
  shows "qmatch [(''task_id'', op_doc ''$nin'' (BArray (map BString xs)))] d \<longleftrightarrow>
    (\<forall>s\<in>set xs. task_id_of d \<noteq> Some s)"
  by (subst match_nin) (auto simp: is_fields list_all_iff match_fields [OF assms])

lemma match_id [query_simps]:
  assumes "doc_get d ''_id'' = Some (BObjectId j)"
  shows "qmatch [(''_id'', BObjectId i)] d \<longleftrightarrow> i = j"
  using assms by (auto simp: match_eq is_fields id_plain path_gets)

end

section \<open>Documents after an update\<close>

lemma field_ok_mapI:
  "doc_get d k = map_option BString a \<Longrightarrow> field_ok (\<lambda>x. as_string x \<noteq> None) d k"
  "doc_get d k = map_option BInt64 b \<Longrightarrow> field_ok (\<lambda>x. as_int64 x \<noteq> None) d k"
  "doc_get d k = map_option BDateTime b \<Longrightarrow> field_ok (\<lambda>x. as_datetime x \<noteq> None) d k"
  by (simp_all add: field_ok_def split: option.split)

lemma doc_typedI:
  assumes "doc_get d ''status'' = map_option BString st"
    and "doc_get d ''task_id'' = map_option BString ti"
    and "doc_get d ''worker_switch_timeout'' = map_option BInt64 sw"
    and "doc_get d ''worker_state'' = map_option BDocument ws"
    and "state_field d ''worker_id'' = map_option BString ow"
    and "state_field d ''claim_token'' = map_option BString tk"
    and "state_field d ''heartbeat_at'' = map_option BDateTime hb"
    and "state_field d ''switch_timeout_ms'' = map_option BInt64 st2"
  shows "doc_typed d"
proof -
  have "field_ok worker_state_typed d ''worker_state''"
  proof (cases ws)
    case None
    then show ?thesis using assms(4) by (simp add: field_ok_def)
  next
    case (Some e)
    then have "state_field d k = doc_get e k" for k
      using assms(4) by (simp add: state_field_def get_document_def)
    then show ?thesis
      using Some assms(4-8) by (simp add: field_ok_def [of worker_state_typed] worker_state_typed_def field_ok_mapI [simplified])
  qed
  then show ?thesis
    using assms(1-3) by (simp add: doc_typed_def field_ok_mapI [simplified])
qed

lemma settable_one: "split_path p = [k] \<Longrightarrow> settable d p"
  by (simp add: settable_def)

lemma settable_state: "doc_typed d \<Longrightarrow> split_path p = [''worker_state'', k] \<Longrightarrow> settable d p"
  by (cases "get_document d ''worker_state''") (simp_all add: settable_def typed_fields)

end
