(* ===== verification/Protocol.thy ===== *)
theory Protocol
  imports TaskDoc
begin

text \<open>
  The protocol that the writers of the collection follow, as a step relation on collections: what a
  claim, a heartbeat, a completion, a reset and an insertion may change. The theories \<open>Claim\<close>,
  \<open>Ownership\<close> and \<open>Enqueue\<close> prove that the code's database calls take exactly such steps; here are
  the invariants of any interleaving of them.
\<close>

section \<open>Steps\<close>

definition holds :: "string \<Rightarrow> string \<Rightarrow> document \<Rightarrow> bool" where
  "holds wid tok d \<longleftrightarrow> status_of d = Some ''running'' \<and> owner_of d = Some wid \<and> token_of d = Some tok"

definition keeps :: "document \<Rightarrow> document \<Rightarrow> bool" where
  "keeps d d' \<longleftrightarrow> doc_get d' ''_id'' = doc_get d ''_id'' \<and> task_id_of d' = task_id_of d \<and> doc_typed d'"

definition keeps_input :: "document \<Rightarrow> document \<Rightarrow> bool" where
  "keeps_input d d' \<longleftrightarrow> keeps d d' \<and> doc_get d' ''task_input'' = doc_get d ''task_input''"

definition fresh_pending :: "document \<Rightarrow> bool" where
  "fresh_pending d \<longleftrightarrow> status_of d = Some ''pending'' \<and> doc_get d ''worker_state'' = None"

datatype action =
    ClaimTask object_id string string
  | Beat object_id string string
  | Finish object_id string string string
  | ResetTask object_id
  | InsertTask object_id

primrec target :: "action \<Rightarrow> object_id" where
  "target (ClaimTask i wid tok) = i"
| "target (Beat i wid tok) = i"
| "target (Finish i wid tok st) = i"
| "target (ResetTask i) = i"
| "target (InsertTask i) = i"

inductive task_step :: "collection \<Rightarrow> action \<Rightarrow> collection \<Rightarrow> bool" where
  claim: "D i = Some d \<Longrightarrow> status_of d = Some ''pending'' \<or> status_of d = Some ''running'' \<Longrightarrow>
    holds wid tok d' \<Longrightarrow> heartbeat_of d' \<noteq> None \<Longrightarrow> keeps_input d d' \<Longrightarrow>
    task_step D (ClaimTask i wid tok) (D(i \<mapsto> d'))"
| beat: "D i = Some d \<Longrightarrow> holds wid tok d \<Longrightarrow> holds wid tok d' \<Longrightarrow> heartbeat_of d' \<noteq> None \<Longrightarrow>
    keeps_input d d' \<Longrightarrow> task_step D (Beat i wid tok) (D(i \<mapsto> d'))"
| finish: "D i = Some d \<Longrightarrow> holds wid tok d \<Longrightarrow> status_of d' = Some st \<Longrightarrow>
    st = ''succeeded'' \<or> st = ''failed'' \<Longrightarrow> keeps_input d d' \<Longrightarrow>
    task_step D (Finish i wid tok st) (D(i \<mapsto> d'))"
| reset: "D i = Some d \<Longrightarrow> status_of d \<noteq> Some ''pending'' \<Longrightarrow> status_of d \<noteq> Some ''running'' \<Longrightarrow>
    fresh_pending d' \<Longrightarrow> keeps d d' \<Longrightarrow> task_step D (ResetTask i) (D(i \<mapsto> d'))"
| insert: "D i = None \<Longrightarrow> fresh_pending d' \<Longrightarrow> doc_get d' ''_id'' = Some (BObjectId i) \<Longrightarrow> doc_typed d' \<Longrightarrow>
    task_step D (InsertTask i) (D(i \<mapsto> d'))"

inductive_cases task_stepE: "task_step D a D'"
inductive_cases claim_stepE: "task_step D (ClaimTask i wid tok) D'"
inductive_cases finish_stepE: "task_step D (Finish i wid tok st) D'"

section \<open>Runs\<close>

text \<open>A sequence of steps of any number of callers and workers, with the actions taken.\<close>

inductive task_run :: "collection \<Rightarrow> action list \<Rightarrow> collection \<Rightarrow> bool" where
  run_Nil: "task_run D [] D"
| run_Cons: "task_step D a D1 \<Longrightarrow> task_run D1 as D' \<Longrightarrow> task_run D (a # as) D'"

inductive_simps task_run_simps [simp]: "task_run D [] D'" "task_run D (a # as) D'"

lemma task_run_append: "task_run D (as @ bs) D' \<longleftrightarrow> (\<exists>D1. task_run D as D1 \<and> task_run D1 bs D')"
  by (induction as arbitrary: D) auto

text \<open>The tokens drawn by the claims of a run. Every claim draws a new UUID.\<close>

fun drawn :: "action \<Rightarrow> string list" where
  "drawn (ClaimTask i wid tok) = [tok]"
| "drawn _ = []"

definition claimed_tokens :: "action list \<Rightarrow> string list" where
  "claimed_tokens as = concat (map drawn as)"

lemma claimed_tokens_simps [simp]:
  "claimed_tokens [] = []"
  "claimed_tokens (a # as) = drawn a @ claimed_tokens as"
  "claimed_tokens (as @ bs) = claimed_tokens as @ claimed_tokens bs"
  by (simp_all add: claimed_tokens_def)

section \<open>What every step keeps\<close>

text \<open>Documents keep their ids and their field types, and are never deleted.\<close>

lemma coll_ok_upd:
  assumes "coll_ok D" and "D i = Some d" and "keeps d d'"
  shows "coll_ok (D(i \<mapsto> d'))"
  using assms by (simp add: coll_ok_def keeps_def)

lemma coll_ok_insert:
  "coll_ok D \<Longrightarrow> doc_get d' ''_id'' = Some (BObjectId i) \<Longrightarrow> doc_typed d' \<Longrightarrow> coll_ok (D(i \<mapsto> d'))"
  by (simp add: coll_ok_def)

lemma keeps_inputD: "keeps_input d d' \<Longrightarrow> keeps d d'"
  by (simp add: keeps_input_def)

lemma task_step_ok: "task_step D a D' \<Longrightarrow> coll_ok D \<Longrightarrow> coll_ok D'"
  by (erule task_stepE) (auto intro: coll_ok_upd coll_ok_insert dest: keeps_inputD)

lemma task_run_ok: "task_run D as D' \<Longrightarrow> coll_ok D \<Longrightarrow> coll_ok D'"
  by (induction rule: task_run.induct) (auto dest: task_step_ok)

text \<open>The document \<open>i\<close> is held under the token.\<close>

definition held :: "object_id \<Rightarrow> string \<Rightarrow> string \<Rightarrow> collection \<Rightarrow> bool" where
  "held i wid tok D \<longleftrightarrow> (\<exists>d. D i = Some d \<and> holds wid tok d)"

text \<open>What a step does to the holders: it changes one document, by its action.\<close>

lemma held_step:
  assumes "task_step D a D'"
  shows "held i wid tok D' \<longleftrightarrow>
    (case a of
       ClaimTask j wid' tok' \<Rightarrow> if j = i then wid' = wid \<and> tok' = tok else held i wid tok D
     | Finish j wid' tok' st \<Rightarrow> j \<noteq> i \<and> held i wid tok D
     | _ \<Rightarrow> held i wid tok D)"
  using assms
proof cases
  case (claim j d wid' tok' d')
  then show ?thesis by (auto simp: held_def holds_def)
next
  case (beat j d wid' tok' d')
  then show ?thesis by (auto simp: held_def holds_def)
next
  case (finish j d wid' tok' d' st)
  then show ?thesis by (auto simp: held_def holds_def)
next
  case (reset j d d')
  then show ?thesis by (auto simp: held_def holds_def fresh_pending_def)
next
  case (insert j d')
  then show ?thesis by (auto simp: held_def holds_def fresh_pending_def)
qed

text \<open>Which actions a step can take while a token is held.\<close>

lemma step_needs:
  "task_step D (Beat i wid tok) D' \<Longrightarrow> held i wid tok D"
  "task_step D (Finish i wid tok st) D' \<Longrightarrow> held i wid tok D"
  by (auto elim: task_stepE simp: held_def)

lemma held_running: "held i wid tok D \<Longrightarrow> \<not> task_step D (ResetTask i) D' \<and> \<not> task_step D (InsertTask i) D'"
  by (auto elim: task_stepE simp: held_def holds_def)

lemma held_unique: "held i wid tok D \<Longrightarrow> held i wid' tok' D \<Longrightarrow> wid' = wid \<and> tok' = tok"
  by (auto simp: held_def holds_def)

text \<open>Only a claim that draws the token can make it held.\<close>

lemma held_step_back:
  "task_step D a D' \<Longrightarrow> tok \<notin> set (drawn a) \<Longrightarrow> held i wid tok D' \<Longrightarrow> held i wid tok D"
  by (auto simp: held_step split: action.splits if_splits)

lemma held_run_back:
  "task_run D as D' \<Longrightarrow> tok \<notin> set (claimed_tokens as) \<Longrightarrow> held i wid tok D' \<Longrightarrow> held i wid tok D"
  by (induction rule: task_run.induct) (auto dest: held_step_back)

text \<open>A step on a document that stays held under the token only renews the lease.\<close>

lemma held_through_step:
  assumes "task_step D a D'" and "held i wid tok D" and "held i wid tok D'"
    and "tok \<notin> set (drawn a)" and "target a = i"
  shows "a = Beat i wid tok"
proof (cases a)
  case (Beat j wid' tok')
  then show ?thesis
    using assms(1,5) held_unique [OF assms(2) step_needs(1)] by auto
next
  case (ResetTask j)
  then show ?thesis using assms(1,5) held_running [OF assms(2)] by simp
next
  case (InsertTask j)
  then show ?thesis using assms(1,5) held_running [OF assms(2)] by simp
qed (use assms(3-5) held_step [OF assms(1)] in auto)

lemma held_throughout:
  assumes "task_run D as D'" and "held i wid tok D" and "held i wid tok D'"
    and "tok \<notin> set (claimed_tokens as)" and "a \<in> set as" and "target a = i"
  shows "a = Beat i wid tok"
  using assms
proof (induction rule: task_run.induct)
  case (run_Nil D)
  then show ?case by simp
next
  case (run_Cons D b D1 as D')
  have b: "tok \<notin> set (drawn b)" and as: "tok \<notin> set (claimed_tokens as)" using run_Cons.prems by auto
  have mid: "held i wid tok D1"
    by (rule held_run_back [OF run_Cons.hyps(2) as run_Cons.prems(2)])
  then have "b = Beat i wid tok" if "target b = i"
    using held_through_step run_Cons.hyps(1) run_Cons.prems(1) b that by blast
  then show ?case
    using run_Cons.IH [OF mid run_Cons.prems(2) as _ run_Cons.prems(5)] run_Cons.prems(4,5) by auto
qed

lemma lost_not_again:
  assumes "task_run D as D'" and "tok \<notin> set (claimed_tokens as)" and "\<not> held i wid tok D"
  shows "Beat i wid tok \<notin> set as \<and> Finish i wid tok st \<notin> set as"
  using assms
proof (induction rule: task_run.induct)
  case (run_Nil D)
  then show ?case by simp
next
  case (run_Cons D a D1 as D')
  then have "\<not> held i wid tok D1" using held_step_back by auto
  then show ?case using run_Cons step_needs by auto
qed

section \<open>Safety of every run\<close>

text \<open>
  Fencing. A worker whose claim no longer holds a task, whether another claim took it, it
  finished or it was reset, never holds it again under that token, whatever callers and workers do
  afterwards: none of its later heartbeats, completions or failure reports can match. The tokens
  that later claims draw are assumed to differ from this one.
\<close>

lemma lost_claim_is_fenced:
  assumes "task_run D as D'" and "tok \<notin> set (claimed_tokens as)" and "\<not> held i wid tok D"
  shows "\<not> held i wid tok D' \<and> Beat i wid tok \<notin> set as \<and> Finish i wid tok st \<notin> set as"
  using assms held_run_back lost_not_again by blast

text \<open>
  Exclusive completion. When a claim's result is written, then between the claim and that write
  nobody else changed the task: every other step on it was a heartbeat of this same claim. So the
  recorded output comes from an execution that held the lease without interruption.
\<close>

lemma completion_was_exclusive:
  assumes "task_run D (ClaimTask i wid tok # as @ [Finish i wid tok st]) D'"
    and "tok \<notin> set (claimed_tokens as)"
  shows "\<forall>a\<in>set as. target a = i \<longrightarrow> a = Beat i wid tok"
proof -
  obtain D1 D2 where steps: "task_step D (ClaimTask i wid tok) D1" "task_run D1 as D2"
    "task_step D2 (Finish i wid tok st) D'"
    using assms(1) by (auto simp: task_run_append)
  have "held i wid tok D1" and "held i wid tok D2"
    using held_step [OF steps(1)] step_needs(2) [OF steps(3)] by simp_all
  then show ?thesis using held_throughout [OF steps(2)] assms(2) by blast
qed

text \<open>
  One outcome per claim. In any run whose claims draw different tokens, a claim's outcome is
  written at most once, and never again after it is written or after another claim takes the task.
\<close>

lemma outcome_written_once:
  assumes "task_run D (as @ [Finish i wid tok st] @ bs) D'" and "tok \<notin> set (claimed_tokens bs)"
  shows "\<forall>st'. Finish i wid tok st' \<notin> set bs \<and> Beat i wid tok \<notin> set bs"
proof -
  obtain D1 D2 where steps: "task_step D1 (Finish i wid tok st) D2" "task_run D2 bs D'"
    using assms(1) by (auto simp: task_run_append)
  have "\<not> held i wid tok D2" using held_step [OF steps(1)] by simp
  then show ?thesis using lost_not_again [OF steps(2) assms(2)] by blast
qed

section \<open>The status machine\<close>

text \<open>The arrows of the task status; \<open>None\<close> is a document without a status.\<close>

definition status_arrow :: "string option \<Rightarrow> string option \<Rightarrow> bool" where
  "status_arrow s s' \<longleftrightarrow>
     s' = Some ''pending'' \<and> s \<noteq> Some ''pending'' \<and> s \<noteq> Some ''running'' \<or>
     s' = Some ''running'' \<and> (s = Some ''pending'' \<or> s = Some ''running'') \<or>
     (s' = Some ''succeeded'' \<or> s' = Some ''failed'') \<and> s = Some ''running''"

definition same_task :: "document \<Rightarrow> document \<Rightarrow> bool" where
  "same_task d d' \<longleftrightarrow> doc_get d' ''_id'' = doc_get d ''_id'' \<and> task_id_of d' = task_id_of d"

lemma step_on_document:
  assumes "task_step D a D'" and "D i = Some d"
  shows "\<exists>d'. D' i = Some d' \<and> same_task d d' \<and> (target a \<noteq> i \<longrightarrow> d' = d) \<and>
    (target a = i \<longrightarrow> status_arrow (status_of d) (status_of d')) \<and>
    (a \<noteq> ResetTask i \<longrightarrow> doc_get d' ''task_input'' = doc_get d ''task_input'') \<and>
    (a \<noteq> ResetTask i \<longrightarrow> status_of d = Some ''succeeded'' \<or> status_of d = Some ''failed'' \<longrightarrow> d' = d)"
  using assms
proof cases
  case (claim j d1 wid tok d')
  then show ?thesis
    using assms(2) by (cases "j = i") (simp_all add: status_arrow_def same_task_def keeps_input_def keeps_def holds_def, elim disjE, simp_all)
next
  case (beat j d1 wid tok d')
  then show ?thesis
    using assms(2) by (cases "j = i") (simp_all add: status_arrow_def same_task_def keeps_input_def keeps_def holds_def)
next
  case (finish j d1 wid tok d' st)
  then show ?thesis
    using assms(2) by (cases "j = i") (simp_all add: status_arrow_def same_task_def keeps_input_def keeps_def holds_def)
next
  case (reset j d1 d')
  then show ?thesis
    using assms(2) by (cases "j = i") (simp_all add: status_arrow_def same_task_def keeps_def fresh_pending_def)
next
  case (insert j d')
  then show ?thesis
    using assms(2) by (cases "j = i") (simp_all add: same_task_def)
qed

text \<open>
  Over any run a task document stays in the collection with its id and its idempotency key; a
  finished document, its output or its error included, stays exactly as it is until a caller resets
  it; and a task's input changes only by a reset.
\<close>

lemma task_document_stable:
  assumes "task_run D as D'" and "D i = Some d"
  shows "\<exists>d'. D' i = Some d' \<and> same_task d d' \<and>
    (ResetTask i \<notin> set as \<longrightarrow> doc_get d' ''task_input'' = doc_get d ''task_input'' \<and>
      (status_of d = Some ''succeeded'' \<or> status_of d = Some ''failed'' \<longrightarrow> d' = d))"
  using assms
proof (induction arbitrary: d rule: task_run.induct)
  case (run_Nil D)
  then show ?case by (simp add: same_task_def)
next
  case (run_Cons D a D1 as D')
  obtain d1 where d1: "D1 i = Some d1" "same_task d d1"
    "a \<noteq> ResetTask i \<longrightarrow> doc_get d1 ''task_input'' = doc_get d ''task_input''"
    "a \<noteq> ResetTask i \<longrightarrow> status_of d = Some ''succeeded'' \<or> status_of d = Some ''failed'' \<longrightarrow> d1 = d"
    using step_on_document [OF run_Cons.hyps(1) run_Cons.prems] by blast
  obtain d' where "D' i = Some d'" "same_task d1 d'"
    "ResetTask i \<notin> set as \<longrightarrow> doc_get d' ''task_input'' = doc_get d1 ''task_input'' \<and>
      (status_of d1 = Some ''succeeded'' \<or> status_of d1 = Some ''failed'' \<longrightarrow> d' = d1)"
    using run_Cons.IH [OF d1(1)] by blast
  then show ?case using d1 by (auto simp: same_task_def)
qed

end
