(* ===== verification/Scenario.thy ===== *)
theory Scenario
  imports Protocol RefServer
begin

text \<open>
  Concrete task documents and collections on the reference server, and the simplification facts that
  evaluate the code's operations on them. The witnesses of the properties rest on these.
\<close>

section \<open>Evaluation on the reference server\<close>

lemma ref_entry_expr: "ref_entry ''$expr'' c d \<longleftrightarrow> ref_agg c d = Some (BBool True)"
  by (simp add: ref_entry.simps [of "''$expr''"])

lemma ref_entry_or: "ref_entry ''$or'' (BArray (map BDocument fs)) d \<longleftrightarrow> (\<exists>f\<in>set fs. ref_match f d)"
  by (simp add: ref_entry.simps [of "''$or''"] ref_match_def)

lemma ref_entry_and: "ref_entry ''$and'' (BArray (map BDocument fs)) d \<longleftrightarrow> (\<forall>f\<in>set fs. ref_match f d)"
  by (simp add: ref_entry.simps [of "''$and''"] ref_match_def)

lemma ref_agg_eval:
  "ref_agg (BString (CHR ''$'' # p)) d = path_get d p"
  "ref_agg (BInt64 n) d = Some (BInt64 n)"
  "ref_agg (BDateTime t) d = Some (BDateTime t)"
  "ref_agg (op_doc op (BArray [x, y])) d = ref_binary op (ref_agg x d) (ref_agg y d)"
  by (simp_all add: ref_agg.simps)

lemma fresh_id_eval: "fresh_id w = ObjectId (Suc (sum_list (map (oid_number \<circ> fst) (rw_docs w))))"
  by (rule fresh_id_def)

lemmas ref_eval = ref_server_sel ref_now_def ref_uuid_def ref_find_one_def ref_find_def
  ref_find_one_and_update_def ref_update_one_def ref_insert_def ref_pick_def ref_candidates_def
  AList.clearjunk.simps AList.delete_eq filter.simps ref_match_def ref_entry_field ref_cond_def
  ref_operator_def ref_entry_expr ref_agg_eval ref_upd_def ref_ins_def update_fields_def set_fields.simps
  unset_fields.simps set_in.simps unset_in.simps fresh_id_eval ref_failure_def
  drop_fault_def put_doc_def next_fault.simps path_get_def ref_world_of_def ref_docs_def
  query_simps bson_simps accessor_defs

section \<open>Sample documents\<close>

definition demo_task :: "string \<Rightarrow> string \<Rightarrow> document \<Rightarrow> nat \<Rightarrow> document" where
  "demo_task st tid extra n =
     [(''_id'', BObjectId (ObjectId n)), (''task_id'', BString tid), (''task_input'', BInt32 7),
      (''status'', BString st)] @ extra"

definition demo_state :: "string \<Rightarrow> string \<Rightarrow> int \<Rightarrow> document" where
  "demo_state wid tok hb = [(''worker_state'', BDocument
     [(''worker_id'', BString wid), (''claim_token'', BString tok), (''heartbeat_at'', BDateTime hb),
      (''switch_timeout_ms'', BInt64 10000)])]"

definition demo_docs :: "(object_id \<times> document) list" where
  "demo_docs =
     [(ObjectId 1, demo_task ''pending'' ''a'' [] 1),
      (ObjectId 2, demo_task ''running'' ''b'' (demo_state ''w2'' ''tok-b'' 1000) 2)]"

text \<open>A pending task \<open>a\<close> and a task \<open>b\<close> that the worker \<open>w2\<close> holds since time 1000, at time \<open>t\<close>.\<close>

definition demo_world :: "int \<Rightarrow> ref_world" where
  "demo_world t = ref_world_of demo_docs t"

lemmas demo_defs = demo_task_def demo_state_def demo_docs_def demo_world_def

lemma demo_ok: "coll_ok (ref_docs (demo_world t))"
  by (simp add: coll_ok_def ref_docs_def demo_world_def ref_world_of_def demo_docs_def demo_task_def
      doc_get_def doc_typed_def field_ok_def demo_state_def worker_state_typed_def)

end
