(* ===== verification/Config.thy ===== *)
theory Config
  imports Bson
begin

text \<open>
  \<open>src/error.rs\<close> and \<open>src/config.rs\<close>: the errors of the public interface with their messages, and
  the configuration that callers and workers share, with its builder.
\<close>

section \<open>Errors\<close>

datatype request_error =
    Duplicate string
  | Timeout
  | WorkerGone
  | WorkerTimeout
  | PayloadFormat string
  | TaskFailed string
  | Database string

text \<open>The \<open>Display\<close> instance that \<open>thiserror\<close> derives from the \<open>#[error]\<close> attributes.\<close>

fun err_display :: "request_error \<Rightarrow> string" where
  "err_display (Duplicate task_id) = ''duplicate idempotency key for task '' @ task_id"
| "err_display Timeout = ''caller timed out waiting for response''"
| "err_display WorkerGone = ''worker crashed or disconnected before responding''"
| "err_display WorkerTimeout = ''no worker picked up the task before timeout''"
| "err_display (PayloadFormat field) = ''payload format mismatch in '' @ field"
| "err_display (TaskFailed reason) = ''task failed: '' @ reason"
| "err_display (Database msg) = ''database error: '' @ msg"

section \<open>Configuration\<close>

record config =
  cfg_mongo_uri :: string
  cfg_database :: string
  cfg_collection :: string
  cfg_request_timeout :: "duration option"
  cfg_worker_switch_timeout :: duration
  cfg_allow_reset_finished_tasks :: bool
  cfg_worker_id :: "string option"
  cfg_enable_metrics :: bool
  cfg_claim_sort :: "document option"
  cfg_stale_recovery_sort :: "document option"

record config_builder =
  b_mongo_uri :: "string option"
  b_database :: "string option"
  b_collection :: "string option"
  b_request_timeout :: "duration option option"
  b_worker_switch_timeout :: "duration option"
  b_reset_finished_to_pending :: bool
  b_worker_id :: "string option"
  b_enable_metrics :: bool
  b_claim_sort :: "document option"
  b_stale_recovery_sort :: "document option"

definition builder :: config_builder where
  "builder = \<lparr>b_mongo_uri = None, b_database = None, b_collection = None, b_request_timeout = None,
     b_worker_switch_timeout = None, b_reset_finished_to_pending = False, b_worker_id = None,
     b_enable_metrics = False, b_claim_sort = None, b_stale_recovery_sort = None\<rparr>"

definition set_mongo_uri :: "string \<Rightarrow> config_builder \<Rightarrow> config_builder" where
  "set_mongo_uri uri b = b\<lparr>b_mongo_uri := Some uri\<rparr>"

definition set_database :: "string \<Rightarrow> config_builder \<Rightarrow> config_builder" where
  "set_database db b = b\<lparr>b_database := Some db\<rparr>"

definition set_collection :: "string \<Rightarrow> config_builder \<Rightarrow> config_builder" where
  "set_collection name b = b\<lparr>b_collection := Some name\<rparr>"

definition set_request_timeout :: "duration option \<Rightarrow> config_builder \<Rightarrow> config_builder" where
  "set_request_timeout timeout b = b\<lparr>b_request_timeout := Some timeout\<rparr>"

definition set_worker_switch_timeout :: "duration \<Rightarrow> config_builder \<Rightarrow> config_builder" where
  "set_worker_switch_timeout timeout b = b\<lparr>b_worker_switch_timeout := Some timeout\<rparr>"

definition set_reset_finished_tasks :: "bool \<Rightarrow> config_builder \<Rightarrow> config_builder" where
  "set_reset_finished_tasks enable b = b\<lparr>b_reset_finished_to_pending := enable\<rparr>"

definition set_worker_id :: "string \<Rightarrow> config_builder \<Rightarrow> config_builder" where
  "set_worker_id i b = b\<lparr>b_worker_id := Some i\<rparr>"

definition set_enable_metrics :: "bool \<Rightarrow> config_builder \<Rightarrow> config_builder" where
  "set_enable_metrics enable b = b\<lparr>b_enable_metrics := enable\<rparr>"

definition set_claim_sort :: "document option \<Rightarrow> config_builder \<Rightarrow> config_builder" where
  "set_claim_sort so b = b\<lparr>b_claim_sort := so\<rparr>"

definition set_stale_recovery_sort :: "document option \<Rightarrow> config_builder \<Rightarrow> config_builder" where
  "set_stale_recovery_sort so b = b\<lparr>b_stale_recovery_sort := so\<rparr>"

text \<open>\<open>build\<close> panics, here \<open>None\<close>, when no \<open>mongo_uri\<close> was given.\<close>

definition finalize :: "config_builder \<Rightarrow> config option" where
  "finalize b =
     (case b_mongo_uri b of
        None \<Rightarrow> None
      | Some uri \<Rightarrow>
          Some \<lparr>cfg_mongo_uri = uri,
            cfg_database = (case b_database b of None \<Rightarrow> ''getitdone'' | Some db \<Rightarrow> db),
            cfg_collection = (case b_collection b of None \<Rightarrow> ''tasks'' | Some name \<Rightarrow> name),
            cfg_request_timeout = (case b_request_timeout b of None \<Rightarrow> None | Some t \<Rightarrow> t),
            cfg_worker_switch_timeout =
              (case b_worker_switch_timeout b of None \<Rightarrow> from_secs 10 | Some t \<Rightarrow> t),
            cfg_allow_reset_finished_tasks = b_reset_finished_to_pending b,
            cfg_worker_id = b_worker_id b,
            cfg_enable_metrics = b_enable_metrics b,
            cfg_claim_sort = b_claim_sort b,
            cfg_stale_recovery_sort = b_stale_recovery_sort b\<rparr>)"

definition build :: "config_builder \<Rightarrow> config option" where
  "build b = finalize b"

text \<open>A call on the builder, and a chain of calls in the order they are written.\<close>

datatype builder_call =
    MongoUri string
  | DatabaseName string
  | CollectionName string
  | RequestTimeout "duration option"
  | SwitchTimeout duration
  | ResetFinished bool
  | WorkerId string
  | EnableMetrics bool
  | ClaimSort "document option"
  | StaleSort "document option"

fun builder_step :: "builder_call \<Rightarrow> config_builder \<Rightarrow> config_builder" where
  "builder_step (MongoUri x) = set_mongo_uri x"
| "builder_step (DatabaseName x) = set_database x"
| "builder_step (CollectionName x) = set_collection x"
| "builder_step (RequestTimeout x) = set_request_timeout x"
| "builder_step (SwitchTimeout x) = set_worker_switch_timeout x"
| "builder_step (ResetFinished x) = set_reset_finished_tasks x"
| "builder_step (WorkerId x) = set_worker_id x"
| "builder_step (EnableMetrics x) = set_enable_metrics x"
| "builder_step (ClaimSort x) = set_claim_sort x"
| "builder_step (StaleSort x) = set_stale_recovery_sort x"

definition run_builder :: "builder_call list \<Rightarrow> config_builder" where
  "run_builder calls = fold builder_step calls builder"

text \<open>The argument of the last call that \<open>f\<close> recognises.\<close>

fun last_call :: "(builder_call \<Rightarrow> 'a option) \<Rightarrow> builder_call list \<Rightarrow> 'a option" where
  "last_call f [] = None"
| "last_call f (c # cs) = (case last_call f cs of None \<Rightarrow> f c | Some x \<Rightarrow> Some x)"

fun uri_arg :: "builder_call \<Rightarrow> string option" where
  "uri_arg (MongoUri x) = Some x" | "uri_arg _ = None"
fun database_arg :: "builder_call \<Rightarrow> string option" where
  "database_arg (DatabaseName x) = Some x" | "database_arg _ = None"
fun collection_arg :: "builder_call \<Rightarrow> string option" where
  "collection_arg (CollectionName x) = Some x" | "collection_arg _ = None"
fun timeout_arg :: "builder_call \<Rightarrow> duration option option" where
  "timeout_arg (RequestTimeout x) = Some x" | "timeout_arg _ = None"
fun switch_arg :: "builder_call \<Rightarrow> duration option" where
  "switch_arg (SwitchTimeout x) = Some x" | "switch_arg _ = None"
fun reset_arg :: "builder_call \<Rightarrow> bool option" where
  "reset_arg (ResetFinished x) = Some x" | "reset_arg _ = None"
fun worker_arg :: "builder_call \<Rightarrow> string option" where
  "worker_arg (WorkerId x) = Some x" | "worker_arg _ = None"
fun metrics_arg :: "builder_call \<Rightarrow> bool option" where
  "metrics_arg (EnableMetrics x) = Some x" | "metrics_arg _ = None"
fun claim_arg :: "builder_call \<Rightarrow> document option option" where
  "claim_arg (ClaimSort x) = Some x" | "claim_arg _ = None"
fun stale_arg :: "builder_call \<Rightarrow> document option option" where
  "stale_arg (StaleSort x) = Some x" | "stale_arg _ = None"

definition or_default :: "'a \<Rightarrow> 'a option \<Rightarrow> 'a" where
  "or_default x o1 = (case o1 of None \<Rightarrow> x | Some y \<Rightarrow> y)"

lemmas setter_defs = set_mongo_uri_def set_database_def set_collection_def set_request_timeout_def
  set_worker_switch_timeout_def set_reset_finished_tasks_def set_worker_id_def set_enable_metrics_def
  set_claim_sort_def set_stale_recovery_sort_def

lemma last_call_simps [simp]:
  "(case x of None \<Rightarrow> None | Some z \<Rightarrow> Some z) = x"
  "(case (case x of None \<Rightarrow> Some v | Some z \<Rightarrow> Some z) of None \<Rightarrow> d | Some z \<Rightarrow> Some z) =
    (case x of None \<Rightarrow> Some v | Some z \<Rightarrow> Some z)"
  "or_default e (case y of None \<Rightarrow> Some w | Some z \<Rightarrow> Some z) = or_default w y"
  "or_default e None = e"
  by (simp_all add: or_default_def split: option.split)

lemma fold_builder:
  "fold builder_step calls b =
    \<lparr>b_mongo_uri = (case last_call uri_arg calls of None \<Rightarrow> b_mongo_uri b | x \<Rightarrow> x),
     b_database = (case last_call database_arg calls of None \<Rightarrow> b_database b | x \<Rightarrow> x),
     b_collection = (case last_call collection_arg calls of None \<Rightarrow> b_collection b | x \<Rightarrow> x),
     b_request_timeout = (case last_call timeout_arg calls of None \<Rightarrow> b_request_timeout b | x \<Rightarrow> x),
     b_worker_switch_timeout =
       (case last_call switch_arg calls of None \<Rightarrow> b_worker_switch_timeout b | x \<Rightarrow> x),
     b_reset_finished_to_pending = or_default (b_reset_finished_to_pending b) (last_call reset_arg calls),
     b_worker_id = (case last_call worker_arg calls of None \<Rightarrow> b_worker_id b | x \<Rightarrow> x),
     b_enable_metrics = or_default (b_enable_metrics b) (last_call metrics_arg calls),
     b_claim_sort = or_default (b_claim_sort b) (last_call claim_arg calls),
     b_stale_recovery_sort = or_default (b_stale_recovery_sort b) (last_call stale_arg calls)\<rparr>"
proof (induction calls arbitrary: b)
  case Nil
  then show ?case by simp
next
  case (Cons c cs)
  show ?case
    by (cases c) (simp_all add: Cons.IH setter_defs cong: option.case_cong)
qed

text \<open>
  C37: whatever chain of builder calls a service writes, \<open>build\<close> panics exactly when no call gave
  the connection string; otherwise every setting is the argument of the last call that names it and
  else its documented default: database \<open>getitdone\<close>, collection \<open>tasks\<close>, no request timeout, ten
  seconds of lease, finished tasks not reset, a generated worker id, no metrics, no sort orders.
\<close>

theorem builder_settings:
  "build (run_builder calls) =
     map_option (\<lambda>uri.
       \<lparr>cfg_mongo_uri = uri,
        cfg_database = or_default ''getitdone'' (last_call database_arg calls),
        cfg_collection = or_default ''tasks'' (last_call collection_arg calls),
        cfg_request_timeout = or_default None (last_call timeout_arg calls),
        cfg_worker_switch_timeout = or_default 10000000000 (last_call switch_arg calls),
        cfg_allow_reset_finished_tasks = or_default False (last_call reset_arg calls),
        cfg_worker_id = last_call worker_arg calls,
        cfg_enable_metrics = or_default False (last_call metrics_arg calls),
        cfg_claim_sort = or_default None (last_call claim_arg calls),
        cfg_stale_recovery_sort = or_default None (last_call stale_arg calls)\<rparr>)
     (last_call uri_arg calls)"
  by (cases "last_call uri_arg calls")
     (simp_all add: build_def finalize_def run_builder_def fold_builder builder_def from_secs_def
       or_default_def [symmetric] cong: option.case_cong)

end
