(* ===== verification/Claim.thy ===== *)
theory Claim
  imports Scenario Config
begin

text \<open>
  Claiming a task (\<open>src/worker.rs\<close>): the two claim modes, their filters, the claim by id after an
  expired lease, and the update that every claim writes. The lemmas say which documents each filter
  selects and what the claimed document says, and that every claim is one step of the protocol.
\<close>

section \<open>Operations\<close>

datatype claim_mode = Ready | StaleRecovery

fun metric_source :: "claim_mode \<Rightarrow> string" where
  "metric_source Ready = ''ready''"
| "metric_source StaleRecovery = ''stale_recovery''"

definition claim_update :: "string \<Rightarrow> string \<Rightarrow> int \<Rightarrow> duration \<Rightarrow> document" where
  "claim_update worker_id claim_token claim_started_at worker_switch_timeout =
     [(''$set'', BDocument
        [(''status'', BString ''running''),
         (''updated_at'', BDateTime claim_started_at),
         (''worker_state'', BDocument
            [(''worker_id'', BString worker_id),
             (''claim_token'', BString claim_token),
             (''started_at'', BDateTime claim_started_at),
             (''heartbeat_at'', BDateTime claim_started_at),
             (''switch_timeout_ms'', BInt64 (as_i64 (as_millis worker_switch_timeout)))])])]"

definition stale_claim_filter :: "int \<Rightarrow> duration \<Rightarrow> bson list \<Rightarrow> document" where
  "stale_claim_filter now worker_switch_timeout excluded_bson =
     (let default_switch_timeout_ms = as_i64 (as_millis worker_switch_timeout) in
      [(''status'', BString ''running''),
       (''worker_state.heartbeat_at'', op_doc ''$type'' (BString ''date'')),
       (''task_id'', op_doc ''$nin'' (BArray excluded_bson)),
       (''$expr'', op_doc ''$lte'' (BArray
          [op_doc ''$add'' (BArray
             [BString ''$worker_state.heartbeat_at'',
              op_doc ''$ifNull'' (BArray
                [BString ''$worker_switch_timeout'',
                 op_doc ''$ifNull'' (BArray
                   [BString ''$worker_state.switch_timeout_ms'', BInt64 default_switch_timeout_ms])])]),
           BDateTime now]))])"

definition claim_with_filter ::
  "'w server \<Rightarrow> document \<Rightarrow> document \<Rightarrow> document option \<Rightarrow> 'w \<Rightarrow>
   (request_error + document option) \<times> 'w" where
  "claim_with_filter srv flt update so w =
     (case sv_find_one_and_update srv flt update so w of
        (Inl e, w1) \<Rightarrow> (Inl (Database (error_text e)), w1)
      | (Inr task, w1) \<Rightarrow> (Inr task, w1))"

definition ready_filters ::
  "string \<Rightarrow> bson list \<Rightarrow> document option \<Rightarrow> (document \<times> document option) list" where
  "ready_filters worker_id excluded_bson so =
     [([(''status'', BString ''pending''), (''task_id'', op_doc ''$nin'' (BArray excluded_bson))], so),
      ([(''status'', BString ''running''),
        (''worker_state.worker_id'', BString worker_id),
        (''task_id'', op_doc ''$nin'' (BArray excluded_bson))], None)]"

text \<open>The \<open>for\<close> loop over the filters of a mode.\<close>

fun claim_attempts ::
  "'w server \<Rightarrow> document \<Rightarrow> (document \<times> document option) list \<Rightarrow> 'w \<Rightarrow>
   (request_error + document option) \<times> 'w" where
  "claim_attempts srv update [] w = (Inr None, w)"
| "claim_attempts srv update ((flt, so) # attempts) w =
     (case claim_with_filter srv flt update so w of
        (Inl e, w1) \<Rightarrow> (Inl e, w1)
      | (Inr (Some task), w1) \<Rightarrow> (Inr (Some task), w1)
      | (Inr None, w1) \<Rightarrow> claim_attempts srv update attempts w1)"

definition claim_next_task ::
  "'w server \<Rightarrow> string \<Rightarrow> duration \<Rightarrow> string list \<Rightarrow> claim_mode \<Rightarrow> document option \<Rightarrow> 'w \<Rightarrow>
   (request_error + document option) \<times> 'w" where
  "claim_next_task srv worker_id worker_switch_timeout excluded_ids mode so w =
     (let (now, w1) = sv_now srv w;
          excluded_bson = map BString excluded_ids;
          (claim_token, w2) = sv_uuid srv w1;
          (claim_started_at, w3) = sv_now srv w2;
          claim_filter_attempts =
            (case mode of
               Ready \<Rightarrow> ready_filters worker_id excluded_bson so
             | StaleRecovery \<Rightarrow> [(stale_claim_filter now worker_switch_timeout excluded_bson, so)]);
          update = claim_update worker_id claim_token claim_started_at worker_switch_timeout
      in claim_attempts srv update claim_filter_attempts w3)"

definition claim_expired_task_by_id ::
  "'w server \<Rightarrow> object_id \<Rightarrow> string \<Rightarrow> duration \<Rightarrow> string option \<Rightarrow> string list \<Rightarrow> 'w \<Rightarrow>
   (request_error + document option) \<times> 'w" where
  "claim_expired_task_by_id srv i worker_id worker_switch_timeout task_id excluded_ids w =
     (if (case task_id of None \<Rightarrow> False | Some t \<Rightarrow> t \<in> set excluded_ids) then (Inr None, w)
      else
        (let (now, w1) = sv_now srv w;
             excluded_bson = map BString excluded_ids;
             flt = stale_claim_filter now worker_switch_timeout excluded_bson;
             flt1 = doc_insert flt ''_id'' (BObjectId i);
             flt2 = (case task_id of None \<Rightarrow> flt1 | Some t \<Rightarrow> doc_insert flt1 ''task_id'' (BString t));
             (claim_token, w2) = sv_uuid srv w1;
             (claim_started_at, w3) = sv_now srv w2;
             update = claim_update worker_id claim_token claim_started_at worker_switch_timeout
         in claim_with_filter srv flt2 update None w3))"

section \<open>What a claim looks for\<close>

text \<open>
  The lease of a running task in milliseconds: the task's own timeout, else the one its holder
  recorded, else the default of the worker that asks.
\<close>

definition lease_ms :: "duration \<Rightarrow> document \<Rightarrow> int" where
  "lease_ms T d = (case switch_timeout_of d of None \<Rightarrow> as_i64 (as_millis T) | Some n \<Rightarrow> n)"

definition lease_expired :: "int \<Rightarrow> duration \<Rightarrow> document \<Rightarrow> bool" where
  "lease_expired now T d \<longleftrightarrow>
     (case heartbeat_of d of None \<Rightarrow> False | Some h \<Rightarrow> in_i64 (h + lease_ms T d) \<longrightarrow> h + lease_ms T d \<le> now)"

definition not_excluded :: "string list \<Rightarrow> document \<Rightarrow> bool" where
  "not_excluded ex d \<longleftrightarrow> (\<forall>s\<in>set ex. task_id_of d \<noteq> Some s)"

context mongo_query
begin

lemma agg_lease:
  assumes "doc_typed d"
  shows "agg (op_doc ''$ifNull'' (BArray
      [BString ''$worker_switch_timeout'',
       op_doc ''$ifNull'' (BArray
         [BString ''$worker_state.switch_timeout_ms'', BInt64 (as_i64 (as_millis T))])])) d =
     Some (BInt64 (lease_ms T d))"
proof -
  have wst: "agg (BString ''$worker_switch_timeout'') d = doc_get d ''worker_switch_timeout''"
    and sst: "agg (BString ''$worker_state.switch_timeout_ms'') d = state_field d ''switch_timeout_ms''"
    by (simp_all add: agg_path is_fields typed_plain [OF assms] path_gets)
  show ?thesis
    unfolding agg_if_null agg_int64 wst sst
    by (subst typed_fields(3) [OF assms], subst typed_state(4) [OF assms])
       (cases "get_i64 d ''worker_switch_timeout''";
        cases "holder_timeout_of d";
        simp add: lease_ms_def switch_timeout_of_def)
qed

lemma match_stale_expr:
  assumes "doc_typed d" and "heartbeat_of d = Some h" and "in_i64 (h + lease_ms T d)"
  shows "qmatch [(''$expr'', op_doc ''$lte'' (BArray
      [op_doc ''$add'' (BArray
         [BString ''$worker_state.heartbeat_at'',
          op_doc ''$ifNull'' (BArray
            [BString ''$worker_switch_timeout'',
             op_doc ''$ifNull'' (BArray
               [BString ''$worker_state.switch_timeout_ms'', BInt64 (as_i64 (as_millis T))])])]),
       BDateTime now]))] d \<longleftrightarrow> h + lease_ms T d \<le> now"
proof (rule match_expr, rule agg_lte)
  have "agg (BString ''$worker_state.heartbeat_at'') d = Some (BDateTime h)"
    by (simp add: agg_path is_fields typed_plain [OF assms(1)] path_gets typed_state [OF assms(1)] assms(2))
  then show "agg (op_doc ''$add'' (BArray
      [BString ''$worker_state.heartbeat_at'',
       op_doc ''$ifNull'' (BArray
         [BString ''$worker_switch_timeout'',
          op_doc ''$ifNull'' (BArray
            [BString ''$worker_state.switch_timeout_ms'', BInt64 (as_i64 (as_millis T))])])])) d =
     Some (BDateTime (h + lease_ms T d))"
    using agg_lease [OF assms(1)] assms(3) by (rule agg_add)
  show "agg (BDateTime now) d = Some (BDateTime now)" by (rule agg_date)
qed

lemma match_stale:
  assumes "doc_typed d" and "qmatch (stale_claim_filter now T (map BString ex)) d"
  shows "status_of d = Some ''running'' \<and> not_excluded ex d \<and> lease_expired now T d"
proof -
  note m = assms(2) [unfolded stale_claim_filter_def Let_def match_Cons match_fields [OF assms(1)]
      match_heartbeat_date [OF assms(1)] match_task_nin [OF assms(1)]]
  obtain h where h: "heartbeat_of d = Some h" using m by auto
  then have "lease_expired now T d"
    using m match_stale_expr [OF assms(1) h, of T now] by (simp add: lease_expired_def)
  then show ?thesis using m by (simp add: not_excluded_def)
qed

text \<open>Conversely, within range, an expired task is selected.\<close>

lemma match_staleI:
  assumes "doc_typed d" and "status_of d = Some ''running''" and "not_excluded ex d"
    and "heartbeat_of d = Some h" and "in_i64 (h + lease_ms T d)" and "h + lease_ms T d \<le> now"
  shows "qmatch (stale_claim_filter now T (map BString ex)) d"
  using assms match_stale_expr [OF assms(1,4,5), of now]
  by (simp add: stale_claim_filter_def match_Cons match_fields [OF assms(1)]
      match_heartbeat_date [OF assms(1)] match_task_nin [OF assms(1)] not_excluded_def)

end

section \<open>What a claim writes\<close>

lemma claim_update_fields:
  "update_fields (claim_update wid tok t T) ''$set'' =
     [(''status'', BString ''running''), (''updated_at'', BDateTime t),
      (''worker_state'', BDocument
        [(''worker_id'', BString wid), (''claim_token'', BString tok), (''started_at'', BDateTime t),
         (''heartbeat_at'', BDateTime t), (''switch_timeout_ms'', BInt64 (as_i64 (as_millis T)))])]"
  "update_fields (claim_update wid tok t T) ''$unset'' = []"
  by (simp_all add: update_fields_def claim_update_def get_document_def doc_get_def)

lemma claim_touched: "touched (claim_update wid tok t T) = [''status'', ''updated_at'', ''worker_state'']"
  by (simp add: touched_def claim_update_fields)

text \<open>The claimed document \<open>d'\<close> that a claim makes of \<open>d\<close>.\<close>

definition claimed_as :: "string \<Rightarrow> string \<Rightarrow> int \<Rightarrow> duration \<Rightarrow> document \<Rightarrow> document \<Rightarrow> bool" where
  "claimed_as wid tok t T d d' \<longleftrightarrow>
     status_of d' = Some ''running'' \<and> owner_of d' = Some wid \<and> token_of d' = Some tok \<and>
     heartbeat_of d' = Some t \<and>
     switch_timeout_of d' = Some (case get_i64 d ''worker_switch_timeout'' of
        None \<Rightarrow> as_i64 (as_millis T) | Some n \<Rightarrow> n) \<and>
     doc_typed d' \<and>
     (\<forall>k. split_path k = [k] \<longrightarrow> k \<notin> {''status'', ''updated_at'', ''worker_state''} \<longrightarrow>
        doc_get d' k = doc_get d k)"

context mongo_query
begin

lemma claim_frame:
  assumes "split_path k = [k]" and "k \<notin> {''status'', ''updated_at'', ''worker_state''}"
  shows "doc_get (upd (claim_update wid tok t T) d) k = doc_get d k"
proof -
  have "path_get (upd (claim_update wid tok t T) d) k = path_get d k"
    using assms
    by (intro upd_frame) (auto simp: claim_touched paths_apart_def split_paths settable_one)
  then show ?thesis using assms(1) by (simp add: path_get_field)
qed

lemma claim_sets:
  assumes "(k, v) \<in> set (update_fields (claim_update wid tok t T) ''$set'')"
  shows "doc_get (upd (claim_update wid tok t T) d) k = Some v"
proof -
  have k: "split_path k = [k]" using assms by (auto simp: claim_update_fields split_paths)
  have "pairwise_apart (touched (claim_update wid tok t T))"
    by (simp add: claim_touched paths_apart_def split_paths)
  then have "path_get (upd (claim_update wid tok t T) d) k = Some v"
    using assms settable_one [OF k] by (rule upd_set)
  then show ?thesis using k by (simp add: path_get_field)
qed

lemma upd_claim:
  assumes "doc_typed d"
  shows "claimed_as wid tok t T d (upd (claim_update wid tok t T) d)" (is "claimed_as _ _ _ _ _ ?d")
proof -
  have status: "doc_get ?d ''status'' = Some (BString ''running'')"
    and state: "doc_get ?d ''worker_state'' = Some (BDocument
        [(''worker_id'', BString wid), (''claim_token'', BString tok), (''started_at'', BDateTime t),
         (''heartbeat_at'', BDateTime t), (''switch_timeout_ms'', BInt64 (as_i64 (as_millis T)))])"
    by (rule claim_sets, simp add: claim_update_fields)+
  have frame: "doc_get ?d k = doc_get d k"
    if "split_path k = [k]" "k \<notin> {''status'', ''updated_at'', ''worker_state''}" for k
    using that by (rule claim_frame)
  have fields: "state_field ?d ''worker_id'' = Some (BString wid)"
    "state_field ?d ''claim_token'' = Some (BString tok)"
    "state_field ?d ''heartbeat_at'' = Some (BDateTime t)"
    "state_field ?d ''switch_timeout_ms'' = Some (BInt64 (as_i64 (as_millis T)))"
    by (simp_all add: state_field_def get_document_def state doc_get_Cons)
  have typed: "doc_typed ?d"
    by (rule doc_typedI [of _ "Some ''running''" "task_id_of d" "get_i64 d ''worker_switch_timeout''"
          "Some _" "Some wid" "Some tok" "Some t" "Some (as_i64 (as_millis T))"])
       (simp_all add: status state fields frame split_paths typed_fields [OF assms])
  have timeout: "get_i64 ?d ''worker_switch_timeout'' = get_i64 d ''worker_switch_timeout''"
    by (simp add: get_i64_def frame split_paths)
  then have lease: "switch_timeout_of ?d = Some (case get_i64 d ''worker_switch_timeout'' of
      None \<Rightarrow> as_i64 (as_millis T) | Some n \<Rightarrow> n)"
    by (simp add: switch_timeout_of_def holder_timeout_of_def fields split: option.split)
  have "status_of ?d = Some ''running'' \<and> owner_of ?d = Some wid \<and> token_of ?d = Some tok \<and>
      heartbeat_of ?d = Some t"
    by (simp add: reader_defs(1) owner_of_def token_of_def heartbeat_of_def fields get_str_def status)
  then show ?thesis
    unfolding claimed_as_def using lease typed frame by blast
qed

end

lemma claimed_as_keeps:
  "claimed_as wid tok t T d d' \<Longrightarrow> holds wid tok d' \<and> heartbeat_of d' \<noteq> None \<and> keeps_input d d'"
  by (auto simp: claimed_as_def holds_def keeps_input_def keeps_def task_id_of_def get_str_def split_paths)

section \<open>A claim against the server\<close>

context mongo_server
begin

lemma rely_coll_ok: "rely D D1 \<Longrightarrow> coll_ok D \<Longrightarrow> coll_ok D1"
  by (rule rely_ok)

lemma updates_one_claim:
  assumes "updates_one qmatch upd f (claim_update wid tok t T) D i d D'" and "coll_ok D"
  shows "D i = Some d \<and> qmatch f d \<and> claimed_as wid tok t T d (upd (claim_update wid tok t T) d) \<and>
    D' = D(i \<mapsto> upd (claim_update wid tok t T) d)"
  using assms upd_claim by (auto simp: updates_one_def coll_ok_def)

text \<open>
  One attempt: a document that the filter selects is claimed, the first in the order; or there is
  none; or the call failed and may have claimed one.
\<close>

lemma claim_attempt:
  assumes "coll_ok (docs w)" and "claim_with_filter srv f (claim_update wid tok t T) so w = (r, w1)"
  shows "\<exists>D. rely (docs w) D \<and> coll_ok D \<and>
    (case r of
       Inl e \<Rightarrow> docs w1 = D \<or>
         (\<exists>i d d'. D i = Some d \<and> qmatch f d \<and> claimed_as wid tok t T d d' \<and> docs w1 = D(i \<mapsto> d'))
     | Inr None \<Rightarrow> docs w1 = D \<and> no_match qmatch f D
     | Inr (Some d') \<Rightarrow>
         (\<exists>i d. D i = Some d \<and> qmatch f d \<and> claimed_as wid tok t T d d' \<and> docs w1 = D(i \<mapsto> d') \<and>
            first_in_order le so qmatch f D d))"
proof -
  let ?u = "claim_update wid tok t T"
  obtain r1 where call: "sv_find_one_and_update srv f ?u so w = (r1, w1)"
    and r: "r = (case r1 of Inl e \<Rightarrow> Inl (Database (error_text e)) | Inr task \<Rightarrow> Inr task)"
    using assms(2) by (auto simp: claim_with_filter_def split: prod.splits sum.splits)
  obtain D where D: "rely (docs w) D" and spec: "case r1 of
      Inl e \<Rightarrow> docs w1 = D \<or> (\<exists>i d. updates_one qmatch upd f ?u D i d (docs w1))
    | Inr None \<Rightarrow> docs w1 = D \<and> no_match qmatch f D
    | Inr (Some d1) \<Rightarrow> (\<exists>i d. updates_one qmatch upd f ?u D i d (docs w1) \<and> d1 = upd ?u d \<and>
        first_in_order le so qmatch f D d)"
    using find_and_update_docs [OF call] by blast
  have ok: "coll_ok D" using rely_ok [OF D assms(1)] .
  note one = updates_one_claim [OF _ ok]
  show ?thesis
    using D ok spec one unfolding r
    by (intro exI [of _ D]) (fastforce split: sum.splits option.splits)
qed

lemma match_pending:
  "doc_typed d \<Longrightarrow>
    qmatch [(''status'', BString ''pending''), (''task_id'', op_doc ''$nin'' (BArray (map BString ex)))] d \<longleftrightarrow>
    status_of d = Some ''pending'' \<and> not_excluded ex d"
  by (simp add: match_Cons match_fields match_task_nin not_excluded_def)

lemma match_own_running:
  "doc_typed d \<Longrightarrow>
    qmatch [(''status'', BString ''running''), (''worker_state.worker_id'', BString wid),
      (''task_id'', op_doc ''$nin'' (BArray (map BString ex)))] d \<longleftrightarrow>
    status_of d = Some ''running'' \<and> owner_of d = Some wid \<and> not_excluded ex d"
  by (simp add: match_Cons match_fields match_task_nin not_excluded_def)

end

text \<open>
  The outcome of a claim on the collection \<open>D\<close> it acted on: \<open>P\<close> describes the documents it may take
  and \<open>C\<close> the one it took among them.
\<close>

definition claim_outcome ::
  "(document \<Rightarrow> bool) \<Rightarrow> (document \<Rightarrow> bool) \<Rightarrow> string \<Rightarrow> string \<Rightarrow> duration \<Rightarrow>
   request_error + document option \<Rightarrow> collection \<Rightarrow> collection \<Rightarrow> bool" where
  "claim_outcome P C wid tok T r D D' \<longleftrightarrow>
     (case r of
        Inl e \<Rightarrow> D' = D \<or>
          (\<exists>i d d' t. D i = Some d \<and> P d \<and> claimed_as wid tok t T d d' \<and> D' = D(i \<mapsto> d'))
      | Inr None \<Rightarrow> D' = D \<and> (\<forall>i d. D i = Some d \<longrightarrow> \<not> P d)
      | Inr (Some d') \<Rightarrow>
          (\<exists>i d t. D i = Some d \<and> P d \<and> C d \<and> claimed_as wid tok t T d d' \<and> D' = D(i \<mapsto> d')))"

text \<open>The token that a claim draws in the world \<open>w\<close>.\<close>

definition token_drawn :: "'w server \<Rightarrow> 'w \<Rightarrow> string" where
  "token_drawn srv w = fst (sv_uuid srv (snd (sv_now srv w)))"

definition is_pending :: "string list \<Rightarrow> document \<Rightarrow> bool" where
  "is_pending ex d \<longleftrightarrow> status_of d = Some ''pending'' \<and> not_excluded ex d"

definition is_own_running :: "string \<Rightarrow> string list \<Rightarrow> document \<Rightarrow> bool" where
  "is_own_running wid ex d \<longleftrightarrow> status_of d = Some ''running'' \<and> owner_of d = Some wid \<and> not_excluded ex d"

definition least_of ::
  "(document \<Rightarrow> document \<Rightarrow> document \<Rightarrow> bool) \<Rightarrow> document option \<Rightarrow> (document \<Rightarrow> bool) \<Rightarrow> collection \<Rightarrow>
   document \<Rightarrow> bool" where
  "least_of le so P D d \<longleftrightarrow>
     (case so of None \<Rightarrow> True | Some s \<Rightarrow> (\<forall>j e. D j = Some e \<longrightarrow> P e \<longrightarrow> le s d e))"

lemma least_of_None [simp]: "least_of le None P D = (\<lambda>d. True)"
  by (simp add: least_of_def fun_eq_iff)

context mongo_server
begin

lemma claim_attempt_outcome:
  assumes "coll_ok (docs w)" and "claim_with_filter srv f (claim_update wid tok t T) so w = (r, w1)"
    and "\<And>d. doc_typed d \<Longrightarrow> qmatch f d \<longleftrightarrow> P d"
  shows "\<exists>D. rely (docs w) D \<and> coll_ok D \<and> claim_outcome P (least_of le so P D) wid tok T r D (docs w1)"
proof -
  obtain D where D: "rely (docs w) D" "coll_ok D" and spec: "case r of
       Inl e \<Rightarrow> docs w1 = D \<or>
         (\<exists>i d d'. D i = Some d \<and> qmatch f d \<and> claimed_as wid tok t T d d' \<and> docs w1 = D(i \<mapsto> d'))
     | Inr None \<Rightarrow> docs w1 = D \<and> no_match qmatch f D
     | Inr (Some d') \<Rightarrow>
         (\<exists>i d. D i = Some d \<and> qmatch f d \<and> claimed_as wid tok t T d d' \<and> docs w1 = D(i \<mapsto> d') \<and>
            first_in_order le so qmatch f D d)"
    using claim_attempt [OF assms(1,2)] by blast
  have P: "qmatch f d \<longleftrightarrow> P d" if "D i = Some d" for i d
    using that D(2) assms(3) by (auto simp: coll_ok_def)
  have "first_in_order le so qmatch f D = least_of le so P D" and
    "no_match qmatch f D \<longleftrightarrow> (\<forall>i d. D i = Some d \<longrightarrow> \<not> P d)"
    using P by (auto simp: first_in_order_def least_of_def no_match_def fun_eq_iff split: option.split)
  then have "claim_outcome P (least_of le so P D) wid tok T r D (docs w1)"
    using spec P unfolding claim_outcome_def
    by (cases r rule: sum.exhaust; cases "projr r") (simp_all, blast+)
  then show ?thesis using D by blast
qed

lemma claim_prelude_docs:
  "sv_now srv w = (now, w1) \<Longrightarrow> sv_uuid srv w1 = (tok, w2) \<Longrightarrow> sv_now srv w2 = (t, w3) \<Longrightarrow>
    docs w3 = docs w \<and> tok = token_drawn srv w"
  using now_docs [of w now w1] uuid_docs [of w1 tok w2] now_docs [of w2 t w3]
  by (simp add: token_drawn_def)

text \<open>
  A ready claim: either the first attempt decides, on the pending tasks, or there was no pending
  task and the second attempt decides, on the worker's own running tasks.
\<close>

lemma claim_ready:
  assumes "coll_ok (docs w)" and "claim_next_task srv wid T ex Ready so w = (r, w1)"
  shows "\<exists>D. rely (docs w) D \<and> coll_ok D \<and>
    (r \<noteq> Inr None \<and>
       claim_outcome (is_pending ex) (least_of le so (is_pending ex) D) wid (token_drawn srv w) T r D (docs w1) \<or>
     (\<forall>i d. D i = Some d \<longrightarrow> \<not> is_pending ex d) \<and>
     (\<exists>D1. rely D D1 \<and> coll_ok D1 \<and>
        claim_outcome (is_own_running wid ex) (\<lambda>d. True) wid (token_drawn srv w) T r D1 (docs w1)))"
proof -
  obtain now wa where wa: "sv_now srv w = (now, wa)" by fastforce
  obtain tok wb where wb: "sv_uuid srv wa = (tok, wb)" by fastforce
  obtain t wc where wc: "sv_now srv wb = (t, wc)" by fastforce
  from claim_prelude_docs [OF wa wb wc] have docs: "docs wc = docs w" and tok: "tok = token_drawn srv w"
    by simp_all
  have ok: "coll_ok (docs wc)" using assms(1) docs by simp
  let ?u = "claim_update wid tok t T"
  let ?f1 = "[(''status'', BString ''pending''), (''task_id'', op_doc ''$nin'' (BArray (map BString ex)))]"
  let ?f2 = "[(''status'', BString ''running''), (''worker_state.worker_id'', BString wid),
      (''task_id'', op_doc ''$nin'' (BArray (map BString ex)))]"
  obtain r1 wd where first: "claim_with_filter srv ?f1 ?u so wc = (r1, wd)" by fastforce
  obtain D where D: "rely (docs w) D" "coll_ok D"
    and o1: "claim_outcome (is_pending ex) (least_of le so (is_pending ex) D) wid tok T r1 D (docs wd)"
    using claim_attempt_outcome [OF ok first, of "is_pending ex"] docs
    by (auto simp: match_pending is_pending_def)
  have run: "claim_attempts srv ?u [(?f1, so), (?f2, None)] wc = (r, w1)"
    using assms(2) by (simp add: claim_next_task_def wa wb wc ready_filters_def Let_def del: claim_attempts.simps)
  show ?thesis
  proof (cases "r1 = Inr None")
    case False
    then have "r = r1" "w1 = wd" using run first by (auto split: sum.splits option.splits prod.splits)
    then show ?thesis using D o1 False tok by blast
  next
    case True
    obtain r2 we where second: "claim_with_filter srv ?f2 ?u None wd = (r2, we)" by fastforce
    have same: "docs wd = D" and none: "\<forall>i d. D i = Some d \<longrightarrow> \<not> is_pending ex d"
      using o1 True by (simp_all add: claim_outcome_def)
    then have ok2: "coll_ok (docs wd)" using D by simp
    obtain D1 where "rely D D1" "coll_ok D1"
      and o2: "claim_outcome (is_own_running wid ex) (least_of le None (is_own_running wid ex) D1) wid tok T r2 D1
        (docs we)"
      using claim_attempt_outcome [OF ok2 second, of "is_own_running wid ex"] same
      by (auto simp: match_own_running is_own_running_def)
    moreover have "r = r2" "w1 = we"
      using run first True second by (auto split: sum.splits option.splits prod.splits)
    ultimately show ?thesis using D none tok by (auto simp del: claim_attempts.simps)
  qed
qed

lemma claim_stale:
  assumes "coll_ok (docs w)" and "claim_next_task srv wid T ex StaleRecovery so w = (r, w1)"
    and "now = fst (sv_now srv w)"
  defines "P \<equiv> qmatch (stale_claim_filter now T (map BString ex))"
  shows "\<exists>D. rely (docs w) D \<and> coll_ok D \<and>
    claim_outcome P (least_of le so P D) wid (token_drawn srv w) T r D (docs w1)"
proof -
  obtain wa where wa: "sv_now srv w = (now, wa)" using assms(3) by (metis prod.collapse)
  obtain tok wb where wb: "sv_uuid srv wa = (tok, wb)" by fastforce
  obtain t wc where wc: "sv_now srv wb = (t, wc)" by fastforce
  from claim_prelude_docs [OF wa wb wc] have docs: "docs wc = docs w" and tok: "tok = token_drawn srv w"
    by simp_all
  have ok: "coll_ok (docs wc)" using assms(1) docs by simp
  have "claim_with_filter srv (stale_claim_filter now T (map BString ex)) (claim_update wid tok t T) so wc = (r, w1)"
    using assms(2) by (auto simp: claim_next_task_def wa wb wc split: prod.splits sum.splits option.splits)
  from claim_attempt_outcome [OF ok this, of P] show ?thesis
    using docs tok by (simp add: P_def)
qed

lemma claim_by_id:
  assumes "coll_ok (docs w)" and "claim_expired_task_by_id srv i wid T tid ex w = (r, w1)"
    and "now = fst (sv_now srv w)" and "\<And>s. tid = Some s \<Longrightarrow> s \<notin> set ex"
  defines "P \<equiv> qmatch (let f = doc_insert (stale_claim_filter now T (map BString ex)) ''_id'' (BObjectId i) in
     case tid of None \<Rightarrow> f | Some s \<Rightarrow> doc_insert f ''task_id'' (BString s))"
  shows "\<exists>D. rely (docs w) D \<and> coll_ok D \<and>
    claim_outcome P (\<lambda>d. True) wid (token_drawn srv w) T r D (docs w1)"
proof -
  obtain wa where wa: "sv_now srv w = (now, wa)" using assms(3) by (metis prod.collapse)
  obtain tok wb where wb: "sv_uuid srv wa = (tok, wb)" by fastforce
  obtain t wc where wc: "sv_now srv wb = (t, wc)" by fastforce
  from claim_prelude_docs [OF wa wb wc] have docs: "docs wc = docs w" and tok: "tok = token_drawn srv w"
    by simp_all
  have ok: "coll_ok (docs wc)" using assms(1) docs by simp
  have "\<not> (case tid of None \<Rightarrow> False | Some t \<Rightarrow> t \<in> set ex)" using assms(4) by (cases tid) auto
  then have "claim_with_filter srv
      (let f = doc_insert (stale_claim_filter now T (map BString ex)) ''_id'' (BObjectId i) in
        case tid of None \<Rightarrow> f | Some s \<Rightarrow> doc_insert f ''task_id'' (BString s))
      (claim_update wid tok t T) None wc = (r, w1)"
    using assms(2) by (simp add: claim_expired_task_by_id_def wa wb wc Let_def)
  from claim_attempt_outcome [OF ok this, of P] show ?thesis
    using docs tok by (simp add: P_def)
qed

end

context mongo_query
begin

text \<open>The filter of the claim by id: the stale filter with the document's id and exact task id.\<close>

lemma match_by_id:
  assumes "doc_typed d" and "doc_get d ''_id'' = Some (BObjectId j)"
    and "qmatch (let f = doc_insert (stale_claim_filter now T (map BString ex)) ''_id'' (BObjectId i) in
      case tid of None \<Rightarrow> f | Some s \<Rightarrow> doc_insert f ''task_id'' (BString s)) d"
    and "\<And>s. tid = Some s \<Longrightarrow> s \<notin> set ex"
  shows "j = i \<and> status_of d = Some ''running'' \<and> not_excluded ex d \<and> lease_expired now T d \<and>
    (\<forall>s. tid = Some s \<longrightarrow> task_id_of d = Some s)"
proof (cases tid)
  case None
  have "qmatch (stale_claim_filter now T (map BString ex)) d \<and> qmatch [(''_id'', BObjectId i)] d"
    using assms(3) unfolding None
    by (simp add: stale_claim_filter_def Let_def doc_insert_Cons doc_insert_Nil match_Cons)
  then show ?thesis using match_stale [OF assms(1), of now T ex] match_id [OF assms(2), of i] None by auto
next
  case (Some s)
  have m: "status_of d = Some ''running''" "task_id_of d = Some s" "qmatch [(''_id'', BObjectId i)] d"
    "qmatch (stale_claim_filter now T (map BString [])) d"
    using assms(3) unfolding Some
    by (simp_all add: stale_claim_filter_def Let_def doc_insert_Cons doc_insert_Nil match_Cons
        match_fields [OF assms(1)] match_task_nin [OF assms(1), of "[]", simplified])
  then show ?thesis
    using match_stale [OF assms(1) m(4)] match_id [OF assms(2), of i] Some assms(4) by (auto simp: not_excluded_def)
qed

end

section \<open>Properties\<close>

text \<open>
  C8: a ready claim hands out only work that is ready. The returned document is the stored one after
  the claim, running under this worker and the token just drawn, with a fresh heartbeat; before the
  claim it was pending, the first of the pending tasks in the configured order, or it was running
  under this same worker id and no pending task was left; and its task id was not excluded. Nothing
  else in the collection changed.
\<close>

theorem ready_claim_takes_ready_task:
  assumes "mongo_server qmatch agg upd ins srv docs rely le uniq" and "coll_ok (docs w)"
    and "claim_next_task srv wid T ex Ready so w = (Inr (Some d'), w1)"
  shows "\<exists>D i d t. rely (docs w) D \<and> D i = Some d \<and> docs w1 = D(i \<mapsto> d') \<and>
    claimed_as wid (token_drawn srv w) t T d d' \<and> not_excluded ex d \<and>
    (status_of d = Some ''pending'' \<and> least_of le so (is_pending ex) D d \<or>
     status_of d = Some ''running'' \<and> owner_of d = Some wid \<and>
       (\<exists>D0. rely (docs w) D0 \<and> rely D0 D \<and> (\<forall>j e. D0 j = Some e \<longrightarrow> \<not> is_pending ex e)))"
proof -
  obtain D where D: "rely (docs w) D" and cases:
    "claim_outcome (is_pending ex) (least_of le so (is_pending ex) D) wid (token_drawn srv w) T
       (Inr (Some d')) D (docs w1) \<or>
     (\<forall>i d. D i = Some d \<longrightarrow> \<not> is_pending ex d) \<and>
     (\<exists>D1. rely D D1 \<and> coll_ok D1 \<and>
        claim_outcome (is_own_running wid ex) (\<lambda>d. True) wid (token_drawn srv w) T (Inr (Some d')) D1 (docs w1))"
    using mongo_server.claim_ready [OF assms] by blast
  from cases show ?thesis
  proof (elim disjE conjE exE)
    assume "claim_outcome (is_pending ex) (least_of le so (is_pending ex) D) wid (token_drawn srv w) T
       (Inr (Some d')) D (docs w1)"
    then show ?thesis using D unfolding claim_outcome_def by (simp add: is_pending_def) blast
  next
    fix D1
    assume "\<forall>i d. D i = Some d \<longrightarrow> \<not> is_pending ex d" and D1: "rely D D1"
      and "claim_outcome (is_own_running wid ex) (\<lambda>d. True) wid (token_drawn srv w) T (Inr (Some d')) D1 (docs w1)"
    moreover have "rely (docs w) D1" by (rule mongo_server.rely_trans [OF assms(1) D D1])
    ultimately show ?thesis
      using D D1 unfolding claim_outcome_def by (simp add: is_own_running_def) blast
  qed
qed

lemma demo_ready_claim:
  "\<exists>d' w1. claim_next_task ref_server ''w1'' (from_secs 10) [] Ready None (demo_world 5000) = (Inr (Some d'), w1)"
  by (simp add: claim_next_task_def ready_filters_def claim_with_filter_def claim_update_def ref_eval demo_defs)

theorem ready_claim_takes_ready_task_witness:
  "\<exists>d' w1 i d t. claim_next_task ref_server ''w1'' (from_secs 10) [] Ready None (demo_world 5000) = (Inr (Some d'), w1) \<and>
     ref_docs (demo_world 5000) i = Some d \<and> claimed_as ''w1'' (token_drawn ref_server (demo_world 5000)) t (from_secs 10) d d'"
proof -
  obtain d' w1 where
    c: "claim_next_task ref_server ''w1'' (from_secs 10) [] Ready None (demo_world 5000) = (Inr (Some d'), w1)"
    using demo_ready_claim by blast
  show ?thesis
    using c ready_claim_takes_ready_task [OF ref.mongo_server_axioms demo_ok c] by blast
qed

text \<open>
  C9: a ready claim that finds nothing proves that there was nothing: at one moment during the call
  no pending task outside the excluded ones existed, at a later one no running task of this worker
  outside them, and the collection was not changed.
\<close>

theorem ready_claim_complete:
  assumes "mongo_server qmatch agg upd ins srv docs rely le uniq" and "coll_ok (docs w)"
    and "claim_next_task srv wid T ex Ready so w = (Inr None, w1)"
  shows "\<exists>D. rely (docs w) D \<and> (\<forall>i d. D i = Some d \<longrightarrow> \<not> is_pending ex d) \<and>
    rely D (docs w1) \<and> (\<forall>i d. docs w1 i = Some d \<longrightarrow> \<not> is_own_running wid ex d)"
  using mongo_server.claim_ready [OF assms] unfolding claim_outcome_def by auto

lemma demo_no_claim:
  "\<exists>w1. claim_next_task ref_server ''w1'' (from_secs 10) [''a''] Ready None (demo_world 5000) = (Inr None, w1)"
  by (simp add: claim_next_task_def ready_filters_def claim_with_filter_def claim_update_def ref_eval demo_defs)

lemma demo_docs_at:
  "ref_docs (demo_world t) (ObjectId 1) = Some (demo_task ''pending'' ''a'' [] 1)"
  "ref_docs (demo_world t) (ObjectId 2) = Some (demo_task ''running'' ''b'' (demo_state ''w2'' ''tok-b'' 1000) 2)"
  by (simp_all add: ref_eval demo_defs)

theorem ready_claim_complete_witness:
  "\<exists>w1. claim_next_task ref_server ''w1'' (from_secs 10) [''a''] Ready None (demo_world 5000) = (Inr None, w1) \<and>
     \<not> is_pending [''a''] (demo_task ''pending'' ''a'' [] 1) \<and>
     \<not> is_pending [''a''] (demo_task ''running'' ''b'' (demo_state ''w2'' ''tok-b'' 1000) 2)"
proof -
  obtain w1 where
    c: "claim_next_task ref_server ''w1'' (from_secs 10) [''a''] Ready None (demo_world 5000) = (Inr None, w1)"
    using demo_no_claim by blast
  show ?thesis
    using c ready_claim_complete [OF ref.mongo_server_axioms demo_ok c] demo_docs_at by blast
qed

text \<open>
  C10: abandoned work is taken only after its lease, and found when it is. A task that the stale scan
  returns was running, not excluded, the first in the recovery order, and its last heartbeat plus its
  lease was at most the time read when the scan began; when the scan returns nothing, no such task is
  left. The lease is the task's own timeout, else its holder's, else the scanning worker's. Leases
  whose end is no representable date are left open.
\<close>

theorem stale_scan_only_expired:
  assumes "mongo_server qmatch agg upd ins srv docs rely le uniq" and "coll_ok (docs w)"
    and "claim_next_task srv wid T ex StaleRecovery so w = (Inr r, w1)"
    and "now = fst (sv_now srv w)"
  shows "case r of
      Some d' \<Rightarrow> (\<exists>D i d t. rely (docs w) D \<and> D i = Some d \<and> docs w1 = D(i \<mapsto> d') \<and>
        claimed_as wid (token_drawn srv w) t T d d' \<and>
        status_of d = Some ''running'' \<and> not_excluded ex d \<and> lease_expired now T d \<and>
        least_of le so (qmatch (stale_claim_filter now T (map BString ex))) D d)
    | None \<Rightarrow> (\<forall>i d h. docs w1 i = Some d \<longrightarrow> status_of d = Some ''running'' \<longrightarrow> not_excluded ex d \<longrightarrow>
        heartbeat_of d = Some h \<longrightarrow> in_i64 (h + lease_ms T d) \<longrightarrow> now < h + lease_ms T d)"
proof -
  have query: "mongo_query qmatch agg upd ins" using assms(1) by (simp add: mongo_server_def)
  let ?P = "qmatch (stale_claim_filter now T (map BString ex))"
  obtain D where D: "rely (docs w) D" "coll_ok D"
    and outcome: "claim_outcome ?P (least_of le so ?P D) wid (token_drawn srv w) T (Inr r) D (docs w1)"
    using mongo_server.claim_stale [OF assms] by blast
  have typed: "doc_typed d" if "D i = Some d" for i d using that D(2) by (auto simp: coll_ok_def)
  show ?thesis
  proof (cases r)
    case (Some d')
    then show ?thesis
      using outcome D(1) mongo_query.match_stale [OF query typed] unfolding claim_outcome_def by simp blast
  next
    case None
    then have none: "docs w1 = D" "\<And>i d. D i = Some d \<Longrightarrow> \<not> ?P d"
      using outcome by (simp_all add: claim_outcome_def)
    have "now < h + lease_ms T d"
      if "D i = Some d" "status_of d = Some ''running''" "not_excluded ex d" "heartbeat_of d = Some h"
        "in_i64 (h + lease_ms T d)" for i d h
      using mongo_query.match_staleI [OF query typed [OF that(1)] that(2-5), of now] none(2) [OF that(1)]
      by linarith
    then show ?thesis using None none(1) by auto
  qed
qed

lemma demo_stale_claim:
  "\<exists>d' w1. claim_next_task ref_server ''w1'' (from_secs 10) [] StaleRecovery None (demo_world 20000) =
     (Inr (Some d'), w1)"
  by (simp add: claim_next_task_def claim_with_filter_def claim_update_def stale_claim_filter_def ref_eval demo_defs)

theorem stale_scan_only_expired_witness:
  "\<exists>d' w1 i d. claim_next_task ref_server ''w1'' (from_secs 10) [] StaleRecovery None (demo_world 20000) =
     (Inr (Some d'), w1) \<and> ref_docs (demo_world 20000) i = Some d \<and> lease_expired 20000 (from_secs 10) d"
proof -
  obtain d' w1 where
    c: "claim_next_task ref_server ''w1'' (from_secs 10) [] StaleRecovery None (demo_world 20000) = (Inr (Some d'), w1)"
    using demo_stale_claim by blast
  have now: "20000 = fst (sv_now ref_server (demo_world 20000))" by (simp add: ref_eval demo_defs)
  show ?thesis
    using c stale_scan_only_expired [OF ref.mongo_server_axioms demo_ok c now] by auto
qed

text \<open>
  C11: recovery by id takes the one document whose tracked deadline passed, and only if the stored
  document agrees: it is the document asked for, with the task id the tracker knew, running, not
  excluded and past its lease. A task that this worker has in flight is never taken: the call then
  returns without touching the server.
\<close>

theorem recovery_by_id_only_expired:
  assumes "mongo_server qmatch agg upd ins srv docs rely le uniq" and "coll_ok (docs w)"
    and "claim_expired_task_by_id srv i wid T tid ex w = (r, w1)"
    and "now = fst (sv_now srv w)"
  shows "if \<exists>s. tid = Some s \<and> s \<in> set ex then r = Inr None \<and> w1 = w
    else (\<forall>d'. r = Inr (Some d') \<longrightarrow>
      (\<exists>D d t. rely (docs w) D \<and> D i = Some d \<and> docs w1 = D(i \<mapsto> d') \<and>
        claimed_as wid (token_drawn srv w) t T d d' \<and>
        status_of d = Some ''running'' \<and> not_excluded ex d \<and> lease_expired now T d \<and>
        (\<forall>s. tid = Some s \<longrightarrow> task_id_of d = Some s)))"
proof (cases "\<exists>s. tid = Some s \<and> s \<in> set ex")
  case True
  then show ?thesis using assms(3) by (auto simp: claim_expired_task_by_id_def)
next
  case False
  then have tid: "\<And>s. tid = Some s \<Longrightarrow> s \<notin> set ex" by blast
  have query: "mongo_query qmatch agg upd ins" using assms(1) by (simp add: mongo_server_def)
  obtain D where D: "rely (docs w) D" "coll_ok D" and outcome: "claim_outcome
      (qmatch (let f = doc_insert (stale_claim_filter now T (map BString ex)) ''_id'' (BObjectId i) in
         case tid of None \<Rightarrow> f | Some s \<Rightarrow> doc_insert f ''task_id'' (BString s)))
      (\<lambda>d. True) wid (token_drawn srv w) T r D (docs w1)"
    using mongo_server.claim_by_id [OF assms tid] by blast
  have matched: "j = i \<and> status_of d = Some ''running'' \<and> not_excluded ex d \<and> lease_expired now T d \<and>
      (\<forall>s. tid = Some s \<longrightarrow> task_id_of d = Some s)"
    if "D j = Some d" "qmatch (let f = doc_insert (stale_claim_filter now T (map BString ex)) ''_id'' (BObjectId i) in
         case tid of None \<Rightarrow> f | Some s \<Rightarrow> doc_insert f ''task_id'' (BString s)) d" for j d
    using mongo_query.match_by_id [OF query _ _ that(2) tid] that(1) D(2) by (simp add: coll_ok_def)
  have "\<exists>D d t. rely (docs w) D \<and> D i = Some d \<and> docs w1 = D(i \<mapsto> d') \<and>
      claimed_as wid (token_drawn srv w) t T d d' \<and> status_of d = Some ''running'' \<and> not_excluded ex d \<and>
      lease_expired now T d \<and> (\<forall>s. tid = Some s \<longrightarrow> task_id_of d = Some s)" if r: "r = Inr (Some d')" for d'
  proof -
    obtain j d t where "D j = Some d" and c: "claimed_as wid (token_drawn srv w) t T d d'"
      "docs w1 = D(j \<mapsto> d')" and m: "qmatch (let f = doc_insert (stale_claim_filter now T (map BString ex)) ''_id''
        (BObjectId i) in case tid of None \<Rightarrow> f | Some s \<Rightarrow> doc_insert f ''task_id'' (BString s)) d"
      using outcome unfolding r claim_outcome_def by auto
    moreover from calculation(1) m have "j = i \<and> status_of d = Some ''running'' \<and> not_excluded ex d \<and>
        lease_expired now T d \<and> (\<forall>s. tid = Some s \<longrightarrow> task_id_of d = Some s)" by (rule matched)
    ultimately show ?thesis using D(1) by blast
  qed
  then show ?thesis unfolding if_not_P [OF False] by blast
qed

lemma demo_claim_by_id:
  "\<exists>d' w1. claim_expired_task_by_id ref_server (ObjectId 2) ''w1'' (from_secs 10) (Some ''b'') [''a'']
     (demo_world 20000) = (Inr (Some d'), w1)"
  by (simp add: claim_expired_task_by_id_def claim_with_filter_def claim_update_def stale_claim_filter_def
      ref_eval demo_defs)

theorem recovery_by_id_only_expired_witness:
  "\<exists>d' w1 d. claim_expired_task_by_id ref_server (ObjectId 2) ''w1'' (from_secs 10) (Some ''b'') [''a'']
     (demo_world 20000) = (Inr (Some d'), w1) \<and>
     ref_docs (demo_world 20000) (ObjectId 2) = Some d \<and> lease_expired 20000 (from_secs 10) d"
proof -
  obtain d' w1 where c: "claim_expired_task_by_id ref_server (ObjectId 2) ''w1'' (from_secs 10) (Some ''b'') [''a'']
     (demo_world 20000) = (Inr (Some d'), w1)"
    using demo_claim_by_id by blast
  have now: "20000 = fst (sv_now ref_server (demo_world 20000))" by (simp add: ref_eval demo_defs)
  show ?thesis
    using c recovery_by_id_only_expired [OF ref.mongo_server_axioms demo_ok c now] by auto
qed

text \<open>Every claim, whatever its outcome, is at most one claim step of the protocol.\<close>

lemma claim_outcome_step:
  assumes "claim_outcome P C wid tok T r D D'" and
    "\<And>i d. D i = Some d \<Longrightarrow> P d \<Longrightarrow> status_of d = Some ''pending'' \<or> status_of d = Some ''running''"
  shows "D' = D \<or> (\<exists>i. task_step D (ClaimTask i wid tok) D')"
proof -
  have step: "task_step D (ClaimTask i wid tok) (D(i \<mapsto> d'))"
    if "D i = Some d" "P d" "claimed_as wid tok t T d d'" for i d d' t
    using that assms(2) claimed_as_keeps by (intro task_step.claim) auto
  show ?thesis
    using assms(1) step unfolding claim_outcome_def
    by (cases r rule: sum.exhaust; cases "projr r") (simp_all, blast+)
qed

context mongo_server
begin

lemma claim_next_step:
  assumes "coll_ok (docs w)" and "claim_next_task srv wid T ex mode so w = (r, w1)"
  shows "\<exists>D. rely (docs w) D \<and>
    (docs w1 = D \<or> (\<exists>i. task_step D (ClaimTask i wid (token_drawn srv w)) (docs w1)))"
proof (cases mode)
  case Ready
  obtain D where D: "rely (docs w) D" and cases:
    "claim_outcome (is_pending ex) (least_of le so (is_pending ex) D) wid (token_drawn srv w) T r D (docs w1) \<or>
     (\<exists>D1. rely D D1 \<and>
        claim_outcome (is_own_running wid ex) (\<lambda>d. True) wid (token_drawn srv w) T r D1 (docs w1))"
    using claim_ready [OF assms(1) assms(2) [unfolded Ready]] by blast
  from cases show ?thesis
  proof (elim disjE exE conjE)
    assume "claim_outcome (is_pending ex) (least_of le so (is_pending ex) D) wid (token_drawn srv w) T r D (docs w1)"
    from claim_outcome_step [OF this] show ?thesis using D by (auto simp: is_pending_def)
  next
    fix D1 assume D1: "rely D D1"
      and o: "claim_outcome (is_own_running wid ex) (\<lambda>d. True) wid (token_drawn srv w) T r D1 (docs w1)"
    from claim_outcome_step [OF o] show ?thesis
      using rely_trans [OF D D1] by (auto simp: is_own_running_def)
  qed
next
  case StaleRecovery
  let ?P = "qmatch (stale_claim_filter (fst (sv_now srv w)) T (map BString ex))"
  obtain D where D: "rely (docs w) D" "coll_ok D"
    and o: "claim_outcome ?P (least_of le so ?P D) wid (token_drawn srv w) T r D (docs w1)"
    using claim_stale [OF assms(1) assms(2) [unfolded StaleRecovery] refl] by blast
  have "status_of d = Some ''running''" if "D i = Some d" "?P d" for i d
    using that D(2) match_stale [OF _ that(2)] by (auto simp: coll_ok_def)
  then show ?thesis using claim_outcome_step [OF o] D by blast
qed

lemma claim_by_id_step:
  assumes "coll_ok (docs w)" and "claim_expired_task_by_id srv i wid T tid ex w = (r, w1)"
  shows "\<exists>D. rely (docs w) D \<and>
    (docs w1 = D \<or> (\<exists>j. task_step D (ClaimTask j wid (token_drawn srv w)) (docs w1)))"
proof (cases "\<exists>s. tid = Some s \<and> s \<in> set ex")
  case True
  then have "w1 = w" using assms(2) by (auto simp: claim_expired_task_by_id_def)
  then show ?thesis using rely_refl by blast
next
  case False
  then have tid: "\<And>s. tid = Some s \<Longrightarrow> s \<notin> set ex" by blast
  let ?P = "qmatch (let f = doc_insert (stale_claim_filter (fst (sv_now srv w)) T (map BString ex)) ''_id''
       (BObjectId i) in case tid of None \<Rightarrow> f | Some s \<Rightarrow> doc_insert f ''task_id'' (BString s))"
  obtain D where D: "rely (docs w) D" "coll_ok D"
    and o: "claim_outcome ?P (\<lambda>d. True) wid (token_drawn srv w) T r D (docs w1)"
    using claim_by_id [OF assms refl tid] by blast
  have "status_of d = Some ''running''" if "D j = Some d" "?P d" for j d
    using match_by_id [OF _ _ that(2) tid] that(1) D(2) by (auto simp: coll_ok_def)
  then show ?thesis using claim_outcome_step [OF o] D by blast
qed

end

end
