(* ===== verification/Trace.thy ===== *)
theory Trace
  imports Bson "HOL-Library.Word"
begin

text \<open>
  \<open>src/trace.rs\<close>: the caller's tracing identifiers as they are stored in a task document and turned
  back into a span context by the worker. The OpenTelemetry crate is a parameter: its identifiers
  \<open>'t\<close>, \<open>'s\<close> and trace states \<open>'st\<close>, their hexadecimal printing and parsing, validity, and its
  constants.
\<close>

record ('t, 's, 'st) span_context =
  sc_trace_id :: 't
  sc_span_id :: 's
  sc_trace_flags :: "8 word"
  sc_is_remote :: bool
  sc_trace_state :: 'st

record ('t, 's, 'st) otel =
  ot_is_valid :: "('t, 's, 'st) span_context \<Rightarrow> bool"
  ot_trace_to_string :: "'t \<Rightarrow> string"
  ot_trace_from_hex :: "string \<Rightarrow> 't option"
  ot_span_to_string :: "'s \<Rightarrow> string"
  ot_span_from_hex :: "string \<Rightarrow> 's option"
  ot_sampled :: "8 word"
  ot_default_state :: 'st

record trace_context =
  trace_id :: string
  span_id :: string
  trace_flags :: "8 word"

definition default_trace_flags :: "('t, 's, 'st) otel \<Rightarrow> 8 word" where
  "default_trace_flags ot = ot_sampled ot"

definition from_parts :: "('t, 's, 'st) otel \<Rightarrow> string \<Rightarrow> string \<Rightarrow> trace_context" where
  "from_parts ot t s = \<lparr>trace_id = t, span_id = s, trace_flags = default_trace_flags ot\<rparr>"

definition from_parts_with_flags :: "string \<Rightarrow> string \<Rightarrow> 8 word \<Rightarrow> trace_context" where
  "from_parts_with_flags t s flags = \<lparr>trace_id = t, span_id = s, trace_flags = flags\<rparr>"

definition from_span_context ::
  "('t, 's, 'st) otel \<Rightarrow> ('t, 's, 'st) span_context \<Rightarrow> trace_context option" where
  "from_span_context ot sc =
     (if \<not> ot_is_valid ot sc then None
      else Some \<lparr>trace_id = ot_trace_to_string ot (sc_trace_id sc),
                 span_id = ot_span_to_string ot (sc_span_id sc),
                 trace_flags = sc_trace_flags sc\<rparr>)"

text \<open>The span context of the current span comes from the tracing subscriber.\<close>

definition capture_current ::
  "('t, 's, 'st) otel \<Rightarrow> ('t, 's, 'st) span_context \<Rightarrow> trace_context option" where
  "capture_current ot current = from_span_context ot current"

definition to_span_context ::
  "('t, 's, 'st) otel \<Rightarrow> trace_context \<Rightarrow> ('t, 's, 'st) span_context option" where
  "to_span_context ot c =
     (case ot_trace_from_hex ot (trace_id c) of
        None \<Rightarrow> None
      | Some t \<Rightarrow>
          (case ot_span_from_hex ot (span_id c) of
             None \<Rightarrow> None
           | Some s \<Rightarrow>
               Some \<lparr>sc_trace_id = t, sc_span_id = s, sc_trace_flags = trace_flags c,
                     sc_is_remote = True, sc_trace_state = ot_default_state ot\<rparr>))"

text \<open>
  The derived \<open>Serialize\<close> and \<open>Deserialize\<close>: a document with the fields in their order, a \<open>u8\<close> as
  an \<open>Int32\<close>; missing flags take their default, and flags outside a byte are an error.
\<close>

definition trace_to_bson :: "trace_context \<Rightarrow> bson" where
  "trace_to_bson c = BDocument [(''trace_id'', BString (trace_id c)), (''span_id'', BString (span_id c)),
     (''trace_flags'', BInt32 (uint (trace_flags c)))]"

definition flags_from_bson :: "bson \<Rightarrow> 8 word option" where
  "flags_from_bson v =
     (case v of
        BInt32 n \<Rightarrow> if 0 \<le> n \<and> n < 256 then Some (word_of_int n) else None
      | BInt64 n \<Rightarrow> if 0 \<le> n \<and> n < 256 then Some (word_of_int n) else None
      | _ \<Rightarrow> None)"

definition trace_from_bson :: "('t, 's, 'st) otel \<Rightarrow> bson \<Rightarrow> trace_context option" where
  "trace_from_bson ot v =
     (case v of
        BDocument d \<Rightarrow>
          (case (get_str d ''trace_id'', get_str d ''span_id'') of
             (Some t, Some s) \<Rightarrow>
               map_option (\<lambda>fl. \<lparr>trace_id = t, span_id = s, trace_flags = fl\<rparr>)
                 (case doc_get d ''trace_flags'' of
                    None \<Rightarrow> Some (default_trace_flags ot)
                  | Some x \<Rightarrow> flags_from_bson x)
           | _ \<Rightarrow> None)
      | _ \<Rightarrow> None)"

lemma trace_from_to_bson: "trace_from_bson ot (trace_to_bson c) = Some c"
proof -
  have "uint (trace_flags c) < 256" using uint_lt2p [of "trace_flags c"] by simp
  then show ?thesis
    by (simp add: trace_from_bson_def trace_to_bson_def get_str_def doc_get_def flags_from_bson_def)
qed

lemma to_from_span_context:
  assumes "\<And>t. ot_trace_from_hex ot (ot_trace_to_string ot t) = Some t"
    and "\<And>s. ot_span_from_hex ot (ot_span_to_string ot s) = Some s"
    and "from_span_context ot sc = Some c"
  shows "to_span_context ot c = Some (sc\<lparr>sc_is_remote := True, sc_trace_state := ot_default_state ot\<rparr>)"
  using assms by (auto simp: from_span_context_def to_span_context_def split: if_splits)

text \<open>Identifiers that are their own hexadecimal strings, for concrete runs.\<close>

definition demo_otel :: "(string, string, unit) otel" where
  "demo_otel = \<lparr>ot_is_valid = (\<lambda>sc. sc_trace_id sc \<noteq> [] \<and> sc_span_id sc \<noteq> []),
     ot_trace_to_string = id, ot_trace_from_hex = Some, ot_span_to_string = id, ot_span_from_hex = Some,
     ot_sampled = 1, ot_default_state = ()\<rparr>"

end
