(* ===== verification/Ownership.thy ===== *)
theory Ownership
  imports Claim Trace
begin

text \<open>
  The writes of a worker that holds a claim (\<open>src/worker.rs\<close>): the heartbeat, the completion and the
  failure report. Each is one \<open>update_one\<close> whose filter names the task, its running status, the
  worker and the claim token, so it applies only while that very claim holds the task.
\<close>

section \<open>Operations\<close>

definition held_filter :: "string \<Rightarrow> string \<Rightarrow> string \<Rightarrow> document" where
  "held_filter task_id worker_id claim_token =
     [(''task_id'', BString task_id),
      (''status'', BString ''running''),
      (''worker_state.worker_id'', BString worker_id),
      (''worker_state.claim_token'', BString claim_token)]"

definition heartbeat ::
  "'w server \<Rightarrow> string \<Rightarrow> string \<Rightarrow> string \<Rightarrow> 'w \<Rightarrow> (request_error + bool) \<times> 'w" where
  "heartbeat srv task_id worker_id claim_token w =
     (let flt = held_filter task_id worker_id claim_token;
          (now, w1) = sv_now srv w;
          update = [(''$set'', BDocument [(''worker_state.heartbeat_at'', BDateTime now)])]
      in case sv_update_one srv flt update False w1 of
           (Inl e, w2) \<Rightarrow> (Inl (Database (error_text e)), w2)
         | (Inr res, w2) \<Rightarrow> (Inr (0 < matched_count res), w2))"

datatype heartbeat_outcome = Alive | Superseded | TransientError

fun classify_heartbeat_result :: "request_error + bool \<Rightarrow> heartbeat_outcome" where
  "classify_heartbeat_result (Inr True) = Alive"
| "classify_heartbeat_result (Inr False) = Superseded"
| "classify_heartbeat_result (Inl e) = TransientError"

definition mark_task_failed ::
  "'w server \<Rightarrow> string \<Rightarrow> string \<Rightarrow> string \<Rightarrow> string \<Rightarrow> 'w \<Rightarrow> 'w" where
  "mark_task_failed srv task_id worker_id claim_token reason w =
     (let flt = held_filter task_id worker_id claim_token;
          (t1, w1) = sv_now srv w;
          (t2, w2) = sv_now srv w1;
          update = [(''$set'', BDocument
            [(''status'', BString ''failed''),
             (''error_reason'', BString reason),
             (''updated_at'', BDateTime t1),
             (''worker_state.finished_at'', BDateTime t2)])]
      in snd (sv_update_one srv flt update False w2))"

text \<open>
  The end of \<open>process_task\<close> after the handler returned. \<open>ser\<close> is the output's serialisation; when it
  fails, the error is returned and nothing is written.
\<close>

definition finish_task ::
  "'w server \<Rightarrow> ('o \<Rightarrow> bson option) \<Rightarrow> string \<Rightarrow> string \<Rightarrow> string \<Rightarrow> request_error + 'o \<Rightarrow> 'w \<Rightarrow>
   (request_error + unit) \<times> 'w" where
  "finish_task srv ser task_id worker_id claim_token handler_result w =
     (case handler_result of
        Inr output \<Rightarrow>
          (case ser output of
             None \<Rightarrow> (Inl (PayloadFormat ''task_output''), w)
           | Some output_bson \<Rightarrow>
               (let flt = held_filter task_id worker_id claim_token;
                    (t1, w1) = sv_now srv w;
                    (t2, w2) = sv_now srv w1;
                    update = [(''$set'', BDocument
                      [(''status'', BString ''succeeded''),
                       (''task_output'', output_bson),
                       (''updated_at'', BDateTime t1),
                       (''worker_state.finished_at'', BDateTime t2)])]
                in case sv_update_one srv flt update False w2 of
                     (Inl e, w3) \<Rightarrow> (Inl (Database (error_text e)), w3)
                   | (Inr result, w3) \<Rightarrow>
                       if matched_count result = 0 then (Inl WorkerGone, w3) else (Inr (), w3)))
      | Inl err \<Rightarrow>
          (Inl err,
           mark_task_failed srv task_id worker_id claim_token (''handler error: '' @ err_display err) w))"

section \<open>What the writes do to a document\<close>

definition set_update :: "document \<Rightarrow> document" where
  "set_update fs = [(''$set'', BDocument fs)]"

lemma set_update_fields:
  "update_fields (set_update fs) ''$set'' = fs" "update_fields (set_update fs) ''$unset'' = []"
  by (simp_all add: update_fields_def set_update_def get_document_def doc_get_def)

lemma set_update_touched: "touched (set_update fs) = map fst fs"
  by (simp add: touched_def set_update_fields)

definition writable :: "document \<Rightarrow> document \<Rightarrow> bool" where
  "writable fs d \<longleftrightarrow> pairwise_apart (map fst fs) \<and> list_all (settable d) (map fst fs)"

context mongo_query
begin

lemma upd_set_field:
  "writable fs d \<Longrightarrow> (p, v) \<in> set fs \<Longrightarrow> path_get (upd (set_update fs) d) p = Some v"
  by (rule upd_set) (auto simp: set_update_touched set_update_fields writable_def list_all_iff)

lemma upd_set_other:
  "writable fs d \<Longrightarrow> list_all (paths_apart p) (map fst fs) \<Longrightarrow>
    path_get (upd (set_update fs) d) p = path_get d p"
  by (rule upd_frame) (simp_all add: set_update_touched writable_def)

end

text \<open>The document after a heartbeat at the time \<open>t\<close>.\<close>

definition beaten :: "int \<Rightarrow> document \<Rightarrow> document \<Rightarrow> bool" where
  "beaten t d d' \<longleftrightarrow>
     doc_typed d' \<and> heartbeat_of d' = Some t \<and> owner_of d' = owner_of d \<and> token_of d' = token_of d \<and>
     switch_timeout_of d' = switch_timeout_of d \<and>
     (\<forall>k. split_path k = [k] \<longrightarrow> k \<noteq> ''worker_state'' \<longrightarrow> doc_get d' k = doc_get d k)"

text \<open>The document after a completion or a failure report.\<close>

definition finished_as :: "string \<Rightarrow> string \<Rightarrow> bson \<Rightarrow> document \<Rightarrow> document \<Rightarrow> bool" where
  "finished_as st field v d d' \<longleftrightarrow>
     doc_typed d' \<and> status_of d' = Some st \<and> doc_get d' field = Some v \<and>
     owner_of d' = owner_of d \<and> token_of d' = token_of d \<and> heartbeat_of d' = heartbeat_of d \<and>
     (\<forall>k. split_path k = [k] \<longrightarrow> k \<notin> {''status'', field, ''updated_at'', ''worker_state''} \<longrightarrow>
        doc_get d' k = doc_get d k)"

definition finish_fields :: "string \<Rightarrow> string \<Rightarrow> bson \<Rightarrow> int \<Rightarrow> int \<Rightarrow> document" where
  "finish_fields st field v t1 t2 =
     [(''status'', BString st), (field, v), (''updated_at'', BDateTime t1),
      (''worker_state.finished_at'', BDateTime t2)]"

context mongo_query
begin

lemma upd_beat:
  assumes "doc_typed d"
  shows "beaten t d (upd (set_update [(''worker_state.heartbeat_at'', BDateTime t)]) d)" (is "beaten t d ?d")
proof -
  let ?fs = "[(''worker_state.heartbeat_at'', BDateTime t)]"
  have w: "writable ?fs d"
    using settable_state [OF assms] by (simp add: writable_def split_paths)
  have beat: "state_field ?d ''heartbeat_at'' = Some (BDateTime t)"
    using upd_set_field [OF w, of "''worker_state.heartbeat_at''"] by (simp add: path_gets)
  have frame: "doc_get ?d k = doc_get d k" if "split_path k = [k]" "k \<noteq> ''worker_state''" for k
    using upd_set_other [OF w, of k] that by (simp add: paths_apart_def split_paths path_get_field)
  have other: "state_field ?d ''worker_id'' = state_field d ''worker_id''"
    "state_field ?d ''claim_token'' = state_field d ''claim_token''"
    "state_field ?d ''switch_timeout_ms'' = state_field d ''switch_timeout_ms''"
    using upd_set_other [OF w, of "''worker_state.worker_id''"]
      upd_set_other [OF w, of "''worker_state.claim_token''"]
      upd_set_other [OF w, of "''worker_state.switch_timeout_ms''"]
    by (simp_all add: paths_apart_def split_paths path_gets)
  obtain e where state: "doc_get ?d ''worker_state'' = Some (BDocument e)"
    using beat by (auto simp: state_field_def bind_eq_Some_conv get_document_Some)
  have "doc_typed ?d"
    by (rule doc_typedI [of _ "status_of d" "task_id_of d" "get_i64 d ''worker_switch_timeout''" "Some e"
          "owner_of d" "token_of d" "Some t" "holder_timeout_of d"])
       (simp_all add: state beat frame other split_paths typed_fields [OF assms] typed_state [OF assms])
  moreover have "holder_timeout_of ?d = holder_timeout_of d" "get_i64 ?d ''worker_switch_timeout'' = get_i64 d ''worker_switch_timeout''"
    by (simp_all add: holder_timeout_of_def other get_i64_def frame split_paths)
  ultimately show ?thesis
    using frame
    by (simp add: beaten_def heartbeat_of_def beat owner_of_def token_of_def other switch_timeout_of_def
        cong: option.case_cong)
qed

lemma upd_finish:
  assumes "doc_typed d" and "split_path field = [field]"
    and "field \<notin> {''status'', ''task_id'', ''worker_switch_timeout'', ''worker_state'', ''updated_at''}"
    and "get_document d ''worker_state'' \<noteq> None"
  shows "finished_as st field v d (upd (set_update (finish_fields st field v t1 t2)) d)" (is "finished_as _ _ _ d ?d")
proof -
  let ?fs = "finish_fields st field v t1 t2"
  have w: "writable ?fs d"
    using settable_state [OF assms(1)] settable_one assms(2,3)
    by (auto simp: writable_def finish_fields_def split_paths paths_apart_def)
  have status: "doc_get ?d ''status'' = Some (BString st)"
    and result: "doc_get ?d field = Some v"
    using upd_set_field [OF w, of "''status''"] upd_set_field [OF w, of field] assms(2)
    by (simp_all add: finish_fields_def path_gets path_get_field)
  have frame: "doc_get ?d k = doc_get d k"
    if "split_path k = [k]" "k \<notin> {''status'', field, ''updated_at'', ''worker_state''}" for k
    using upd_set_other [OF w, of k] that assms(2)
    by (simp add: finish_fields_def paths_apart_def split_paths path_get_field)
  have ne: "''worker_state'' \<noteq> field" "''task_id'' \<noteq> field" "''worker_switch_timeout'' \<noteq> field"
    using assms(3) by auto
  have state: "state_field ?d k = state_field d k"
    if "split_path p = [''worker_state'', k]" "k \<noteq> ''finished_at''" "path_get d p = state_field d k"
      "path_get ?d p = state_field ?d k" for p k
    using upd_set_other [OF w, of p] that assms(2) ne
    by (simp add: finish_fields_def paths_apart_def split_paths)
  have states: "state_field ?d ''worker_id'' = state_field d ''worker_id''"
    "state_field ?d ''claim_token'' = state_field d ''claim_token''"
    "state_field ?d ''heartbeat_at'' = state_field d ''heartbeat_at''"
    "state_field ?d ''switch_timeout_ms'' = state_field d ''switch_timeout_ms''"
    by (rule state [OF split_paths(12) _ path_gets(12) path_gets(12)], simp)
       (rule state [OF split_paths(13) _ path_gets(13) path_gets(13)], simp,
        rule state [OF split_paths(14) _ path_gets(14) path_gets(14)], simp,
        rule state [OF split_paths(16) _ path_gets(16) path_gets(16)], simp)
  have "state_field ?d ''finished_at'' = Some (BDateTime t2)"
    using upd_set_field [OF w, of "''worker_state.finished_at''" "BDateTime t2"]
    by (simp add: finish_fields_def path_gets)
  then obtain e where ws: "doc_get ?d ''worker_state'' = Some (BDocument e)"
    by (auto simp: state_field_def bind_eq_Some_conv get_document_Some)
  have typed: "doc_typed ?d"
    by (rule doc_typedI [of _ "Some st" "task_id_of d" "get_i64 d ''worker_switch_timeout''" "Some e"
          "owner_of d" "token_of d" "heartbeat_of d" "holder_timeout_of d"])
       (simp_all add: status ws frame ne states split_paths typed_fields [OF assms(1)] typed_state [OF assms(1)])
  then show ?thesis
    using frame result
    by (simp add: finished_as_def owner_of_def token_of_def heartbeat_of_def states status_of_def
        get_str_def status)
qed

lemma match_held:
  "doc_typed d \<Longrightarrow> qmatch (held_filter tid wid tok) d \<longleftrightarrow> task_id_of d = Some tid \<and> holds wid tok d"
  by (auto simp: held_filter_def match_Cons match_fields holds_def)

end

section \<open>What the writes do to the collection\<close>

definition held_task :: "string \<Rightarrow> string \<Rightarrow> string \<Rightarrow> collection \<Rightarrow> bool" where
  "held_task tid wid tok D \<longleftrightarrow> (\<exists>i d. D i = Some d \<and> task_id_of d = Some tid \<and> holds wid tok d)"

text \<open>
  One document of the task held under the token is rewritten as \<open>R\<close> allows, everything else stays.
\<close>

definition rewrites_held ::
  "(document \<Rightarrow> document \<Rightarrow> bool) \<Rightarrow> string \<Rightarrow> string \<Rightarrow> string \<Rightarrow> collection \<Rightarrow> collection \<Rightarrow> bool" where
  "rewrites_held R tid wid tok D D' \<longleftrightarrow>
     (\<exists>i d d'. D i = Some d \<and> task_id_of d = Some tid \<and> holds wid tok d \<and> R d d' \<and> D' = D(i \<mapsto> d'))"

definition owned_write ::
  "(document \<Rightarrow> document \<Rightarrow> bool) \<Rightarrow> string \<Rightarrow> string \<Rightarrow> string \<Rightarrow> 'e + bool \<Rightarrow> collection \<Rightarrow> collection \<Rightarrow> bool" where
  "owned_write R tid wid tok r D D' \<longleftrightarrow>
     (case r of
        Inl e \<Rightarrow> D' = D \<or> rewrites_held R tid wid tok D D'
      | Inr matched \<Rightarrow>
          if matched then rewrites_held R tid wid tok D D' else D' = D \<and> \<not> held_task tid wid tok D)"

lemma holds_state: "holds wid tok d \<Longrightarrow> get_document d ''worker_state'' \<noteq> None"
  by (auto simp: holds_def owner_of_def state_field_def bind_eq_Some_conv)

context mongo_server
begin

lemma update_held:
  assumes "coll_ok (docs w)"
    and "sv_update_one srv (held_filter tid wid tok) (set_update fs) False w = (r, w1)"
    and "\<And>d. doc_typed d \<Longrightarrow> holds wid tok d \<Longrightarrow> R d (upd (set_update fs) d)"
  shows "\<exists>D. rely (docs w) D \<and> coll_ok D \<and>
    owned_write R tid wid tok (case r of Inl e \<Rightarrow> Inl e | Inr res \<Rightarrow> Inr (0 < matched_count res)) D (docs w1)"
proof -
  obtain D where D: "rely (docs w) D" and spec: "case r of
      Inl e \<Rightarrow> docs w1 = D \<or>
        (\<exists>i d. updates_one qmatch upd (held_filter tid wid tok) (set_update fs) D i d (docs w1))
    | Inr res \<Rightarrow> upserted_id res = None \<and>
        (if matched_count res = 0 then docs w1 = D \<and> no_match qmatch (held_filter tid wid tok) D
         else \<exists>i d. updates_one qmatch upd (held_filter tid wid tok) (set_update fs) D i d (docs w1))"
    using update_docs [OF assms(2)] by blast
  have ok: "coll_ok D" using rely_ok [OF D assms(1)] .
  then have typed: "doc_typed d" if "D i = Some d" for i d using that by (auto simp: coll_ok_def)
  have one: "rewrites_held R tid wid tok D D'"
    if "updates_one qmatch upd (held_filter tid wid tok) (set_update fs) D i d D'" for i d D'
    using that match_held typed assms(3) unfolding rewrites_held_def updates_one_def by blast
  have none: "\<not> held_task tid wid tok D" if "no_match qmatch (held_filter tid wid tok) D"
    using that match_held typed unfolding held_task_def no_match_def by blast
  have "owned_write R tid wid tok (case r of Inl e \<Rightarrow> Inl e | Inr res \<Rightarrow> Inr (0 < matched_count res)) D (docs w1)"
    using spec one none by (auto simp: owned_write_def split: sum.splits if_splits)
  then show ?thesis using D ok by blast
qed

lemma heartbeat_spec:
  assumes "coll_ok (docs w)" and "heartbeat srv tid wid tok w = (r, w1)"
  shows "\<exists>D. rely (docs w) D \<and> coll_ok D \<and>
    owned_write (beaten (fst (sv_now srv w))) tid wid tok r D (docs w1)"
proof -
  obtain now wa where wa: "sv_now srv w = (now, wa)" by fastforce
  have same: "docs wa = docs w" by (rule now_docs [OF wa])
  let ?fs = "[(''worker_state.heartbeat_at'', BDateTime now)]"
  obtain r1 where call: "sv_update_one srv (held_filter tid wid tok) (set_update ?fs) False wa = (r1, w1)"
    and r: "r = (case r1 of Inl e \<Rightarrow> Inl (Database (error_text e)) | Inr res \<Rightarrow> Inr (0 < matched_count res))"
    using assms(2)
    by (auto simp: heartbeat_def wa set_update_def [symmetric] split: prod.splits sum.splits)
  obtain D where D: "rely (docs wa) D" "coll_ok D" and w: "owned_write (beaten now) tid wid tok
      (case r1 of Inl e \<Rightarrow> Inl e | Inr res \<Rightarrow> Inr (0 < matched_count res)) D (docs w1)"
    using update_held [OF _ call, of "beaten now"] upd_beat assms(1) same by auto
  have "owned_write (beaten now) tid wid tok r D (docs w1)"
    using w unfolding r by (cases r1) (simp_all add: owned_write_def)
  then show ?thesis using D same wa by auto
qed

lemma finish_write_spec:
  assumes "coll_ok (docs w)" and "sv_now srv w = (t1, wa)" and "sv_now srv wa = (t2, wb)"
    and "sv_update_one srv (held_filter tid wid tok) (set_update (finish_fields st field v t1 t2)) False wb = (r, w1)"
    and "field = ''task_output'' \<or> field = ''error_reason''"
  shows "\<exists>D. rely (docs w) D \<and> coll_ok D \<and>
    owned_write (finished_as st field v) tid wid tok
      (case r of Inl e \<Rightarrow> Inl e | Inr res \<Rightarrow> Inr (0 < matched_count res)) D (docs w1)"
proof -
  have same: "docs wb = docs w" using now_docs [OF assms(2)] now_docs [OF assms(3)] by simp
  have "finished_as st field v d (upd (set_update (finish_fields st field v t1 t2)) d)"
    if "doc_typed d" "holds wid tok d" for d
    using assms(5) by (intro upd_finish that(1) holds_state [OF that(2)]) (auto simp: split_paths)
  from update_held [of wb tid wid tok _ r w1 "finished_as st field v", OF _ assms(4) this] show ?thesis using assms(1) same by simp
qed

lemma fail_spec:
  assumes "coll_ok (docs w)" and "mark_task_failed srv tid wid tok reason w = w1"
  shows "\<exists>D. rely (docs w) D \<and> coll_ok D \<and>
    (rewrites_held (finished_as ''failed'' ''error_reason'' (BString reason)) tid wid tok D (docs w1) \<or>
     docs w1 = D)"
proof -
  obtain t1 wa where wa: "sv_now srv w = (t1, wa)" by fastforce
  obtain t2 wb where wb: "sv_now srv wa = (t2, wb)" by fastforce
  obtain r where call: "sv_update_one srv (held_filter tid wid tok)
      (set_update (finish_fields ''failed'' ''error_reason'' (BString reason) t1 t2)) False wb = (r, w1)"
    using assms(2) by (auto simp: mark_task_failed_def wa wb set_update_def finish_fields_def prod_eq_iff)
  from finish_write_spec [OF assms(1) wa wb call] show ?thesis
    by (auto simp: owned_write_def split: sum.splits if_splits)
qed

lemma finish_spec:
  assumes "coll_ok (docs w)" and "finish_task srv ser tid wid tok hr w = (r, w1)"
  shows "\<exists>D. rely (docs w) D \<and> coll_ok D \<and>
    (case hr of
       Inr output \<Rightarrow>
         (case ser output of
            None \<Rightarrow> r = Inl (PayloadFormat ''task_output'') \<and> w1 = w
          | Some v \<Rightarrow>
              (case r of
                 Inr u \<Rightarrow> rewrites_held (finished_as ''succeeded'' ''task_output'' v) tid wid tok D (docs w1)
               | Inl e \<Rightarrow>
                   e = WorkerGone \<and> docs w1 = D \<and> \<not> held_task tid wid tok D \<or>
                   (\<exists>m. e = Database m) \<and> (docs w1 = D \<or>
                     rewrites_held (finished_as ''succeeded'' ''task_output'' v) tid wid tok D (docs w1))))
     | Inl err \<Rightarrow> r = Inl err \<and>
         (docs w1 = D \<or> rewrites_held (finished_as ''failed'' ''error_reason''
            (BString (''handler error: '' @ err_display err))) tid wid tok D (docs w1)))"
proof (cases hr)
  case (Inl err)
  then show ?thesis
    using fail_spec [OF assms(1), of tid wid tok "''handler error: '' @ err_display err"] assms(2)
    by (auto simp: finish_task_def)
next
  case (Inr out)
  show ?thesis
  proof (cases "ser out")
    case None
    then show ?thesis using Inr assms rely_refl by (auto simp: finish_task_def)
  next
    case (Some v)
    obtain t1 wa where wa: "sv_now srv w = (t1, wa)" by fastforce
    obtain t2 wb where wb: "sv_now srv wa = (t2, wb)" by fastforce
    obtain r1 wc where call: "sv_update_one srv (held_filter tid wid tok)
        (set_update (finish_fields ''succeeded'' ''task_output'' v t1 t2)) False wb = (r1, wc)" by fastforce
    have "w1 = wc" and r: "r = (case r1 of Inl e \<Rightarrow> Inl (Database (error_text e))
        | Inr res \<Rightarrow> if matched_count res = 0 then Inl WorkerGone else Inr ())"
      using assms(2) call
      by (auto simp: finish_task_def Inr Some wa wb set_update_def finish_fields_def split: sum.splits if_splits)
    with finish_write_spec [OF assms(1) wa wb call] show ?thesis
      by (auto simp: Inr Some owned_write_def split: sum.splits if_splits)
  qed
qed

end

section \<open>The writes as protocol steps\<close>

lemma beaten_step:
  assumes "rewrites_held (beaten t) tid wid tok D D'"
  shows "\<exists>i. task_step D (Beat i wid tok) D'"
proof -
  obtain i d d' where d: "D i = Some d" "holds wid tok d" "beaten t d d'" "D' = D(i \<mapsto> d')"
    using assms by (auto simp: rewrites_held_def)
  have "holds wid tok d'" "heartbeat_of d' \<noteq> None" "keeps_input d d'"
    using d(2,3) by (auto simp: beaten_def holds_def keeps_input_def keeps_def status_of_def task_id_of_def
        get_str_def split_paths)
  then show ?thesis using d task_step.beat by blast
qed

lemma finished_step:
  assumes "rewrites_held (finished_as st field v) tid wid tok D D'"
    and "st = ''succeeded'' \<or> st = ''failed''" and "field = ''task_output'' \<or> field = ''error_reason''"
  shows "\<exists>i. task_step D (Finish i wid tok st) D'"
proof -
  obtain i d d' where d: "D i = Some d" "holds wid tok d" "finished_as st field v d d'" "D' = D(i \<mapsto> d')"
    using assms(1) by (auto simp: rewrites_held_def)
  have "status_of d' = Some st" "keeps_input d d'"
    using d(3) assms(3) by (auto simp: finished_as_def keeps_input_def keeps_def task_id_of_def
        get_str_def split_paths)
  then show ?thesis using d assms(2) task_step.finish by blast
qed

section \<open>Properties\<close>

text \<open>
  C12: a heartbeat renews exactly the lease of the claim that sends it. When it reports success, one
  document of the task, running under this worker and this token, got the new heartbeat time and
  kept everything else it says; when it reports that nothing matched, no such document existed and
  nothing changed; when the call failed, either may be the case.
\<close>

theorem heartbeat_renews_own_claim:
  assumes "mongo_server qmatch agg upd ins srv docs rely le uniq" and "coll_ok (docs w)"
    and "heartbeat srv tid wid tok w = (r, w1)"
  shows "\<exists>D. rely (docs w) D \<and>
    (case classify_heartbeat_result r of
       Alive \<Rightarrow> rewrites_held (beaten (fst (sv_now srv w))) tid wid tok D (docs w1)
     | Superseded \<Rightarrow> docs w1 = D \<and> \<not> held_task tid wid tok D
     | TransientError \<Rightarrow> docs w1 = D \<or> rewrites_held (beaten (fst (sv_now srv w))) tid wid tok D (docs w1))"
proof -
  obtain D where "rely (docs w) D" "owned_write (beaten (fst (sv_now srv w))) tid wid tok r D (docs w1)"
    using mongo_server.heartbeat_spec [OF assms] by blast
  then show ?thesis
    unfolding owned_write_def by (cases r rule: classify_heartbeat_result.cases) auto
qed

lemma demo_heartbeat:
  "\<exists>w1. heartbeat ref_server ''b'' ''w2'' ''tok-b'' (demo_world 5000) = (Inr True, w1)"
  by (simp add: heartbeat_def held_filter_def ref_eval demo_defs)

theorem heartbeat_renews_own_claim_witness:
  "\<exists>w1. heartbeat ref_server ''b'' ''w2'' ''tok-b'' (demo_world 5000) = (Inr True, w1) \<and>
     rewrites_held (beaten 5000) ''b'' ''w2'' ''tok-b'' (ref_docs (demo_world 5000)) (ref_docs w1)"
proof -
  obtain w1 where c: "heartbeat ref_server ''b'' ''w2'' ''tok-b'' (demo_world 5000) = (Inr True, w1)"
    using demo_heartbeat by blast
  have now: "fst (sv_now ref_server (demo_world 5000)) = 5000" by (simp add: ref_eval demo_defs)
  show ?thesis
    using c heartbeat_renews_own_claim [OF ref.mongo_server_axioms demo_ok c] by (simp add: now [simplified])
qed

text \<open>
  C5: a result is recorded only while its claim holds the task. When the handler succeeded and
  \<open>process_task\<close> reports success, the held document became \<open>succeeded\<close> with exactly the serialised
  output; when it reports that the worker is gone, nobody held the task under this token and nothing
  was written. When the handler failed, its error is returned, and at most the held document became
  \<open>failed\<close> with the error's message. An output that cannot be serialised writes nothing at all.
\<close>

theorem result_recorded_only_while_held:
  assumes "mongo_server qmatch agg upd ins srv docs rely le uniq" and "coll_ok (docs w)"
    and "finish_task srv ser tid wid tok hr w = (r, w1)"
  shows "\<exists>D. rely (docs w) D \<and>
    (case hr of
       Inr output \<Rightarrow>
         (case ser output of
            None \<Rightarrow> r = Inl (PayloadFormat ''task_output'') \<and> w1 = w
          | Some v \<Rightarrow>
              (case r of
                 Inr u \<Rightarrow> rewrites_held (finished_as ''succeeded'' ''task_output'' v) tid wid tok D (docs w1)
               | Inl e \<Rightarrow>
                   e = WorkerGone \<and> docs w1 = D \<and> \<not> held_task tid wid tok D \<or>
                   (\<exists>m. e = Database m) \<and> (docs w1 = D \<or>
                     rewrites_held (finished_as ''succeeded'' ''task_output'' v) tid wid tok D (docs w1))))
     | Inl err \<Rightarrow> r = Inl err \<and>
         (docs w1 = D \<or> rewrites_held (finished_as ''failed'' ''error_reason''
            (BString (''handler error: '' @ err_display err))) tid wid tok D (docs w1)))"
  using mongo_server.finish_spec [OF assms] by blast

lemma demo_finish:
  "\<exists>w1. finish_task ref_server Some ''b'' ''w2'' ''tok-b'' (Inr (BInt32 9)) (demo_world 5000) = (Inr (), w1)"
  by (simp add: finish_task_def held_filter_def ref_eval demo_defs)

theorem result_recorded_only_while_held_witness:
  "\<exists>w1. finish_task ref_server Some ''b'' ''w2'' ''tok-b'' (Inr (BInt32 9)) (demo_world 5000) = (Inr (), w1) \<and>
     rewrites_held (finished_as ''succeeded'' ''task_output'' (BInt32 9)) ''b'' ''w2'' ''tok-b''
       (ref_docs (demo_world 5000)) (ref_docs w1)"
proof -
  obtain w1 where
    c: "finish_task ref_server Some ''b'' ''w2'' ''tok-b'' (Inr (BInt32 9)) (demo_world 5000) = (Inr (), w1)"
    using demo_finish by blast
  show ?thesis
    using c result_recorded_only_while_held [OF ref.mongo_server_axioms demo_ok c] by simp
qed

end
