(* ===== verification/Job.thy ===== *)
theory Job
  imports Ownership
begin

text \<open>
  \<open>process_task\<close> and its heartbeat loop (\<open>src/worker.rs\<close>). The setup before the handler is a
  sequence of calls. From then on two tasks run concurrently, the one that awaits the handler and the
  heartbeat loop, with two one-shot channels between them; that phase is a state machine whose events
  are the possible next actions of either task, in any order the runtime may choose.
\<close>

section \<open>Timeouts\<close>

text \<open>The worker module's own copy of the function in \<open>expiry.rs\<close>.\<close>

definition task_switch_timeout :: "document \<Rightarrow> duration \<Rightarrow> duration" where
  "task_switch_timeout doc fallback =
     (let millis =
        (case get_i64 doc ''worker_switch_timeout'' of
           Some ms \<Rightarrow> Some ms
         | None \<Rightarrow>
             (case get_document doc ''worker_state'' of
                None \<Rightarrow> None
              | Some worker_state \<Rightarrow> get_i64 worker_state ''switch_timeout_ms''))
      in case Option.bind millis u64_try_from of
           None \<Rightarrow> fallback
         | Some ms \<Rightarrow> from_millis ms)"

definition heartbeat_interval :: "duration \<Rightarrow> duration" where
  "heartbeat_interval worker_switch_timeout = worker_switch_timeout div 3"

definition stale_recovery_interval :: duration where
  "stale_recovery_interval = from_secs (10 * 60)"

section \<open>Before the handler\<close>

record 'i worker_job =
  wj_task_id :: string
  wj_trace_context :: "trace_context option"
  wj_payload :: 'i

text \<open>\<open>doc.get_document("worker_state").ok().and_then(..).unwrap_or_default()\<close>.\<close>

definition claim_token_in :: "document \<Rightarrow> string" where
  "claim_token_in doc =
     (case Option.bind (get_document doc ''worker_state'') (\<lambda>ws. get_str ws ''claim_token'') of
        None \<Rightarrow> [] | Some s \<Rightarrow> s)"

text \<open>
  The inner \<open>async\<close> block. \<open>de\<close> is the deserialisation of the handler's input; the trace context is
  read where it stands and ignored when it is null or malformed.
\<close>

definition setup_task ::
  "'w server \<Rightarrow> (bson \<Rightarrow> 'i option) \<Rightarrow> ('t, 's, 'st) otel \<Rightarrow> document \<Rightarrow> string \<Rightarrow> string \<Rightarrow> string \<Rightarrow> 'w \<Rightarrow>
   (request_error + 'i \<times> trace_context option) \<times> 'w" where
  "setup_task srv de ot doc task_id worker_id claim_token w =
     (case doc_get doc ''task_input'' of
        None \<Rightarrow> (Inl (PayloadFormat ''task_input''), w)
      | Some payload_bson \<Rightarrow>
          (case de payload_bson of
             None \<Rightarrow> (Inl (PayloadFormat ''task_input''), w)
           | Some payload \<Rightarrow>
               (let trace_context =
                  (case doc_get doc ''trace_context'' of
                     None \<Rightarrow> None
                   | Some raw \<Rightarrow> if raw = BNull then None else trace_from_bson ot raw)
                in case heartbeat srv task_id worker_id claim_token w of
                     (Inl e, w1) \<Rightarrow> (Inl e, w1)
                   | (Inr False, w1) \<Rightarrow> (Inl WorkerGone, w1)
                   | (Inr True, w1) \<Rightarrow> (Inr (payload, trace_context), w1))))"

text \<open>
  Everything up to the start of the handler: an error that \<open>process_task\<close> returns, or the job with
  the claim it runs under and the task's timeout.
\<close>

definition begin_task ::
  "'w server \<Rightarrow> (bson \<Rightarrow> 'i option) \<Rightarrow> ('t, 's, 'st) otel \<Rightarrow> document \<Rightarrow> string \<Rightarrow> duration \<Rightarrow> 'w \<Rightarrow>
   (request_error + 'i worker_job \<times> string \<times> duration) \<times> 'w" where
  "begin_task srv de ot doc worker_id worker_switch_timeout w =
     (case get_str doc ''task_id'' of
        None \<Rightarrow> (Inl (PayloadFormat ''task_id''), w)
      | Some task_id \<Rightarrow>
          (let claim_token = claim_token_in doc in
           case setup_task srv de ot doc task_id worker_id claim_token w of
             (Inr (payload, trace_context), w1) \<Rightarrow>
               (Inr (\<lparr>wj_task_id = task_id, wj_trace_context = trace_context, wj_payload = payload\<rparr>,
                     claim_token, task_switch_timeout doc worker_switch_timeout), w1)
           | (Inl err, w1) \<Rightarrow>
               if err = WorkerGone then (Inl WorkerGone, w1)
               else (Inl err, mark_task_failed srv task_id worker_id claim_token
                       (''infrastructure error: '' @ err_display err) w1)))"

text \<open>The span the worker links its own to: the caller's, when the stored identifiers parse.\<close>

definition caller_link :: "('t, 's, 'st) otel \<Rightarrow> 'i worker_job \<Rightarrow> ('t, 's, 'st) span_context option" where
  "caller_link ot job = Option.bind (wj_trace_context job) (to_span_context ot)"

section \<open>Handler and heartbeat loop\<close>

text \<open>
  A \<open>oneshot\<close> channel as its receiver sees it: nothing yet, a value, or a dropped sender. Awaiting
  the receiver completes in both of the last two states.
\<close>

datatype signal = Open | Sent | Dropped

datatype phase = HandlerRunning | Finished "request_error + unit"

text \<open>
  The state of a started task: what \<open>process_task\<close> is doing, whether the heartbeat loop runs, the
  channels \<open>lost_ownership\<close> (from the loop) and \<open>hb_stop\<close> (to the loop), and the outcomes that the
  loop counted in the metric \<open>heartbeat_outcome\<close>, latest first.
\<close>

record job_state =
  js_phase :: phase
  js_beating :: bool
  js_lost :: signal
  js_stop :: signal
  js_outcomes :: "heartbeat_outcome list"

definition job_start :: job_state where
  "job_start = \<lparr>js_phase = HandlerRunning, js_beating = True, js_lost = Open, js_stop = Open,
     js_outcomes = []\<rparr>"

datatype 'o job_event =
    Tick
  | StopSeen
  | LostSeen
  | HandlerReturns "request_error + 'o"

text \<open>Leaving the loop drops its end of the channel to \<open>process_task\<close>.\<close>

definition leave_loop :: "job_state \<Rightarrow> job_state" where
  "leave_loop s = s\<lparr>js_beating := False, js_lost := (if js_lost s = Open then Dropped else js_lost s)\<rparr>"

text \<open>The branch \<open>ticker.tick()\<close> of the loop.\<close>

definition beat_step ::
  "'w server \<Rightarrow> string \<Rightarrow> string \<Rightarrow> string \<Rightarrow> job_state \<times> 'w \<Rightarrow> job_state \<times> 'w" where
  "beat_step srv task_id worker_id claim_token sw =
     (let (s, w) = sw;
          (result, w1) = heartbeat srv task_id worker_id claim_token w;
          outcome = classify_heartbeat_result result;
          s1 = s\<lparr>js_outcomes := outcome # js_outcomes s\<rparr>
      in case outcome of
           Alive \<Rightarrow> (s1, w1)
         | Superseded \<Rightarrow> (leave_loop (s1\<lparr>js_lost := Sent\<rparr>), w1)
         | TransientError \<Rightarrow> (leave_loop s1, w1))"

text \<open>
  One event; \<open>None\<close> when it cannot happen. \<open>LostSeen\<close> is the second branch of the \<open>select!\<close> in
  \<open>process_task\<close>, whose pattern takes a value and a dropped sender alike; returning from
  \<open>process_task\<close> drops the stop channel's sender.
\<close>

definition job_step ::
  "'w server \<Rightarrow> ('o \<Rightarrow> bson option) \<Rightarrow> string \<Rightarrow> string \<Rightarrow> string \<Rightarrow> 'o job_event \<Rightarrow>
   job_state \<times> 'w \<Rightarrow> (job_state \<times> 'w) option" where
  "job_step srv ser task_id worker_id claim_token ev sw =
     (let (s, w) = sw in
      case ev of
        Tick \<Rightarrow> if js_beating s then Some (beat_step srv task_id worker_id claim_token (s, w)) else None
      | StopSeen \<Rightarrow> if js_beating s \<and> js_stop s \<noteq> Open then Some (leave_loop s, w) else None
      | LostSeen \<Rightarrow>
          if js_phase s = HandlerRunning \<and> js_lost s \<noteq> Open
          then Some (s\<lparr>js_phase := Finished (Inl WorkerGone), js_stop := Dropped\<rparr>, w)
          else None
      | HandlerReturns handler_result \<Rightarrow>
          if js_phase s = HandlerRunning
          then (let (r, w1) = finish_task srv ser task_id worker_id claim_token handler_result w in
                Some (s\<lparr>js_phase := Finished r, js_stop := Sent\<rparr>, w1))
          else None)"

fun job_run ::
  "'w server \<Rightarrow> ('o \<Rightarrow> bson option) \<Rightarrow> string \<Rightarrow> string \<Rightarrow> string \<Rightarrow> 'o job_event list \<Rightarrow>
   job_state \<times> 'w \<Rightarrow> (job_state \<times> 'w) option" where
  "job_run srv ser task_id worker_id claim_token [] sw = Some sw"
| "job_run srv ser task_id worker_id claim_token (ev # evs) sw =
     Option.bind (job_step srv ser task_id worker_id claim_token ev sw)
       (job_run srv ser task_id worker_id claim_token evs)"

text \<open>
  Spawning the loop. The runtime's \<open>time::interval\<close> panics for an interval of zero; the panic ends the
  spawned task and drops its sender.
\<close>

definition start_heartbeat_loop :: "duration \<Rightarrow> job_state" where
  "start_heartbeat_loop worker_switch_timeout =
     (if heartbeat_interval worker_switch_timeout = 0 then leave_loop job_start else job_start)"

section \<open>Invariant of a started task\<close>

text \<open>
  The loop runs exactly while its channel is open; the channel says why it ended; and every outcome
  but the latest was \<open>Alive\<close>.
\<close>

definition job_inv :: "job_state \<Rightarrow> bool" where
  "job_inv s \<longleftrightarrow>
     (js_beating s \<longleftrightarrow> js_lost s = Open) \<and>
     (js_phase s = HandlerRunning \<longleftrightarrow> js_stop s = Open) \<and>
     (js_lost s = Open \<longrightarrow> list_all (\<lambda>x. x = Alive) (js_outcomes s)) \<and>
     (js_lost s = Sent \<longrightarrow> js_outcomes s \<noteq> [] \<and> hd (js_outcomes s) = Superseded) \<and>
     (js_lost s = Dropped \<longrightarrow> js_stop s \<noteq> Open \<or>
        js_outcomes s \<noteq> [] \<and> hd (js_outcomes s) = TransientError) \<and>
     list_all (\<lambda>x. x = Alive) (tl (js_outcomes s))"

lemma job_inv_start: "job_inv job_start"
  by (simp add: job_inv_def job_start_def)

lemma job_inv_beat:
  assumes "job_inv s" and "js_beating s" and "beat_step srv tid wid tok (s, w) = (s1, w1)"
  shows "job_inv s1"
proof -
  obtain r w2 where r: "heartbeat srv tid wid tok w = (r, w2)" by fastforce
  have "list_all (\<lambda>x. x = Alive) (js_outcomes s)" using assms(1,2) by (simp add: job_inv_def)
  then show ?thesis
    using assms by (cases "classify_heartbeat_result r")
      (auto simp: beat_step_def r job_inv_def leave_loop_def Let_def)
qed

lemma job_inv_step:
  assumes "job_inv s" and "job_step srv ser tid wid tok ev (s, w) = Some (s1, w1)"
  shows "job_inv s1"
proof (cases ev)
  case Tick
  then show ?thesis
    using assms job_inv_beat [OF assms(1)] by (auto simp: job_step_def split: if_splits)
next
  case StopSeen
  then show ?thesis
    using assms by (auto simp: job_step_def job_inv_def leave_loop_def split: if_splits)
next
  case LostSeen
  then show ?thesis
    using assms by (auto simp: job_step_def job_inv_def split: if_splits)
next
  case (HandlerReturns hr)
  then show ?thesis
    using assms by (auto simp: job_step_def job_inv_def split: if_splits prod.splits)
qed

lemma job_run_append:
  "job_run srv ser tid wid tok (as @ bs) sw =
    Option.bind (job_run srv ser tid wid tok as sw) (job_run srv ser tid wid tok bs)"
  by (induction as arbitrary: sw) (auto simp: fun_eq_iff intro!: arg_cong2 [where f = Option.bind])

lemma job_inv_run:
  "job_inv (fst sw) \<Longrightarrow> job_run srv ser tid wid tok evs sw = Some sw1 \<Longrightarrow> job_inv (fst sw1)"
proof (induction evs arbitrary: sw)
  case Nil
  then show ?case by simp
next
  case (Cons ev evs)
  then obtain sw2 where "job_step srv ser tid wid tok ev sw = Some sw2"
    "job_run srv ser tid wid tok evs sw2 = Some sw1" by (auto simp: bind_eq_Some_conv)
  then show ?case using Cons job_inv_step by (metis prod.collapse)
qed

text \<open>
  A task with a timeout below three nanoseconds, zero for example, has no heartbeat loop, and the dropped
  sender aborts its handler at once; any other starts with the loop running.
\<close>

lemma short_timeout_aborts:
  assumes "T < 3"
  shows "job_step srv ser tid wid tok Tick (start_heartbeat_loop T, w) = None \<and>
    (\<exists>s1. job_step srv ser tid wid tok LostSeen (start_heartbeat_loop T, w) = Some (s1, w) \<and>
      js_phase s1 = Finished (Inl WorkerGone))"
  using assms by (simp add: start_heartbeat_loop_def heartbeat_interval_def leave_loop_def job_start_def job_step_def)

lemma start_heartbeat_loop_long: "3 \<le> T \<Longrightarrow> start_heartbeat_loop T = job_start"
  by (simp add: start_heartbeat_loop_def heartbeat_interval_def)

text \<open>Whether an event ends \<open>process_task\<close>.\<close>

fun ends_task :: "'o job_event \<Rightarrow> bool" where
  "ends_task LostSeen = True"
| "ends_task (HandlerReturns r) = True"
| "ends_task _ = False"

lemma job_step_phase:
  assumes "job_step srv ser tid wid tok ev (s, w) = Some (s1, w1)"
  shows "if ends_task ev then js_phase s = HandlerRunning \<and> js_phase s1 \<noteq> HandlerRunning
    else js_phase s1 = js_phase s"
  using assms
  by (cases ev) (auto simp: job_step_def beat_step_def leave_loop_def Let_def
      split: if_splits prod.splits heartbeat_outcome.splits)

lemma job_run_finished:
  "js_phase (fst sw) \<noteq> HandlerRunning \<Longrightarrow> job_run srv ser tid wid tok evs sw = Some sw1 \<Longrightarrow>
    list_all (\<lambda>ev. \<not> ends_task ev) evs"
proof (induction evs arbitrary: sw)
  case Nil
  then show ?case by simp
next
  case (Cons ev evs)
  then obtain s2 w2 where step: "job_step srv ser tid wid tok ev (fst sw, snd sw) = Some (s2, w2)"
    and run: "job_run srv ser tid wid tok evs (s2, w2) = Some sw1" by (auto simp: bind_eq_Some_conv)
  have "\<not> ends_task ev" "js_phase s2 \<noteq> HandlerRunning"
    using job_step_phase [OF step] Cons.prems(1) by (auto split: if_splits)
  then show ?case using Cons.IH [OF _ run] by simp
qed

lemma job_run_running:
  "job_run srv ser tid wid tok evs sw = Some sw1 \<Longrightarrow> js_phase (fst sw1) = HandlerRunning \<Longrightarrow>
    list_all (\<lambda>ev. \<not> ends_task ev) evs"
proof (induction evs arbitrary: sw1 rule: rev_induct)
  case Nil
  then show ?case by simp
next
  case (snoc ev evs)
  obtain s2 w2 where run: "job_run srv ser tid wid tok evs sw = Some (s2, w2)"
    and step: "job_step srv ser tid wid tok ev (s2, w2) = Some (fst sw1, snd sw1)"
    using snoc.prems(1) by (auto simp: job_run_append bind_eq_Some_conv)
  have "\<not> ends_task ev" "js_phase s2 = HandlerRunning"
    using job_step_phase [OF step] snoc.prems(2) by (auto split: if_splits)
  then show ?case using snoc.IH [OF run] by simp
qed

lemma one_end:
  assumes "job_run srv ser tid wid tok (evs @ [ev] @ rest) sw = Some sw1" and "ends_task ev"
  shows "list_all (\<lambda>ev. \<not> ends_task ev) evs \<and> list_all (\<lambda>ev. \<not> ends_task ev) rest"
proof -
  obtain s2 w2 s3 w3 where run: "job_run srv ser tid wid tok evs sw = Some (s2, w2)"
    and step: "job_step srv ser tid wid tok ev (s2, w2) = Some (s3, w3)"
    and rest: "job_run srv ser tid wid tok rest (s3, w3) = Some sw1"
    using assms(1) by (auto simp: job_run_append bind_eq_Some_conv)
  from job_step_phase [OF step] assms(2) have "js_phase s2 = HandlerRunning" "js_phase s3 \<noteq> HandlerRunning"
    by simp_all
  then show ?thesis using job_run_running [OF run] job_run_finished [OF _ rest] by simp
qed

section \<open>A job whose claim was superseded\<close>

context mongo_server
begin

lemma owned_write_lost:
  "owned_write R tid wid tok r D D' \<Longrightarrow> \<not> held_task tid wid tok D \<Longrightarrow> D' = D \<and> r \<noteq> Inr True"
  by (auto simp: owned_write_def rewrites_held_def held_task_def split: sum.splits if_splits)

lemma heartbeat_lost:
  assumes "coll_ok (docs w)" and "heartbeat srv tid wid tok w = (r, w1)"
    and "\<And>D. rely (docs w) D \<Longrightarrow> \<not> held_task tid wid tok D"
  shows "rely (docs w) (docs w1) \<and> r \<noteq> Inr True"
  using heartbeat_spec [OF assms(1,2)] owned_write_lost assms(3) by metis

lemma fail_lost:
  assumes "coll_ok (docs w)" and "\<And>D. rely (docs w) D \<Longrightarrow> \<not> held_task tid wid tok D"
  shows "rely (docs w) (docs (mark_task_failed srv tid wid tok reason w))"
proof -
  obtain D where "rely (docs w) D" and
    "rewrites_held (finished_as ''failed'' ''error_reason'' (BString reason)) tid wid tok D
       (docs (mark_task_failed srv tid wid tok reason w)) \<or>
     docs (mark_task_failed srv tid wid tok reason w) = D"
    using fail_spec [OF assms(1) refl] by blast
  then show ?thesis using assms(2) unfolding rewrites_held_def held_task_def by metis
qed

lemma finish_lost:
  assumes "coll_ok (docs w)" and "finish_task srv ser tid wid tok hr w = (r, w1)"
    and "\<And>D. rely (docs w) D \<Longrightarrow> \<not> held_task tid wid tok D"
  shows "rely (docs w) (docs w1) \<and> r \<noteq> Inr ()"
proof -
  have no: "\<not> rewrites_held R tid wid tok D D'" if "rely (docs w) D" for R D D'
    using assms(3) [OF that] by (auto simp: rewrites_held_def held_task_def)
  show ?thesis
  proof (cases hr)
    case (Inl err)
    then show ?thesis using assms(2) fail_lost [OF assms(1,3)] by (auto simp: finish_task_def)
  next
    case (Inr out)
    then show ?thesis
      using finish_spec [OF assms(1,2)] no rely_refl
      by (cases r) (auto split: option.splits)
  qed
qed

lemma begin_lost:
  assumes "coll_ok (docs w)" and "begin_task srv de ot doc wid T w = (r, w1)"
    and "get_str doc ''task_id'' = Some tid" and "claim_token_in doc = tok"
    and "\<And>D. rely (docs w) D \<Longrightarrow> \<not> held_task tid wid tok D"
  shows "rely (docs w) (docs w1) \<and> isl r"
proof -
  obtain r1 wa where s: "setup_task srv de ot doc tid wid tok w = (r1, wa)" by fastforce
  have "rely (docs w) (docs wa) \<and> isl r1"
    using s heartbeat_lost [OF assms(1) _ assms(5)] rely_refl
    by (auto simp: setup_task_def split: option.splits prod.splits sum.splits bool.splits)
  then have a: "rely (docs w) (docs wa)" and "\<exists>e. r1 = Inl e" by (auto simp: isl_def)
  then obtain e where e: "r1 = Inl e" by blast
  have ok: "coll_ok (docs wa)" using rely_ok [OF a assms(1)] .
  have "rely (docs wa) D \<Longrightarrow> \<not> held_task tid wid tok D" for D
    using assms(5) rely_trans [OF a] by blast
  from fail_lost [OF ok this] show ?thesis
    using assms(2) a rely_trans [OF a]
    by (auto simp: begin_task_def assms(3,4) s e split: if_splits)
qed

lemma job_step_lost:
  assumes "coll_ok (docs w)" and "job_step srv ser tid wid tok ev (s, w) = Some (s1, w1)"
    and "\<And>D. rely (docs w) D \<Longrightarrow> \<not> held_task tid wid tok D"
  shows "rely (docs w) (docs w1) \<and> (js_phase s \<noteq> Finished (Inr ()) \<longrightarrow> js_phase s1 \<noteq> Finished (Inr ()))"
proof (cases ev)
  case Tick
  obtain r w2 where r: "heartbeat srv tid wid tok w = (r, w2)" by fastforce
  show ?thesis
    using assms(2) heartbeat_lost [OF assms(1) r assms(3)] Tick
    by (cases "classify_heartbeat_result r")
       (auto simp: job_step_def beat_step_def r leave_loop_def Let_def split: if_splits)
next
  case (HandlerReturns hr)
  then show ?thesis
    using assms(2) finish_lost [OF assms(1) _ assms(3)]
    by (auto simp: job_step_def split: if_splits prod.splits)
qed (use assms(2) rely_refl in \<open>auto simp: job_step_def leave_loop_def split: if_splits\<close>)

lemma job_run_lost:
  assumes "\<And>D D'. rely D D' \<Longrightarrow> \<not> held_task tid wid tok D \<Longrightarrow> \<not> held_task tid wid tok D'"
  shows "coll_ok (docs (snd sw)) \<Longrightarrow> \<not> held_task tid wid tok (docs (snd sw)) \<Longrightarrow>
    js_phase (fst sw) \<noteq> Finished (Inr ()) \<Longrightarrow> job_run srv ser tid wid tok evs sw = Some sw1 \<Longrightarrow>
    rely (docs (snd sw)) (docs (snd sw1)) \<and> js_phase (fst sw1) \<noteq> Finished (Inr ())"
proof (induction evs arbitrary: sw)
  case Nil
  then show ?case using rely_refl by simp
next
  case (Cons ev evs)
  obtain s w where sw: "sw = (s, w)" by fastforce
  obtain s2 w2 where step: "job_step srv ser tid wid tok ev (s, w) = Some (s2, w2)"
    and run: "job_run srv ser tid wid tok evs (s2, w2) = Some sw1"
    using Cons.prems(4) by (auto simp: bind_eq_Some_conv sw)
  have lost: "rely (docs w) (docs w2)" "js_phase s2 \<noteq> Finished (Inr ())"
    using job_step_lost [OF _ step] Cons.prems(1-3) assms by (auto simp: sw)
  then have "coll_ok (docs w2)" "\<not> held_task tid wid tok (docs w2)"
    using rely_ok assms Cons.prems(1,2) by (auto simp: sw)
  then have "rely (docs w2) (docs (snd sw1)) \<and> js_phase (fst sw1) \<noteq> Finished (Inr ())"
    using Cons.IH [OF _ _ _ run] lost(2) by simp
  then show ?case using rely_trans [OF lost(1)] by (simp add: sw)
qed

end

section \<open>Properties\<close>

text \<open>
  The running handler is aborted only after the heartbeat loop failed to confirm the claim: if a
  run of a started task reaches the abort, the handler had not finished, the latest heartbeat found
  the claim superseded or failed, and every earlier heartbeat had confirmed the claim.
\<close>

theorem abort_follows_failed_heartbeat:
  assumes "job_run srv ser tid wid tok (evs @ [LostSeen]) (job_start, w) = Some (s1, w1)"
  shows "js_phase s1 = Finished (Inl WorkerGone) \<and> list_all (\<lambda>ev. \<not> ends_task ev) evs \<and>
    (\<exists>outcome earlier. js_outcomes s1 = outcome # earlier \<and>
      (outcome = Superseded \<or> outcome = TransientError) \<and> list_all (\<lambda>x. x = Alive) earlier)"
proof -
  obtain s w2 where run: "job_run srv ser tid wid tok evs (job_start, w) = Some (s, w2)"
    and step: "job_step srv ser tid wid tok LostSeen (s, w2) = Some (s1, w1)"
    using assms by (auto simp: job_run_append bind_eq_Some_conv)
  have inv: "job_inv s" using job_inv_run [OF _ run] job_inv_start by simp
  have running: "js_phase s = HandlerRunning" "js_lost s \<noteq> Open"
    and s1: "s1 = s\<lparr>js_phase := Finished (Inl WorkerGone), js_stop := Dropped\<rparr>"
    using step by (auto simp: job_step_def split: if_splits)
  have "js_outcomes s \<noteq> [] \<and> (hd (js_outcomes s) = Superseded \<or> hd (js_outcomes s) = TransientError)"
    using inv running by (cases "js_lost s") (auto simp: job_inv_def)
  moreover have "list_all (\<lambda>x. x = Alive) (tl (js_outcomes s))" using inv by (simp add: job_inv_def)
  moreover have "list_all (\<lambda>ev. \<not> ends_task ev) evs"
    using job_run_running [OF run] running(1) by simp
  ultimately show ?thesis by (cases "js_outcomes s") (auto simp: s1)
qed

text \<open>The task \<open>b\<close> of the sample collection is run by its holder while the connection fails once.\<close>

definition demo_fault_world :: ref_world where
  "demo_fault_world = (demo_world 5000)\<lparr>rw_faults := [FailBefore]\<rparr>"

lemma demo_fault_heartbeat:
  "\<exists>e w1. heartbeat ref_server ''b'' ''w2'' ''tok-b'' demo_fault_world = (Inl e, w1) \<and>
     ref_docs w1 = ref_docs demo_fault_world"
  by (simp add: heartbeat_def demo_fault_world_def ref_eval demo_defs)

lemma demo_fault_job:
  "\<exists>s1 w1. job_run ref_server Some ''b'' ''w2'' ''tok-b'' ([Tick] @ [LostSeen]) (job_start, demo_fault_world) =
     Some (s1, w1)"
proof -
  obtain e w1 where "heartbeat ref_server ''b'' ''w2'' ''tok-b'' demo_fault_world = (Inl e, w1)"
    using demo_fault_heartbeat by blast
  then show ?thesis by (simp add: job_step_def beat_step_def job_start_def leave_loop_def)
qed

theorem abort_follows_failed_heartbeat_witness:
  "\<exists>s1 w1. job_run ref_server Some ''b'' ''w2'' ''tok-b'' ([Tick] @ [LostSeen]) (job_start, demo_fault_world) =
     Some (s1, w1) \<and> js_phase s1 = Finished (Inl WorkerGone)"
proof -
  obtain s1 w1 where
    run: "job_run ref_server Some ''b'' ''w2'' ''tok-b'' ([Tick] @ [LostSeen]) (job_start, demo_fault_world) =
     Some (s1, w1)"
    using demo_fault_job by blast
  show ?thesis using run abort_follows_failed_heartbeat [OF run] by blast
qed

text \<open>
  C26: one failed heartbeat call aborts the handler although the claim still holds the task. A call
  that fails before it reaches the server proves nothing about ownership, and the loop says so by not
  sending on its channel; but leaving the loop drops the sender, the waiting \<open>select!\<close> takes that for
  the signal, and \<open>process_task\<close> returns without a result and without a failure report.
\<close>

theorem transient_error_aborts_handler:
  assumes "heartbeat srv tid wid tok w = (Inl e, w1)" and "docs w1 = docs w"
    and "held_task tid wid tok (docs w)"
  shows "classify_heartbeat_result (Inl e) = TransientError \<and>
    (\<exists>s1. job_run srv ser tid wid tok [Tick, LostSeen] (job_start, w) = Some (s1, w1) \<and>
      js_phase s1 = Finished (Inl WorkerGone) \<and> held_task tid wid tok (docs w1))"
  using assms by (simp add: job_step_def beat_step_def job_start_def leave_loop_def)

lemma demo_held: "held_task ''b'' ''w2'' ''tok-b'' (ref_docs demo_fault_world)"
  by (auto simp: held_task_def demo_fault_world_def ref_eval demo_defs holds_def reader_defs
      intro!: exI [of _ "ObjectId 2"])

theorem transient_error_aborts_handler_witness:
  "\<exists>s1 w1. job_run ref_server Some ''b'' ''w2'' ''tok-b'' [Tick, LostSeen] (job_start, demo_fault_world) = Some (s1, w1) \<and>
     js_phase s1 = Finished (Inl WorkerGone) \<and> held_task ''b'' ''w2'' ''tok-b'' (ref_docs w1)"
proof -
  obtain e w1 where h: "heartbeat ref_server ''b'' ''w2'' ''tok-b'' demo_fault_world = (Inl e, w1)"
    and d: "ref_docs w1 = ref_docs demo_fault_world"
    using demo_fault_heartbeat by blast
  show ?thesis using transient_error_aborts_handler [OF h d demo_held, of Some] by blast
qed

text \<open>
  A started task ends once. In every run of its two concurrent tasks at most one event ends it,
  the handler's return or the abort; and once it has ended, the heartbeat loop can be left (its stop
  signal is there), after which no event at all is possible.
\<close>

theorem job_ends_once:
  assumes "job_run srv ser tid wid tok evs (job_start, w) = Some (s1, w1)"
  shows "length (filter ends_task evs) \<le> 1 \<and>
    (js_phase s1 \<noteq> HandlerRunning \<longrightarrow>
      (js_beating s1 \<longrightarrow> (\<exists>s2. job_step srv ser tid wid tok StopSeen (s1, w1) = Some (s2, w1) \<and> \<not> js_beating s2 \<and>
        js_phase s2 = js_phase s1)) \<and>
      (\<not> js_beating s1 \<longrightarrow> (\<forall>ev. job_step srv ser tid wid tok ev (s1, w1) = None)))"
proof -
  have "length (filter ends_task evs) \<le> 1"
  proof (cases "filter ends_task evs")
    case (Cons ev more)
    then obtain as bs where evs: "evs = as @ [ev] @ bs" and ev: "ends_task ev"
      by (auto simp: filter_eq_Cons_iff)
    have "filter ends_task as = [] \<and> filter ends_task bs = []"
      using one_end [OF _ ev] assms unfolding evs by (simp add: filter_empty_conv list_all_iff)
    then show ?thesis using ev by (simp add: evs)
  qed simp
  moreover have inv: "job_inv s1" using job_inv_run [OF _ assms] job_inv_start by simp
  have "job_step srv ser tid wid tok StopSeen (s1, w1) = Some (leave_loop s1, w1)"
    if "js_phase s1 \<noteq> HandlerRunning" "js_beating s1"
    using that inv by (simp add: job_step_def job_inv_def)
  moreover have "job_step srv ser tid wid tok ev (s1, w1) = None"
    if "js_phase s1 \<noteq> HandlerRunning" "\<not> js_beating s1" for ev
    using that by (cases ev) (simp_all add: job_step_def)
  ultimately show ?thesis by (simp add: leave_loop_def)
qed

theorem job_ends_once_witness:
  "length (filter ends_task [Tick, LostSeen :: bson job_event]) \<le> 1"
proof -
  obtain s1 w1 where
    "job_run ref_server Some ''b'' ''w2'' ''tok-b'' ([Tick] @ [LostSeen]) (job_start, demo_fault_world) = Some (s1, w1)"
    using demo_fault_job by blast
  then have run: "job_run ref_server Some ''b'' ''w2'' ''tok-b'' [Tick, LostSeen] (job_start, demo_fault_world) = Some (s1, w1)"
    by simp
  show ?thesis using job_ends_once [OF run] by blast
qed

text \<open>
  C13: a superseded job is harmless. When the claim a job runs under holds no document of the task,
  and the other clients cannot bring it back (no claim draws the same token again), then the job
  never starts its handler, and if it is already running, no event of it changes the collection and
  it never reports success.
\<close>

theorem superseded_job_is_harmless:
  assumes "mongo_server qmatch agg upd ins srv docs rely le uniq" and "coll_ok (docs w)"
    and "\<And>D D'. rely D D' \<Longrightarrow> \<not> held_task tid wid tok D \<Longrightarrow> \<not> held_task tid wid tok D'"
    and "\<not> held_task tid wid tok (docs w)"
    and "get_str doc ''task_id'' = Some tid" and "claim_token_in doc = tok"
  shows "(\<forall>r w1. begin_task srv de ot doc wid T w = (r, w1) \<longrightarrow> rely (docs w) (docs w1) \<and> isl r) \<and>
    (\<forall>evs s s1 w1. job_run srv ser tid wid tok evs (s, w) = Some (s1, w1) \<longrightarrow>
      js_phase s \<noteq> Finished (Inr ()) \<longrightarrow> rely (docs w) (docs w1) \<and> js_phase s1 \<noteq> Finished (Inr ()))"
  using mongo_server.begin_lost [OF assms(1,2) _ assms(5,6) assms(3) [OF _ assms(4)]]
    mongo_server.job_run_lost [OF assms(1,3), where sw = "(_, w)", simplified, OF _ _ assms(2,4)]
  by fastforce

theorem superseded_job_is_harmless_witness:
  "\<exists>r w1. begin_task ref_server Some demo_otel (demo_task ''running'' ''b'' (demo_state ''w2'' ''old'' 1000) 2) ''w2''
     (from_secs 10) (demo_world 5000) = (r, w1) \<and> ref_docs (demo_world 5000) = ref_docs w1 \<and> isl r"
proof -
  have lost: "\<not> held_task ''b'' ''w2'' ''old'' (ref_docs (demo_world 5000))"
    by (auto simp: held_task_def ref_eval demo_defs holds_def reader_defs split: if_splits)
  have doc: "get_str (demo_task ''running'' ''b'' (demo_state ''w2'' ''old'' 1000) 2) ''task_id'' = Some ''b''"
    "claim_token_in (demo_task ''running'' ''b'' (demo_state ''w2'' ''old'' 1000) 2) = ''old''"
    by (simp_all add: demo_defs accessor_defs claim_token_in_def bson_simps)
  show ?thesis
    using superseded_job_is_harmless [OF ref.mongo_server_axioms demo_ok _ lost doc,
        where de = Some and ot = demo_otel and T = "from_secs 10" and ser = Some]
    by (metis surj_pair)
qed

end
