(* ===== verification/Leases.thy ===== *)
theory Leases
  imports Tracker Job
begin

text \<open>
  What the tracker promises to the worker loop, and how the three places that compute a lease agree:
  the server's stale filter, the tracker's deadlines and the heartbeat interval.
\<close>

section \<open>Feeding the tracker\<close>

lemma tracker_wf_schedule: "tracker_wf t \<Longrightarrow> tracker_wf (schedule_expiration_from_task d T t)"
  by (simp add: schedule_expiration_from_task_def Let_def tracker_wf_upsert tracker_wf_mark tracker_wf_remove
      split: option.split)

lemma tracker_wf_cursor: "tracker_wf t \<Longrightarrow> tracker_wf (schedule_cursor T xs t)"
  by (induction T xs t rule: schedule_cursor.induct) (simp_all add: tracker_wf_schedule)

lemma tracker_wf_event:
  "tracker_wf t \<Longrightarrow> tracker_wf (snd (apply_change_event_to_expirations ev T t))"
  by (auto simp: apply_change_event_to_expirations_def Let_def tracker_wf_schedule tracker_wf_upsert
      tracker_wf_mark tracker_wf_remove split: operation_type.split option.split)

lemma tracker_wf_refresh:
  "tracker_wf t \<Longrightarrow> tracker_wf (fst (refresh_running_expirations srv T t w))"
  "tracker_wf t \<Longrightarrow> tracker_wf (fst (refresh_pending_tasks srv t w))"
  by (auto simp: refresh_running_expirations_def refresh_pending_tasks_def tracker_wf_cursor tracker_wf_clear
      tracker_wf_pending split: prod.split sum.split)

text \<open>
  C27: the tracker's map of tasks and its index by deadline always describe the same entries: the
  invariant holds for the new tracker and every operation keeps it, the bulk scans and the handling of
  change-stream events included; \<open>defer\<close> keeps it for a task that is not tracked, which is how the
  worker uses it after \<open>pop_due\<close>.
\<close>

theorem tracker_always_consistent:
  assumes "tracker_wf t"
  shows "tracker_wf tracker_new \<and> tracker_wf (clear_running t) \<and> tracker_wf (set_pending_may_exist b t) \<and>
    tracker_wf (mark_pending t) \<and> tracker_wf (tracker_remove i t) \<and>
    tracker_wf (tracker_upsert i tid hb timeout t) \<and>
    tracker_wf (snd (pop_due sorted_list_of_fset now t)) \<and>
    (entry t i = None \<longrightarrow> tracker_wf (defer_task now i e delay t)) \<and>
    tracker_wf (schedule_expiration_from_task d timeout t) \<and>
    tracker_wf (snd (apply_change_event_to_expirations ev timeout t)) \<and>
    tracker_wf (fst (refresh_running_expirations srv timeout t w)) \<and>
    tracker_wf (fst (refresh_pending_tasks srv t w))"
  using assms ordered.pop_due_spec(1) [OF assms surjective_pairing]
  by (simp add: tracker_wf_new tracker_wf_clear tracker_wf_pending tracker_wf_mark tracker_wf_remove
      tracker_wf_upsert tracker_wf_defer tracker_wf_schedule tracker_wf_event tracker_wf_refresh)

theorem tracker_always_consistent_witness:
  "tracker_wf (tracker_upsert (ObjectId 1) None 5 (from_secs 10) tracker_new)"
  using tracker_always_consistent [OF tracker_wf_new, where i = "ObjectId 1" and tid = None and hb = 5
      and timeout = "from_secs 10" and srv = ref_server] by blast

text \<open>
  C28: \<open>pop_due\<close> takes every entry whose deadline has come, each once, and nothing else: the others
  stay exactly as they were, in whatever order the sets of ids are iterated.
\<close>

theorem pop_due_takes_exactly_due:
  assumes "set_iteration iter" and "tracker_wf t" and "pop_due iter now t = (due, t1)"
  shows "distinct (map fst due) \<and>
    (\<forall>i e. (i, e) \<in> set due \<longleftrightarrow> entry t i = Some e \<and> (\<exists>x\<le>now. et_expires_at_ms e = Some x)) \<and>
    (\<forall>i. entry t1 i = (if \<exists>x\<le>now. expires_at t i = Some x then None else entry t i)) \<and>
    pending_may_exist t1 = pending_may_exist t \<and> tracker_wf t1"
  using set_iteration.pop_due_spec [OF assms] by blast

definition demo_tracker :: expiry_tracker where
  "demo_tracker = tracker_upsert (ObjectId 2) (Some ''b'') 1000 (from_secs 10)
     (tracker_upsert (ObjectId 3) (Some ''c'') 50000 (from_secs 10) tracker_new)"

lemma demo_tracker_wf: "tracker_wf demo_tracker"
  by (simp add: demo_tracker_def tracker_wf_upsert tracker_wf_new)

lemma demo_tracker_expires:
  "expires_at demo_tracker i =
    (if i = ObjectId 2 then Some 11000 else if i = ObjectId 3 then Some 60000 else None)"
  by (simp add: demo_tracker_def expires_at_def tracker_simps upsert_entry_def millis_or_max_def as_millis_def
      from_secs_def i64_try_from_def saturating_add_def i64_max_def i64_min_def)

theorem pop_due_takes_exactly_due_witness:
  "entry (snd (pop_due sorted_list_of_fset 20000 demo_tracker)) (ObjectId 2) = None \<and>
   entry (snd (pop_due sorted_list_of_fset 20000 demo_tracker)) (ObjectId 3) = entry demo_tracker (ObjectId 3)"
  using pop_due_takes_exactly_due [OF ordered.set_iteration_axioms demo_tracker_wf surjective_pairing]
  by (simp add: demo_tracker_expires)

text \<open>
  The worker sleeps until its first deadline, neither past it nor short of it: there is a delay
  exactly when an entry is tracked; when the delay has passed some entry is due; and every entry that
  is not yet due is due no earlier than that.
\<close>

theorem next_delay_meets_first_deadline:
  assumes "tracker_wf t" and "in_i64 now"
  shows "case next_delay now t of
      None \<Rightarrow> (\<forall>i. entry t i = None)
    | Some d \<Rightarrow> (\<exists>i x. expires_at t i = Some x \<and> x \<le> now + int (as_millis d)) \<and>
        (\<forall>i x. expires_at t i = Some x \<longrightarrow> x \<le> now \<or> now + int (as_millis d) \<le> x)"
proof (cases "next_delay now t")
  case None
  then have "expires_at t i = None" for i using next_delay_None [OF assms(1)] by blast
  then have "entry t i = None" for i
    using wf_expires [OF assms(1)] by (metis expires_at_def bind.bind_lunit not_None_eq)
  then show ?thesis using None by simp
next
  case (Some d)
  then show ?thesis using next_delay_Some [OF assms Some] by simp
qed

theorem next_delay_meets_first_deadline_witness:
  "next_delay 20000 demo_tracker \<noteq> None"
proof -
  have "entry demo_tracker (ObjectId 2) \<noteq> None"
    using demo_tracker_expires [of "ObjectId 2"] by (auto simp: expires_at_def bind_eq_Some_conv)
  moreover have "in_i64 20000" by (simp add: in_i64_def i64_max_def i64_min_def)
  ultimately show ?thesis
    using next_delay_meets_first_deadline [OF demo_tracker_wf, of 20000] by (auto split: option.splits)
qed

section \<open>Leases\<close>

lemma same_switch_timeout: "task_switch_timeout d T = expiry_task_switch_timeout d T"
  by (simp add: task_switch_timeout_def expiry_task_switch_timeout_def millis_or_def Let_def
      split: option.split)

text \<open>
  The two copies of \<open>task_switch_timeout\<close>, in the worker and in the expiry module, compute the
  same timeout for every document.
\<close>

theorem switch_timeout_copies_agree: "task_switch_timeout d T = expiry_task_switch_timeout d T"
  by (rule same_switch_timeout)

lemma switch_timeout_reads:
  "expiry_task_switch_timeout d T = millis_or T (switch_timeout_of d)"
  by (simp only: expiry_task_switch_timeout_def switch_timeout_of_def state_reads(4))

lemma heartbeat_reads: "heartbeat_from_task d = heartbeat_of d"
  by (simp add: heartbeat_from_task_def state_reads)

text \<open>
  When a lease is a non-negative number of milliseconds, the tracker and the server compute the same
  one; a default is used by both when the document names none.
\<close>

definition lease_agrees :: "duration \<Rightarrow> document \<Rightarrow> bool" where
  "lease_agrees T d \<longleftrightarrow>
     (case switch_timeout_of d of None \<Rightarrow> int (as_millis T) \<le> i64_max | Some n \<Rightarrow> 0 \<le> n \<and> n \<le> i64_max)"

lemma millis_of_lease:
  assumes "lease_agrees T d"
  shows "millis_or_max (expiry_task_switch_timeout d T) = lease_ms T d"
  using assms unfolding switch_timeout_reads lease_agrees_def lease_ms_def
  by (cases "switch_timeout_of d")
     (simp_all add: millis_or_def millis_or_max_def i64_try_from_def u64_try_from_def as_i64_exact)

text \<open>
  C29: for a running task, the deadline the tracker sets is the very moment from which the server's
  stale filter lets the task be claimed, whenever the lease is a representable number of milliseconds
  that is not negative: the local timer neither fires early nor late.
\<close>

theorem tracked_deadline_is_lease_end:
  assumes "mongo_query qmatch agg upd ins" and "doc_typed d" and "doc_id d = Some i"
    and "status_of d = Some ''running''" and "heartbeat_of d = Some h"
    and "lease_agrees T d" and "in_i64 (h + lease_ms T d)"
  shows "\<exists>x. expires_at (schedule_expiration_from_task d T t) i = Some x \<and>
    (\<forall>now. x \<le> now \<longleftrightarrow> qmatch (stale_claim_filter now T []) d)"
proof -
  have "schedule_expiration_from_task d T t =
      tracker_upsert i (get_str d ''task_id'') h (expiry_task_switch_timeout d T) t"
    using assms(3-5) by (simp add: schedule_expiration_from_task_def doc_id_def status_of_def heartbeat_reads)
  then have x: "expires_at (schedule_expiration_from_task d T t) i = Some (h + lease_ms T d)"
    using assms(7) by (simp add: expires_at_def tracker_simps upsert_entry_def millis_of_lease [OF assms(6)]
        saturating_add_exact)
  have "qmatch (stale_claim_filter now T (map BString [])) d \<longleftrightarrow> h + lease_ms T d \<le> now" for now
  proof
    assume "qmatch (stale_claim_filter now T (map BString [])) d"
    from mongo_query.match_stale [OF assms(1,2) this] show "h + lease_ms T d \<le> now"
      using assms(5,7) by (simp add: lease_expired_def)
  next
    assume "h + lease_ms T d \<le> now"
    then show "qmatch (stale_claim_filter now T (map BString [])) d"
      using mongo_query.match_staleI [OF assms(1,2,4) _ assms(5,7), of "[]" now]
      by (simp add: not_excluded_def)
  qed
  then show ?thesis using x by simp
qed

abbreviation demo_running :: document where
  "demo_running \<equiv> demo_task ''running'' ''b'' (demo_state ''w2'' ''tok-b'' 1000) 2"

lemma demo_running_facts:
  "doc_typed demo_running" "doc_id demo_running = Some (ObjectId 2)"
  "status_of demo_running = Some ''running''" "heartbeat_of demo_running = Some 1000"
  "switch_timeout_of demo_running = Some 10000"
  by (simp_all add: demo_defs doc_typed_def field_ok_def worker_state_typed_def reader_defs accessor_defs
      switch_timeout_of_def holder_timeout_of_def bson_simps)

theorem tracked_deadline_is_lease_end_witness:
  "\<exists>x. expires_at (schedule_expiration_from_task demo_running (from_secs 60) tracker_new) (ObjectId 2) = Some x \<and>
     (\<forall>now. x \<le> now \<longleftrightarrow> ref_match (stale_claim_filter now (from_secs 60) []) demo_running)"
  by (rule tracked_deadline_is_lease_end [OF refq.mongo_query_axioms demo_running_facts(1-4)])
     (simp_all add: lease_agrees_def lease_ms_def demo_running_facts in_i64_def i64_max_def i64_min_def)

text \<open>
  Three heartbeats fit into the lease. For a task just claimed, three heartbeat intervals are at
  most the lease that the server will enforce, and the interval is as long as that allows, whether the
  task brings its own timeout or the worker's default applies.
\<close>

theorem three_heartbeats_per_lease:
  assumes "claimed_as wid tok t T d0 d" and "0 \<le> lease_ms T d"
  shows "3 * heartbeat_interval (task_switch_timeout d T) \<le> from_millis (nat (lease_ms T d)) \<and>
    from_millis (nat (lease_ms T d)) < 3 * (heartbeat_interval (task_switch_timeout d T) + 1)"
proof -
  obtain n where n: "switch_timeout_of d = Some n"
    using assms(1) by (auto simp: claimed_as_def)
  then have "task_switch_timeout d T = from_millis (nat n)" "lease_ms T d = n"
    using assms(2) unfolding same_switch_timeout switch_timeout_reads
    by (simp_all add: n lease_ms_def millis_or_def u64_try_from_def)
  then show ?thesis by (simp add: heartbeat_interval_def)
qed

theorem three_heartbeats_per_lease_witness:
  "\<exists>d. 3 * heartbeat_interval (task_switch_timeout d (from_secs 10)) \<le> from_millis 10000"
proof -
  let ?before = "demo_task ''pending'' ''a'' [] 1"
  let ?after = "ref_upd (claim_update ''w1'' ''tok'' 5 (from_secs 10)) ?before"
  have "doc_typed ?before" by (simp add: demo_defs doc_typed_def field_ok_def bson_simps)
  then have claimed: "claimed_as ''w1'' ''tok'' 5 (from_secs 10) ?before ?after" by (rule refq.upd_claim)
  have "get_i64 ?before ''worker_switch_timeout'' = None"
    by (simp add: demo_defs accessor_defs bson_simps)
  then have "lease_ms (from_secs 10) ?after = 10000"
    using claimed
    by (simp add: claimed_as_def lease_ms_def as_millis_def from_secs_def as_i64_def i64_max_def)
  then show ?thesis using three_heartbeats_per_lease [OF claimed] by auto
qed

section \<open>Scans\<close>

lemma schedule_running:
  assumes "status_of d = Some ''running''"
  shows "entry (schedule_expiration_from_task d T t) i =
    (if doc_id d = Some i \<and> heartbeat_of d \<noteq> None
     then Some (upsert_entry t i (task_id_of d) (the (heartbeat_of d)) (expiry_task_switch_timeout d T))
     else entry t i)"
  using assms
  by (auto simp: schedule_expiration_from_task_def doc_id_def status_of_def task_id_of_def heartbeat_reads
      tracker_simps split: option.split)

lemma cursor_sound:
  "\<forall>d. Inr d \<in> set xs \<longrightarrow> status_of d = Some ''running'' \<Longrightarrow> entry (schedule_cursor T xs t) i \<noteq> None \<Longrightarrow>
    entry t i \<noteq> None \<or> (\<exists>d. Inr d \<in> set xs \<and> doc_id d = Some i \<and> heartbeat_of d \<noteq> None)"
proof (induction T xs t rule: schedule_cursor.induct)
  case (2 T d rest t)
  then show ?case by (auto simp: schedule_running split: if_splits)
qed simp_all

lemma cursor_complete:
  "\<forall>d\<in>set ds. status_of d = Some ''running'' \<Longrightarrow>
    entry t i \<noteq> None \<or> (\<exists>d\<in>set ds. doc_id d = Some i \<and> heartbeat_of d \<noteq> None) \<Longrightarrow>
    entry (schedule_cursor T (map Inr ds) t) i \<noteq> None"
proof (induction ds arbitrary: t)
  case (Cons d ds)
  have "entry (schedule_expiration_from_task d T t) i \<noteq> None \<or>
      (\<exists>d\<in>set ds. doc_id d = Some i \<and> heartbeat_of d \<noteq> None)"
    using Cons.prems by (auto simp: schedule_running)
  then show ?case using Cons.IH Cons.prems(1) by simp
qed simp

text \<open>
  A scan of the running tasks rebuilds the tracker. Unless the query failed, which leaves the
  tracker as it was, every task tracked afterwards was a running task with a heartbeat at some moment
  of the scan; and when the cursor was read to its end, every task that was running with a heartbeat
  throughout the scan is tracked.
\<close>

theorem scan_tracks_running_tasks:
  assumes "mongo_server qmatch agg upd ins srv docs rely le uniq" and "coll_ok (docs w)"
    and "refresh_running_expirations srv T t w = (t1, w1)"
  shows "t1 = t \<or>
    (\<forall>i. entry t1 i \<noteq> None \<longrightarrow>
      (\<exists>D d. rely (docs w) D \<and> rely D (docs w1) \<and> D i = Some d \<and> status_of d = Some ''running'' \<and>
        heartbeat_of d \<noteq> None)) \<and>
    (\<forall>ds. sv_find srv [(''status'', BString ''running'')] w = (Inr (map Inr ds), w1) \<longrightarrow>
      (\<forall>i d. (\<forall>D. rely (docs w) D \<and> rely D (docs w1) \<longrightarrow> D i = Some d) \<longrightarrow>
        status_of d = Some ''running'' \<longrightarrow> heartbeat_of d \<noteq> None \<longrightarrow> entry t1 i \<noteq> None))"
proof -
  let ?f = "[(''status'', BString ''running'')]"
  have query: "mongo_query qmatch agg upd ins" using assms(1) by (simp add: mongo_server_def)
  obtain r w2 where call: "sv_find srv ?f w = (r, w2)" by fastforce
  show ?thesis
  proof (cases r)
    case (Inl e)
    then show ?thesis using assms(3) call by (simp add: refresh_running_expirations_def)
  next
    case (Inr xs)
    have eqs: "t1 = schedule_cursor T xs (clear_running t)" "w2 = w1"
      using assms(3) call Inr by (simp_all add: refresh_running_expirations_def)
    have spec: "rely (docs w) (docs w1) \<and>
      (\<forall>d. Inr d \<in> set xs \<longrightarrow>
        (\<exists>D1 i. rely (docs w) D1 \<and> rely D1 (docs w1) \<and> D1 i = Some d \<and> qmatch ?f d)) \<and>
      ((\<forall>x\<in>set xs. isl x = False) \<longrightarrow>
        (\<forall>i d. (\<forall>D1. rely (docs w) D1 \<and> rely D1 (docs w1) \<longrightarrow> D1 i = Some d) \<and> qmatch ?f d \<longrightarrow>
           Inr d \<in> set xs))"
      using mongo_server.find_docs [OF assms(1) call]
      unfolding Inr eqs(2) sum.case .
    have typed: "doc_typed d \<and> doc_id d = Some i" if "rely (docs w) D" "D i = Some d" for D i d
      using mongo_server.rely_ok [OF assms(1) that(1) assms(2)] that(2)
      by (auto simp: coll_ok_def doc_id_def get_object_id_Some)
    have running: "qmatch ?f d \<longleftrightarrow> status_of d = Some ''running''" if "doc_typed d" for d
      using mongo_query.match_fields(1) [OF query that] .
    have yielded: "\<exists>D i. rely (docs w) D \<and> rely D (docs w1) \<and> D i = Some d \<and> doc_id d = Some i \<and>
        status_of d = Some ''running''" if "Inr d \<in> set xs" for d
      using spec that typed running by meson
    have sound: "\<exists>D d. rely (docs w) D \<and> rely D (docs w1) \<and> D i = Some d \<and> status_of d = Some ''running'' \<and>
        heartbeat_of d \<noteq> None" if "entry t1 i \<noteq> None" for i
    proof -
      have all: "\<forall>d. Inr d \<in> set xs \<longrightarrow> status_of d = Some ''running''" using yielded by blast
      have "entry (schedule_cursor T xs (clear_running t)) i \<noteq> None" using that eqs(1) by simp
      from cursor_sound [OF all this] obtain d where
        "Inr d \<in> set xs" "doc_id d = Some i" "heartbeat_of d \<noteq> None" by (auto simp: tracker_simps)
      then show ?thesis using yielded by fastforce
    qed
    have complete: "entry t1 i \<noteq> None" if xs: "xs = map Inr ds"
      and all: "\<forall>D. rely (docs w) D \<and> rely D (docs w1) \<longrightarrow> D i = Some d"
      and d: "status_of d = Some ''running''" "heartbeat_of d \<noteq> None" for ds i d
    proof -
      have "D i = Some d" if "rely (docs w) D" "rely D (docs w1)" for D using all that by blast
      then have "docs w i = Some d"
        using spec mongo_server.rely_refl [OF assms(1)] by blast
      then have td: "doc_typed d" "doc_id d = Some i"
        using typed mongo_server.rely_refl [OF assms(1)] by blast+
      have "\<forall>x\<in>set xs. isl x = False" using xs by auto
      then have "Inr d \<in> set xs" using spec all running [OF td(1)] d(1) by blast
      then have "d \<in> set ds" using xs by auto
      moreover have "\<forall>e\<in>set ds. status_of e = Some ''running''" using yielded xs by fastforce
      ultimately show ?thesis using cursor_complete [of ds "clear_running t" i T] td d(2) xs eqs(1) by blast
    qed
    have "sv_find srv ?f w = (Inr (map Inr ds), w1) \<Longrightarrow> xs = map Inr ds" for ds
      using call Inr by simp
    then show ?thesis using sound complete by blast
  qed
qed

theorem scan_tracks_running_tasks_witness:
  "entry (fst (refresh_running_expirations ref_server (from_secs 10) tracker_new (demo_world 5000))) (ObjectId 1) = None"
proof -
  let ?r = "refresh_running_expirations ref_server (from_secs 10) tracker_new (demo_world 5000)"
  have "?r = (fst ?r, snd ?r)" by simp
  from scan_tracks_running_tasks [OF ref.mongo_server_axioms demo_ok this]
  have "fst ?r = tracker_new \<or> entry (fst ?r) (ObjectId 1) = None \<or>
      (\<exists>d. ref_docs (demo_world 5000) (ObjectId 1) = Some d \<and> status_of d = Some ''running'')"
    by blast
  then show ?thesis
    by (auto simp: tracker_simps demo_docs_at demo_task_def status_of_def accessor_defs bson_simps simp del: One_nat_def)
qed

text \<open>The scans only read.\<close>

context mongo_server
begin

lemma scan_rely:
  assumes "refresh_running_expirations srv T t w = (t1, w1)"
  shows "rely (docs w) (docs w1)"
proof -
  obtain r w2 where c: "sv_find srv [(''status'', BString ''running'')] w = (r, w2)" by fastforce
  then have "w1 = w2" using assms by (cases r) (auto simp: refresh_running_expirations_def)
  then show ?thesis using find_docs [OF c] by blast
qed

lemma pending_rely:
  assumes "refresh_pending_tasks srv t w = (t1, w1)"
  shows "rely (docs w) (docs w1)"
proof -
  obtain r w2 where c: "sv_find_one srv [(''status'', BString ''pending'')] w = (r, w2)" by fastforce
  then have "w1 = w2" using assms by (cases r) (auto simp: refresh_pending_tasks_def)
  then show ?thesis using find_one_docs [OF c] by blast
qed

end

section \<open>Change-stream events\<close>

text \<open>The task an event is about, and the status it reports.\<close>

definition event_task :: "change_event \<Rightarrow> object_id option" where
  "event_task ev =
     (case operation ev of
        Insert \<Rightarrow> Option.bind (full_document ev) doc_id
      | Replace \<Rightarrow> Option.bind (full_document ev) doc_id
      | _ \<Rightarrow> event_key ev)"

definition reported_status :: "change_event \<Rightarrow> string option" where
  "reported_status ev =
     (case operation ev of
        Insert \<Rightarrow> Option.bind (full_document ev) status_of
      | Replace \<Rightarrow> Option.bind (full_document ev) status_of
      | Update \<Rightarrow> Option.bind (updated_fields ev) status_of
      | _ \<Rightarrow> None)"

lemma schedule_other:
  "doc_id d \<noteq> Some j \<Longrightarrow> entry (schedule_expiration_from_task d T t) j = entry t j"
  by (auto simp: schedule_expiration_from_task_def doc_id_def Let_def tracker_simps split: option.split)

lemma schedule_done:
  "doc_id d = Some i \<Longrightarrow> status_of d \<noteq> Some ''running'' \<Longrightarrow> status_of d \<noteq> Some ''pending'' \<Longrightarrow>
    entry (schedule_expiration_from_task d T t) i = None"
  by (simp add: schedule_expiration_from_task_def doc_id_def status_of_def tracker_simps)

lemma schedule_pending:
  "doc_id d = Some i \<Longrightarrow> status_of d = Some ''pending'' \<Longrightarrow>
    schedule_expiration_from_task d T t = mark_pending t"
  by (simp add: schedule_expiration_from_task_def doc_id_def status_of_def)

lemma mark_pending_hint: "pending_may_exist (mark_pending t)"
  by (simp add: mark_pending_def)

text \<open>
  An event of the change stream is applied to its own task only, and wakes the worker exactly for
  pending work. The result says whether the event reports the status \<open>pending\<close>, and then the hint that
  pending work may exist is set; a task reported finished or deleted is no longer tracked; every
  other task's entry is untouched.
\<close>

theorem event_updates_own_task:
  assumes "apply_change_event_to_expirations ev T t = (ready, t1)"
  shows "(ready \<longleftrightarrow> reported_status ev = Some ''pending'') \<and>
    (ready \<longrightarrow> event_task ev \<noteq> None \<longrightarrow> pending_may_exist t1) \<and>
    (\<forall>j. event_task ev \<noteq> Some j \<longrightarrow> entry t1 j = entry t j) \<and>
    (\<forall>i s. event_task ev = Some i \<longrightarrow>
      operation ev = Delete \<or> reported_status ev = Some s \<and> s \<noteq> ''running'' \<and> s \<noteq> ''pending'' \<longrightarrow>
      entry t1 i = None)"
proof (cases "operation ev")
  case Insert
  then show ?thesis
    using assms
    by (cases "full_document ev") (auto simp: apply_change_event_to_expirations_def event_task_def
        reported_status_def schedule_other schedule_done schedule_pending mark_pending_hint tracker_simps
        status_of_def [symmetric])
next
  case Replace
  then show ?thesis
    using assms
    by (cases "full_document ev") (auto simp: apply_change_event_to_expirations_def event_task_def
        reported_status_def schedule_other schedule_done schedule_pending mark_pending_hint tracker_simps
        status_of_def [symmetric])
next
  case Update
  show ?thesis
  proof (cases "updated_fields ev")
    case None
    then show ?thesis
      using assms Update
      by (auto simp: apply_change_event_to_expirations_def event_task_def reported_status_def)
  next
    case (Some updated)
    have ready: "ready \<longleftrightarrow> status_of updated = Some ''pending''"
      and t1: "t1 = (case event_key ev of None \<Rightarrow> t
        | Some i \<Rightarrow>
            if status_of updated = Some ''pending'' then mark_pending t
            else if status_of updated \<noteq> None \<and> status_of updated \<noteq> Some ''running'' then tracker_remove i t
            else case expiration_update_from_fields updated T of
              None \<Rightarrow> t | Some (h, timeout) \<Rightarrow> tracker_upsert i None h timeout t)"
      using assms Update Some
      by (simp_all add: apply_change_event_to_expirations_def Let_def status_of_def [symmetric])
    show ?thesis
      unfolding t1 ready using Update Some
      by (auto simp: event_task_def reported_status_def tracker_simps mark_pending_hint
          split: option.split)
  qed
next
  case Delete
  then show ?thesis
    using assms
    by (auto simp: apply_change_event_to_expirations_def event_task_def reported_status_def tracker_simps
        split: option.splits)
next
  case OtherOperation
  then show ?thesis
    using assms
    by (auto simp: apply_change_event_to_expirations_def event_task_def reported_status_def)
qed

definition demo_done_event :: change_event where
  "demo_done_event = \<lparr>operation = Update, full_document = None,
     document_key = Some [(''_id'', BObjectId (ObjectId 2))],
     updated_fields = Some [(''status'', BString ''succeeded'')]\<rparr>"

theorem event_updates_own_task_witness:
  "entry (snd (apply_change_event_to_expirations demo_done_event (from_secs 10) demo_tracker)) (ObjectId 2) = None"
proof -
  let ?r = "apply_change_event_to_expirations demo_done_event (from_secs 10) demo_tracker"
  have "?r = (fst ?r, snd ?r)" by simp
  from event_updates_own_task [OF this] show ?thesis
    by (simp add: demo_done_event_def event_task_def event_key_def reported_status_def status_of_def
        accessor_defs bson_simps)
qed

text \<open>
  C32: a heartbeat event makes the tracker forget the task's own timeout. The event of a heartbeat
  carries only the new heartbeat time, so the tracker falls back to this worker's default; for a task
  whose own timeout is longer, the tracked deadline then lies before the end of the lease, and the
  claim that the worker attempts at that deadline cannot match. The entry is gone after the attempt.
\<close>

theorem heartbeat_event_uses_default_timeout:
  assumes "mongo_query qmatch agg upd ins" and "doc_typed d" and "heartbeat_of d = Some h"
    and "get_i64 d ''worker_switch_timeout'' = Some n" and "int (as_millis T) < n" and "in_i64 (h + n)"
    and "n \<le> i64_max" and "in_i64 h" and "operation ev = Update" and "event_key ev = Some i"
    and "updated_fields ev = Some [(''worker_state.heartbeat_at'', BDateTime h)]"
  shows "\<exists>x. expires_at (snd (apply_change_event_to_expirations ev T t)) i = Some x \<and>
    x < h + lease_ms T d \<and> \<not> qmatch (stale_claim_filter x T (map BString ex)) d"
proof -
  have fields: "expiration_update_from_fields [(''worker_state.heartbeat_at'', BDateTime h)] T = Some (h, T)"
    by (simp add: expiration_update_from_fields_def accessor_defs bson_simps millis_or_def)
  have "snd (apply_change_event_to_expirations ev T t) = tracker_upsert i None h T t"
    using assms(9-11) fields
    by (simp add: apply_change_event_to_expirations_def Let_def accessor_defs bson_simps)
  moreover have "millis_or_max T = int (as_millis T)"
    using assms(5,7) by (simp add: millis_or_max_def i64_try_from_def)
  moreover have "in_i64 (h + int (as_millis T))"
    using assms(5,6,8) by (simp add: in_i64_def)
  ultimately have x: "expires_at (snd (apply_change_event_to_expirations ev T t)) i = Some (h + int (as_millis T))"
    by (simp add: expires_at_def tracker_simps upsert_entry_def saturating_add_exact)
  have lease: "lease_ms T d = n"
    using assms(4) by (simp add: lease_ms_def switch_timeout_of_def)
  have "\<not> qmatch (stale_claim_filter (h + int (as_millis T)) T (map BString ex)) d"
  proof
    assume "qmatch (stale_claim_filter (h + int (as_millis T)) T (map BString ex)) d"
    from mongo_query.match_stale [OF assms(1,2) this] show False
      using assms(3,5,6) by (simp add: lease_expired_def lease)
  qed
  then show ?thesis using x lease assms(5) by simp
qed

definition demo_beat_event :: change_event where
  "demo_beat_event = \<lparr>operation = Update, full_document = None,
     document_key = Some [(''_id'', BObjectId (ObjectId 2))],
     updated_fields = Some [(''worker_state.heartbeat_at'', BDateTime 1000)]\<rparr>"

abbreviation demo_long_task :: document where
  "demo_long_task \<equiv> demo_task ''running'' ''b''
     ((''worker_switch_timeout'', BInt64 60000) # demo_state ''w2'' ''tok-b'' 1000) 2"

theorem heartbeat_event_uses_default_timeout_witness:
  "\<exists>x. expires_at (snd (apply_change_event_to_expirations demo_beat_event (from_secs 10) demo_tracker)) (ObjectId 2) =
       Some x \<and> \<not> ref_match (stale_claim_filter x (from_secs 10) []) demo_long_task"
proof -
  have typed: "doc_typed demo_long_task" "heartbeat_of demo_long_task = Some 1000"
    "get_i64 demo_long_task ''worker_switch_timeout'' = Some 60000"
    by (simp_all add: demo_defs doc_typed_def field_ok_def worker_state_typed_def reader_defs accessor_defs
        bson_simps)
  show ?thesis
    using heartbeat_event_uses_default_timeout [OF refq.mongo_query_axioms typed, of "from_secs 10"
        demo_beat_event "ObjectId 2" demo_tracker "[]"]
    by (auto simp: as_millis_def from_secs_def in_i64_def i64_max_def i64_min_def demo_beat_event_def
        event_key_def accessor_defs bson_simps)
qed

end
