(* ===== verification/Watch.thy ===== *)
theory Watch
  imports Leases Config
begin

text \<open>
  The worker's change stream (\<open>src/worker.rs\<close>): the pipeline it is opened with, opening it, and when
  the deployment is refused. Opening a stream is the driver's, a parameter \<open>watch\<close>.
\<close>

section \<open>Opening the stream\<close>

text \<open>\<open>str::eq_ignore_ascii_case\<close> and \<open>str::contains\<close>.\<close>

definition ascii_lower :: "char \<Rightarrow> char" where
  "ascii_lower c = (let n = (of_char c :: nat) in if 65 \<le> n \<and> n \<le> 90 then char_of (n + 32) else c)"

definition eq_ignore_ascii_case :: "string \<Rightarrow> string \<Rightarrow> bool" where
  "eq_ignore_ascii_case a b \<longleftrightarrow> map ascii_lower a = map ascii_lower b"

definition contains_str :: "string \<Rightarrow> string \<Rightarrow> bool" where
  "contains_str s pat \<longleftrightarrow> sublist pat s"

fun is_change_stream_unsupported :: "mongo_error \<Rightarrow> bool" where
  "is_change_stream_unsupported (CommandError code code_name msg) \<longleftrightarrow>
     code \<in> {40573, 40574, 40615} \<or>
     eq_ignore_ascii_case code_name ''ChangeStreamNotSupported'' \<or>
     eq_ignore_ascii_case code_name ''Location40573''"
| "is_change_stream_unsupported error \<longleftrightarrow>
     (let msg = error_text error in
      contains_str msg ''$changeStream stage is only supported'' \<or>
      contains_str msg ''ChangeStreamNotSupported'')"

definition dotted_update_field_exists :: "string \<Rightarrow> bson" where
  "dotted_update_field_exists field =
     op_doc ''$ne'' (BArray
       [op_doc ''$type'' (op_doc ''$getField''
          (BDocument [(''input'', BString ''$updateDescription.updatedFields''), (''field'', BString field)])),
        BString ''missing''])"

definition expiry_change_stream_pipeline :: "document list" where
  "expiry_change_stream_pipeline =
     [[(''$match'', BDocument
        [(''$or'', BArray
          [BDocument [(''operationType'', op_doc ''$in''
             (BArray [BString ''insert'', BString ''replace'', BString ''delete'']))],
           BDocument
             [(''operationType'', BString ''update''),
              (''$or'', BArray
                [BDocument [(''updateDescription.updatedFields.status'', op_doc ''$exists'' (BBool True))],
                 BDocument [(''updateDescription.updatedFields.worker_state'', op_doc ''$exists'' (BBool True))],
                 BDocument [(''$expr'', dotted_update_field_exists ''worker_state.heartbeat_at'')],
                 BDocument [(''$expr'', dotted_update_field_exists ''worker_state.switch_timeout_ms'')]])]])])]]"

text \<open>
  \<open>Ok(Some(stream))\<close> is \<open>Inr True\<close>, \<open>Ok(None)\<close>, which makes the loop try again, is \<open>Inr False\<close>.
\<close>

definition unsupported_message :: string where
  "unsupported_message =
     ''change streams unsupported; MongoDB must be a replica set or sharded cluster''"

definition open_change_stream ::
  "(document list \<Rightarrow> 'w \<Rightarrow> (mongo_error + unit) \<times> 'w) \<Rightarrow> 'w \<Rightarrow> (request_error + bool) \<times> 'w" where
  "open_change_stream watch w =
     (let pipeline = expiry_change_stream_pipeline in
      case watch pipeline w of
        (Inr stream, w1) \<Rightarrow> (Inr True, w1)
      | (Inl e, w1) \<Rightarrow>
          if is_change_stream_unsupported e then (Inl (Database unsupported_message), w1)
          else (Inr False, w1))"

section \<open>What the pipeline lets through\<close>

text \<open>
  The document of a change event that the server matches against the pipeline: the fields of it that
  the pipeline reads.
\<close>

primrec operation_name :: "operation_type \<Rightarrow> string" where
  "operation_name Insert = ''insert''"
| "operation_name Replace = ''replace''"
| "operation_name Update = ''update''"
| "operation_name Delete = ''delete''"
| "operation_name OtherOperation = ''invalidate''"

definition event_doc :: "change_event \<Rightarrow> document" where
  "event_doc ev = (''operationType'', BString (operation_name (operation ev))) #
     (case updated_fields ev of
        None \<Rightarrow> []
      | Some fs \<Rightarrow> [(''updateDescription'', BDocument [(''updatedFields'', BDocument fs)])])"

text \<open>The filter of the pipeline's only stage.\<close>

definition pipeline_filter :: "document list \<Rightarrow> document" where
  "pipeline_filter stages = (case stages of
     stage # _ \<Rightarrow> (case get_document stage ''$match'' of None \<Rightarrow> [] | Some f \<Rightarrow> f) | [] \<Rightarrow> [])"

definition passes :: "(document \<Rightarrow> document \<Rightarrow> bool) \<Rightarrow> change_event \<Rightarrow> bool" where
  "passes qm ev \<longleftrightarrow> qm (pipeline_filter expiry_change_stream_pipeline) (event_doc ev)"

text \<open>
  What the pipeline relies on beyond the claims' filters: the manual's description of \<open>$getField\<close>, which
  reads a field by its literal name, of \<open>$type\<close> on a missing value, and of \<open>$ne\<close>.
\<close>

locale mongo_pipeline = mongo_query qmatch agg upd ins
  for qmatch :: "document \<Rightarrow> document \<Rightarrow> bool"
    and agg :: "bson \<Rightarrow> document \<Rightarrow> bson option"
    and upd :: "document \<Rightarrow> document \<Rightarrow> document"
    and ins :: "document \<Rightarrow> document \<Rightarrow> object_id \<Rightarrow> document" +
  assumes agg_get_field: "agg x d = Some (BDocument e) \<Longrightarrow>
      agg (op_doc ''$getField'' (BDocument [(''input'', x), (''field'', BString f)])) d = doc_get e f"
    and agg_type: "\<exists>s. agg (op_doc ''$type'' (op_doc ''$getField'' y)) d = Some (BString s) \<and>
      (s = ''missing'' \<longleftrightarrow> agg (op_doc ''$getField'' y) d = None)"
    and agg_ne: "agg (op_doc ''$ne'' (BArray [x, y])) d = Some (BBool (agg x d \<noteq> agg y d))"
    and agg_string: "s \<noteq> [] \<Longrightarrow> hd s \<noteq> CHR ''$'' \<Longrightarrow> agg (BString s) d = Some (BString s)"
begin

lemma dotted_exists:
  assumes "updated_fields ev = Some fs"
  shows "qmatch [(''$expr'', dotted_update_field_exists f)] (event_doc ev) \<longleftrightarrow> doc_get fs f \<noteq> None"
proof -
  let ?d = "event_doc ev" and ?g = "[(''$getField'',
      BDocument [(''input'', BString ''$updateDescription.updatedFields''), (''field'', BString f)])]"
  have "agg (BString ''$updateDescription.updatedFields'') ?d = Some (BDocument fs)"
    using agg_path [of "''updateDescription.updatedFields''" ?d] assms
    by (simp add: event_doc_def is_field_def plain_path_def path_get_def doc_get_Cons)
  then have g: "agg (BDocument ?g) ?d = doc_get fs f" by (rule agg_get_field)
  obtain s where s: "agg (op_doc ''$type'' (BDocument ?g)) ?d = Some (BString s)"
    "s = ''missing'' \<longleftrightarrow> agg (BDocument ?g) ?d = None"
    using agg_type by blast
  have "agg (dotted_update_field_exists f) ?d = Some (BBool (doc_get fs f \<noteq> None))"
    using s g agg_string [of "''missing''" ?d] by (simp add: dotted_update_field_exists_def agg_ne)
  then show ?thesis using match_expr by blast
qed

abbreviation updated_exists :: "string \<Rightarrow> document" where
  "updated_exists f \<equiv> [(''updateDescription.updatedFields.'' @ f, op_doc ''$exists'' (BBool True))]"

lemma passes_split:
  "passes qmatch ev \<longleftrightarrow>
    qmatch [(''operationType'', op_doc ''$in'' (BArray [BString ''insert'', BString ''replace'', BString ''delete'']))]
      (event_doc ev) \<or>
    qmatch [(''operationType'', BString ''update'')] (event_doc ev) \<and>
    (qmatch (updated_exists ''status'') (event_doc ev) \<or> qmatch (updated_exists ''worker_state'') (event_doc ev) \<or>
     qmatch [(''$expr'', dotted_update_field_exists ''worker_state.heartbeat_at'')] (event_doc ev) \<or>
     qmatch [(''$expr'', dotted_update_field_exists ''worker_state.switch_timeout_ms'')] (event_doc ev))"
proof -
  let ?d = "event_doc ev"
  let ?A = "[(''operationType'', op_doc ''$in'' (BArray [BString ''insert'', BString ''replace'', BString ''delete'']))]"
  let ?alts = "[updated_exists ''status'', updated_exists ''worker_state'',
     [(''$expr'', dotted_update_field_exists ''worker_state.heartbeat_at'')],
     [(''$expr'', dotted_update_field_exists ''worker_state.switch_timeout_ms'')]]"
  let ?B = "[(''operationType'', BString ''update''), (''$or'', BArray (map BDocument ?alts))]"
  have f: "pipeline_filter expiry_change_stream_pipeline = [(''$or'', BArray (map BDocument [?A, ?B]))]"
    by (simp add: pipeline_filter_def expiry_change_stream_pipeline_def get_document_def doc_get_Cons)
  have alts: "qmatch [(''$or'', BArray (map BDocument ?alts))] ?d \<longleftrightarrow> (\<exists>f\<in>set ?alts. qmatch f ?d)"
    by (rule match_or) simp
  have B: "qmatch ?B ?d \<longleftrightarrow> qmatch [(''operationType'', BString ''update'')] ?d \<and> (\<exists>f\<in>set ?alts. qmatch f ?d)"
    using match_all [of ?B ?d] alts by simp
  have "qmatch [(''$or'', BArray (map BDocument [?A, ?B]))] ?d \<longleftrightarrow> (\<exists>f\<in>set [?A, ?B]. qmatch f ?d)"
    by (rule match_or) simp
  then show ?thesis unfolding passes_def f using B by simp
qed

lemma operation_matches:
  "qmatch [(''operationType'', BString s)] (event_doc ev) \<longleftrightarrow> s = operation_name (operation ev)"
  using match_eq [of "''operationType''" "event_doc ev" "BString s"]
  by (auto simp: is_field_def plain_path_def path_get_def event_doc_def doc_get_Cons)

text \<open>A status or a holder's state among the updated fields is seen.\<close>

lemma updated_matches:
  assumes "updated_fields ev = Some fs" and "f = ''status'' \<or> f = ''worker_state''"
    and "doc_get fs f = Some v" and "\<And>xs. v \<noteq> BArray xs"
  shows "qmatch (updated_exists f) (event_doc ev)"
proof -
  have p: "plain_path (event_doc ev) (''updateDescription.updatedFields.'' @ f)"
    "path_get (event_doc ev) (''updateDescription.updatedFields.'' @ f) = Some v"
    using assms by (auto simp: plain_path_def path_get_def event_doc_def doc_get_Cons split: bson.split)
  show ?thesis
    using match_exists [of "''updateDescription.updatedFields.'' @ f" "event_doc ev" True] p
    by (simp add: is_field_def)
qed

lemma passes_in:
  assumes "operation ev \<in> {Insert, Replace, Delete}"
  shows "passes qmatch ev"
  unfolding passes_split
  using assms match_in [of "''operationType''" "[BString ''insert'', BString ''replace'', BString ''delete'']" "event_doc ev"]
  by (auto simp: operation_matches is_field_def)

text \<open>What an update event must say to matter to the tracker.\<close>

lemma passes_update:
  assumes "operation ev = Update" and "updated_fields ev = Some fs"
    and "get_str fs ''status'' \<noteq> None \<or> get_document fs ''worker_state'' \<noteq> None \<or>
      get_datetime fs ''worker_state.heartbeat_at'' \<noteq> None"
  shows "passes qmatch ev"
proof -
  have op: "qmatch [(''operationType'', BString ''update'')] (event_doc ev)"
    using assms(1) by (simp add: operation_matches)
  from assms(3) show ?thesis
  proof (elim disjE)
    assume "get_str fs ''status'' \<noteq> None"
    then obtain s where "doc_get fs ''status'' = Some (BString s)" by (auto simp: get_str_def bind_eq_Some_conv)
    then show ?thesis using op updated_matches [OF assms(2)] unfolding passes_split by blast
  next
    assume "get_document fs ''worker_state'' \<noteq> None"
    then obtain e where "doc_get fs ''worker_state'' = Some (BDocument e)"
      by (auto simp: get_document_def bind_eq_Some_conv)
    then show ?thesis using op updated_matches [OF assms(2)] unfolding passes_split by blast
  next
    assume "get_datetime fs ''worker_state.heartbeat_at'' \<noteq> None"
    then have "doc_get fs ''worker_state.heartbeat_at'' \<noteq> None" by (auto simp: get_datetime_def bind_eq_Some_conv)
    then show ?thesis using op dotted_exists [OF assms(2)] unfolding passes_split by blast
  qed
qed

lemma filtered_is_noop:
  assumes "\<not> passes qmatch ev"
  shows "apply_change_event_to_expirations ev T t = (False, t)"
proof (cases "operation ev")
  case Update
  show ?thesis
  proof (cases "updated_fields ev")
    case (Some fs)
    then have "get_str fs ''status'' = None" "get_document fs ''worker_state'' = None"
      "get_datetime fs ''worker_state.heartbeat_at'' = None"
      using passes_update [OF Update Some] assms by blast+
    then show ?thesis
      using Update Some
      by (simp add: apply_change_event_to_expirations_def expiration_update_from_fields_def split: option.split)
  qed (use Update in \<open>simp add: apply_change_event_to_expirations_def\<close>)
qed (use assms passes_in in \<open>simp_all add: apply_change_event_to_expirations_def\<close>)

end

interpretation refp: mongo_pipeline ref_match ref_agg ref_upd ref_ins
proof unfold_locales
  fix x y v :: bson and d e fs :: document and f s :: string
  show "ref_agg v d = Some (BDocument e) \<Longrightarrow>
      ref_agg (op_doc ''$getField'' (BDocument [(''input'', v), (''field'', BString f)])) d = doc_get e f"
    by (simp add: ref_agg.simps [of "op_doc _ _"])
  show "ref_agg (op_doc ''$ne'' (BArray [x, y])) d = Some (BBool (ref_agg x d \<noteq> ref_agg y d))"
    by (simp add: ref_agg.simps [of "op_doc _ _"])
  show "s \<noteq> [] \<Longrightarrow> hd s \<noteq> CHR ''$'' \<Longrightarrow> ref_agg (BString s) d = Some (BString s)"
    by (cases s) (simp_all add: ref_agg.simps)
  show "\<exists>s. ref_agg (op_doc ''$type'' (op_doc ''$getField'' y)) d = Some (BString s) \<and>
      (s = ''missing'' \<longleftrightarrow> ref_agg (op_doc ''$getField'' y) d = None)"
    by (simp add: ref_agg.simps [of "op_doc ''$type'' _"] ref_type_def split: option.split bson.split)
qed

section \<open>Properties\<close>

text \<open>
  The pipeline hides nothing that the worker needs. A change event that the server's \<open>$match\<close> stage
  filters out would not have changed the expiry tracker and would not have asked for a claim: in
  particular every status change, every claim and every heartbeat, whose updated field has a dot in its
  literal name, gets through.
\<close>

theorem filtered_events_are_irrelevant:
  assumes "mongo_pipeline qmatch agg upd ins" and "\<not> passes qmatch ev"
  shows "apply_change_event_to_expirations ev T t = (False, t)"
  by (rule mongo_pipeline.filtered_is_noop [OF assms])

definition demo_quiet_event :: change_event where
  "demo_quiet_event = \<lparr>operation = Update, full_document = None,
     document_key = Some [(''_id'', BObjectId (ObjectId 2))],
     updated_fields = Some [(''task_output'', BInt32 9)]\<rparr>"

lemma demo_quiet: "\<not> passes ref_match demo_quiet_event"
  unfolding refp.passes_split
  by (simp add: refp.operation_matches refp.dotted_exists [of _ "[(''task_output'', BInt32 9)]"] demo_quiet_event_def
      doc_get_Cons doc_get_Nil)
     (simp add: ref_eval event_doc_def is_field_def)

theorem filtered_events_are_irrelevant_witness:
  "\<not> passes ref_match demo_quiet_event \<and>
     apply_change_event_to_expirations demo_quiet_event (from_secs 10) demo_tracker = (False, demo_tracker)"
  using filtered_events_are_irrelevant [OF refp.mongo_pipeline_axioms demo_quiet] demo_quiet by blast

end
