(* ===== verification/Pump.thy ===== *)
theory Pump
  imports Leases "HOL-Library.List_Lexorder" "HOL-Library.Char_ord"
begin

text \<open>
  Claiming and starting tasks inside one worker (\<open>src/worker.rs\<close>): the registry of tasks in flight, the
  permits of the semaphore, and the two loops that claim tasks and start them. A started task is
  represented by its id and document in the join set; \<open>Job\<close> models what it then does.
\<close>

section \<open>State\<close>

text \<open>
  The registry is a hash set; \<open>snapshot\<close> lists it in an order that is not fixed, a parameter \<open>snap\<close>.
\<close>

record pool =
  in_flight :: "string fset"
  permits :: nat
  join_set :: "(string \<times> document) list"

definition registry_contains :: "string \<Rightarrow> pool \<Rightarrow> bool" where
  "registry_contains task_id p \<longleftrightarrow> task_id |\<in>| in_flight p"

definition registry_snapshot :: "(string fset \<Rightarrow> string list) \<Rightarrow> pool \<Rightarrow> string list" where
  "registry_snapshot snap p = snap (in_flight p)"

definition registry_insert :: "string \<Rightarrow> pool \<Rightarrow> bool \<times> pool" where
  "registry_insert task_id p =
     (task_id |\<notin>| in_flight p, p\<lparr>in_flight := finsert task_id (in_flight p)\<rparr>)"

definition registry_remove :: "string \<Rightarrow> pool \<Rightarrow> pool" where
  "registry_remove task_id p = p\<lparr>in_flight := in_flight p |-| {|task_id|}\<rparr>"

definition registry_len :: "pool \<Rightarrow> nat" where
  "registry_len p = fcard (in_flight p)"

definition release :: "pool \<Rightarrow> pool" where
  "release p = p\<lparr>permits := permits p + 1\<rparr>"

text \<open>\<open>try_acquire_owned\<close>.\<close>

definition try_acquire :: "pool \<Rightarrow> pool option" where
  "try_acquire p = (if permits p = 0 then None else Some (p\<lparr>permits := permits p - 1\<rparr>))"

text \<open>The pool holds one permit less on entry; an unstarted task drops the permit it was given.\<close>

definition spawn_claimed_task :: "document \<Rightarrow> string \<Rightarrow> pool \<Rightarrow> pool" where
  "spawn_claimed_task task task_id p =
     (let (inserted, p1) = registry_insert task_id p in
      if \<not> inserted then release p
      else p1\<lparr>join_set := join_set p1 @ [(task_id, task)]\<rparr>)"

text \<open>A started task ends: its guard leaves the registry and its permit is released.\<close>

definition task_ended :: "nat \<Rightarrow> pool \<Rightarrow> pool" where
  "task_ended k p =
     (if k < length (join_set p)
      then release (registry_remove (fst (join_set p ! k))
             (p\<lparr>join_set := take k (join_set p) @ drop (Suc k) (join_set p)\<rparr>))
      else p)"

definition task_id_or_default :: "document \<Rightarrow> string" where
  "task_id_or_default task = (case get_str task ''task_id'' of None \<Rightarrow> [] | Some s \<Rightarrow> s)"

section \<open>The pumps\<close>

text \<open>
  One round of the \<open>loop\<close> of \<open>pump_available_tasks\<close>. The first component says whether the loop goes on; it is
  left by \<open>break\<close> when there is no permit, no task, or an error.
\<close>

definition claim_round ::
  "'w server \<Rightarrow> (string fset \<Rightarrow> string list) \<Rightarrow> string \<Rightarrow> duration \<Rightarrow> claim_mode \<Rightarrow> document option \<Rightarrow>
   pool \<Rightarrow> expiry_tracker \<Rightarrow> 'w \<Rightarrow> bool \<times> pool \<times> expiry_tracker \<times> 'w" where
  "claim_round srv snap worker_id T claim_mode so p t w =
     (case try_acquire p of
        None \<Rightarrow> (False, p, t, w)
      | Some p1 \<Rightarrow>
          (let excluded = registry_snapshot snap p1 in
           case claim_next_task srv worker_id T excluded claim_mode so w of
             (Inr (Some task), w1) \<Rightarrow>
               (let t1 = schedule_expiration_from_task task T t;
                    task_id = task_id_or_default task
                in (True, spawn_claimed_task task task_id p1, t1, w1))
           | (Inr None, w1) \<Rightarrow>
               (False, release p1, if claim_mode = Ready then set_pending_may_exist False t else t, w1)
           | (Inl e, w1) \<Rightarrow> (False, release p1, t, w1)))"

text \<open>One round of the \<open>for\<close> loop of \<open>pump_expired_tasks\<close>, for one entry that \<open>pop_due\<close> returned.\<close>

definition expired_round ::
  "'w server \<Rightarrow> (string fset \<Rightarrow> string list) \<Rightarrow> string \<Rightarrow> duration \<Rightarrow> object_id \<times> expiring_task \<Rightarrow>
   pool \<Rightarrow> expiry_tracker \<Rightarrow> 'w \<Rightarrow> bool \<times> pool \<times> expiry_tracker \<times> 'w" where
  "expired_round srv snap worker_id T x p t w =
     (let (i, expiring_task) = x in
      if (case et_task_id expiring_task of None \<Rightarrow> False | Some task_id \<Rightarrow> registry_contains task_id p)
      then (True, p, t, w)
      else
        (case try_acquire p of
           None \<Rightarrow>
             (let (now, w1) = sv_now srv w in (False, p, defer_task now i expiring_task (from_secs 1) t, w1))
         | Some p1 \<Rightarrow>
             (let excluded = registry_snapshot snap p1 in
              case claim_expired_task_by_id srv i worker_id T (et_task_id expiring_task) excluded w of
                (Inr (Some task), w1) \<Rightarrow>
                  (let t1 = schedule_expiration_from_task task T t;
                       task_id = task_id_or_default task
                   in (True, spawn_claimed_task task task_id p1, t1, w1))
              | (Inr None, w1) \<Rightarrow> (True, release p1, t, w1)
              | (Inl e, w1) \<Rightarrow> (True, release p1, t, w1))))"

text \<open>
  While a round awaits its claim, started tasks go on and end, and give their permits back. What such an end
  changes, the round has already read or does not touch, so it is one event between two rounds. A visit of a
  pump is given by its events; it has a result when they are exactly the events from its start to its end.
  Nothing in the code bounds the number of rounds.
\<close>

datatype visit_event = Round | Ends nat

fun pump_loop ::
  "visit_event list \<Rightarrow> 'w server \<Rightarrow> (string fset \<Rightarrow> string list) \<Rightarrow> string \<Rightarrow> duration \<Rightarrow> claim_mode \<Rightarrow>
   document option \<Rightarrow> pool \<Rightarrow> expiry_tracker \<Rightarrow> 'w \<Rightarrow> (pool \<times> expiry_tracker \<times> 'w) option" where
  "pump_loop [] srv snap worker_id T claim_mode so p t w = None"
| "pump_loop (Ends k # evs) srv snap worker_id T claim_mode so p t w =
     (if k < length (join_set p) then pump_loop evs srv snap worker_id T claim_mode so (task_ended k p) t w else None)"
| "pump_loop (Round # evs) srv snap worker_id T claim_mode so p t w =
     (let (goes_on, p1, t1, w1) = claim_round srv snap worker_id T claim_mode so p t w in
      if goes_on then pump_loop evs srv snap worker_id T claim_mode so p1 t1 w1
      else if evs = [] then Some (p1, t1, w1)
      else None)"

definition pump_available_tasks ::
  "visit_event list \<Rightarrow> 'w server \<Rightarrow> (string fset \<Rightarrow> string list) \<Rightarrow> string \<Rightarrow> duration \<Rightarrow> claim_mode \<Rightarrow>
   document option \<Rightarrow> pool \<Rightarrow> expiry_tracker \<Rightarrow> 'w \<Rightarrow> (pool \<times> expiry_tracker \<times> 'w) option" where
  "pump_available_tasks evs srv snap worker_id T claim_mode so p t w =
     pump_loop evs srv snap worker_id T claim_mode so p t w"

fun expired_loop ::
  "visit_event list \<Rightarrow> 'w server \<Rightarrow> (string fset \<Rightarrow> string list) \<Rightarrow> string \<Rightarrow> duration \<Rightarrow>
   (object_id \<times> expiring_task) list \<Rightarrow> pool \<Rightarrow> expiry_tracker \<Rightarrow> 'w \<Rightarrow> (pool \<times> expiry_tracker \<times> 'w) option" where
  "expired_loop evs srv snap worker_id T [] p t w = (if evs = [] then Some (p, t, w) else None)"
| "expired_loop [] srv snap worker_id T (x # rest) p t w = None"
| "expired_loop (Ends k # evs) srv snap worker_id T (x # rest) p t w =
     (if k < length (join_set p) then expired_loop evs srv snap worker_id T (x # rest) (task_ended k p) t w else None)"
| "expired_loop (Round # evs) srv snap worker_id T (x # rest) p t w =
     (let (goes_on, p1, t1, w1) = expired_round srv snap worker_id T x p t w in
      if goes_on then expired_loop evs srv snap worker_id T rest p1 t1 w1
      else if evs = [] then Some (p1, t1, w1)
      else None)"

definition pump_expired_tasks ::
  "visit_event list \<Rightarrow> 'w server \<Rightarrow> (object_id fset \<Rightarrow> object_id list) \<Rightarrow> (string fset \<Rightarrow> string list) \<Rightarrow> string \<Rightarrow>
   duration \<Rightarrow> pool \<Rightarrow> expiry_tracker \<Rightarrow> 'w \<Rightarrow> (pool \<times> expiry_tracker \<times> 'w) option" where
  "pump_expired_tasks evs srv iter snap worker_id T p t w =
     (let (now, w1) = sv_now srv w;
          (due, t1) = pop_due iter now t
      in expired_loop evs srv snap worker_id T due p t1 w1)"

section \<open>The cases of a round\<close>

lemma acquired: "try_acquire p = Some p1 \<Longrightarrow> join_set p1 = join_set p \<and> in_flight p1 = in_flight p \<and> permits p = permits p1 + 1"
  by (auto simp: try_acquire_def split: if_splits)

lemma released: "try_acquire p = Some p1 \<Longrightarrow> release p1 = p"
  by (cases p) (auto simp: try_acquire_def release_def split: if_splits)

lemma claim_roundE:
  assumes "claim_round srv snap wid T mode so p t w = (goes_on, p1, t1, w1)"
  obtains (full) "permits p = 0" "\<not> goes_on" "p1 = p" "t1 = t" "w1 = w"
  | (starts) p2 task where "try_acquire p = Some p2" "goes_on"
      "claim_next_task srv wid T (snap (in_flight p)) mode so w = (Inr (Some task), w1)"
      "p1 = spawn_claimed_task task (task_id_or_default task) p2" "t1 = schedule_expiration_from_task task T t"
  | (none) "permits p \<noteq> 0" "\<not> goes_on" "claim_next_task srv wid T (snap (in_flight p)) mode so w = (Inr None, w1)"
      "p1 = p" "t1 = (if mode = Ready then set_pending_may_exist False t else t)"
  | (fails) e where "permits p \<noteq> 0" "\<not> goes_on"
      "claim_next_task srv wid T (snap (in_flight p)) mode so w = (Inl e, w1)" "p1 = p" "t1 = t"
proof (cases "try_acquire p")
  case None
  then have "claim_round srv snap wid T mode so p t w = (False, p, t, w)" by (simp add: claim_round_def)
  moreover have "permits p = 0" using None by (simp add: try_acquire_def split: if_splits)
  ultimately show ?thesis using assms full by simp
next
  case (Some p2)
  note a = acquired [OF Some] released [OF Some]
  obtain r w2 where c: "claim_next_task srv wid T (snap (in_flight p)) mode so w = (r, w2)" by fastforce
  have round: "claim_round srv snap wid T mode so p t w =
    (case r of
       Inr (Some task) \<Rightarrow> (True, spawn_claimed_task task (task_id_or_default task) p2, schedule_expiration_from_task task T t, w2)
     | Inr None \<Rightarrow> (False, p, if mode = Ready then set_pending_may_exist False t else t, w2)
     | Inl e \<Rightarrow> (False, p, t, w2))"
    using a c by (cases r) (auto simp: claim_round_def Some registry_snapshot_def Let_def split: option.split)
  show ?thesis
  proof (cases r)
    case (Inl e)
    then have r: "\<not> goes_on" "p1 = p" "t1 = t" "w1 = w2" using assms unfolding round by simp_all
    show ?thesis by (rule fails [of e]) (use r c a Inl in simp_all)
  next
    case (Inr found)
    show ?thesis
    proof (cases found)
      case None
      then have r: "\<not> goes_on" "p1 = p" "t1 = (if mode = Ready then set_pending_may_exist False t else t)" "w1 = w2"
        using assms Inr unfolding round by simp_all
      show ?thesis by (rule none) (use r c a Inr None in simp_all)
    next
      case (Some task)
      then have r: "goes_on" "p1 = spawn_claimed_task task (task_id_or_default task) p2"
          "t1 = schedule_expiration_from_task task T t" "w1 = w2"
        using assms Inr unfolding round by simp_all
      show ?thesis by (rule starts) (use r c Inr Some \<open>try_acquire p = Some p2\<close> in simp_all)
    qed
  qed
qed

lemma expired_roundE:
  assumes "expired_round srv snap wid T (i, e) p t w = (goes_on, p1, t1, w1)"
  obtains (skips) s where "et_task_id e = Some s" "s |\<in>| in_flight p" "goes_on" "p1 = p" "t1 = t" "w1 = w"
  | (full) now where "\<not> (\<exists>s. et_task_id e = Some s \<and> s |\<in>| in_flight p)" "permits p = 0" "\<not> goes_on" "p1 = p"
      "sv_now srv w = (now, w1)" "t1 = defer_task now i e (from_secs 1) t"
  | (starts) p2 task where "try_acquire p = Some p2" "goes_on"
      "claim_expired_task_by_id srv i wid T (et_task_id e) (snap (in_flight p)) w = (Inr (Some task), w1)"
      "p1 = spawn_claimed_task task (task_id_or_default task) p2" "t1 = schedule_expiration_from_task task T t"
  | (leaves) r where "permits p \<noteq> 0" "goes_on"
      "claim_expired_task_by_id srv i wid T (et_task_id e) (snap (in_flight p)) w = (r, w1)"
      "\<And>task. r \<noteq> Inr (Some task)" "p1 = p" "t1 = t"
proof (cases "\<exists>s. et_task_id e = Some s \<and> s |\<in>| in_flight p")
  case True
  then obtain s where s: "et_task_id e = Some s" "s |\<in>| in_flight p" by blast
  then have "expired_round srv snap wid T (i, e) p t w = (True, p, t, w)"
    by (simp add: expired_round_def registry_contains_def)
  then show ?thesis using assms skips [OF s] by simp
next
  case free: False
  then have out: "\<not> (case et_task_id e of None \<Rightarrow> False | Some task_id \<Rightarrow> registry_contains task_id p)"
    by (auto simp: registry_contains_def split: option.splits)
  show ?thesis
  proof (cases "try_acquire p")
    case None
    obtain now w2 where now: "sv_now srv w = (now, w2)" by fastforce
    then have "expired_round srv snap wid T (i, e) p t w = (False, p, defer_task now i e (from_secs 1) t, w2)"
      using None out by (simp add: expired_round_def)
    moreover have "permits p = 0" using None by (simp add: try_acquire_def split: if_splits)
    ultimately show ?thesis using assms full [OF free] now by simp
  next
    case (Some p2)
    note a = acquired [OF Some] released [OF Some]
    obtain r w2 where c: "claim_expired_task_by_id srv i wid T (et_task_id e) (snap (in_flight p)) w = (r, w2)"
      by fastforce
    have round: "expired_round srv snap wid T (i, e) p t w =
      (case r of
         Inr (Some task) \<Rightarrow>
           (True, spawn_claimed_task task (task_id_or_default task) p2, schedule_expiration_from_task task T t, w2)
       | _ \<Rightarrow> (True, p, t, w2))"
      using a c out
      by (cases r) (auto simp: expired_round_def Some registry_snapshot_def Let_def split: option.split)
    show ?thesis
    proof (cases "\<exists>task. r = Inr (Some task)")
      case True
      then obtain task where task: "r = Inr (Some task)" by blast
      then have r: "goes_on" "p1 = spawn_claimed_task task (task_id_or_default task) p2"
          "t1 = schedule_expiration_from_task task T t" "w1 = w2"
        using assms unfolding round by simp_all
      show ?thesis by (rule starts) (use r c task Some in simp_all)
    next
      case False
      then have "expired_round srv snap wid T (i, e) p t w = (True, p, t, w2)"
        unfolding round by (auto split: sum.split option.split)
      then have r: "goes_on" "p1 = p" "t1 = t" "w1 = w2" using assms by simp_all
      show ?thesis by (rule leaves) (use r c a False in auto)
    qed
  qed
qed

section \<open>Permits and the registry\<close>

text \<open>
  Every permit is free or held by one started task, and the registry holds exactly the ids of the
  started tasks, which are all different.
\<close>

definition pool_inv :: "nat \<Rightarrow> pool \<Rightarrow> bool" where
  "pool_inv m p \<longleftrightarrow> permits p + length (join_set p) = m \<and> distinct (map fst (join_set p)) \<and>
     fset (in_flight p) = fst ` set (join_set p)"

definition pool_new :: "nat \<Rightarrow> pool" where
  "pool_new m = \<lparr>in_flight = {||}, permits = m, join_set = []\<rparr>"

lemma pool_inv_start: "pool_inv m (pool_new m)"
  by (simp add: pool_inv_def pool_new_def)

lemma pool_inv_spawn:
  assumes "pool_inv m p" and "try_acquire p = Some p1"
  shows "pool_inv m (spawn_claimed_task task tid p1)"
proof (cases "tid |\<in>| in_flight p")
  case True
  then have "spawn_claimed_task task tid p1 = p"
    using acquired [OF assms(2)] released [OF assms(2)] by (simp add: spawn_claimed_task_def registry_insert_def)
  then show ?thesis using assms(1) by simp
next
  case False
  then have "tid \<notin> fst ` set (join_set p)" using assms(1) by (simp add: pool_inv_def)
  then show ?thesis
    using assms False
    by (simp add: try_acquire_def pool_inv_def spawn_claimed_task_def registry_insert_def split: if_splits) force
qed

lemma pool_inv_ended:
  assumes "pool_inv m p"
  shows "pool_inv m (task_ended k p)"
proof (cases "k < length (join_set p)")
  case True
  let ?x = "join_set p ! k" and ?a = "take k (join_set p)" and ?b = "drop (Suc k) (join_set p)"
  have split: "join_set p = ?a @ ?x # ?b" using True by (rule id_take_nth_drop)
  then have "distinct (map fst (?a @ ?x # ?b))" using assms unfolding pool_inv_def by metis
  then have d: "distinct (map fst (?a @ ?b))" and x: "fst ?x \<notin> fst ` set (?a @ ?b)" by auto
  have "fst ` set (join_set p) = insert (fst ?x) (fst ` set (?a @ ?b))"
    by (subst split) auto
  then have "fset (in_flight p) - {fst ?x} = fst ` set (?a @ ?b)"
    using assms x by (auto simp: pool_inv_def)
  moreover have "length (?a @ ?b) = length (join_set p) - 1" using True by simp
  ultimately show ?thesis
    using assms d True by (simp add: pool_inv_def task_ended_def release_def registry_remove_def)
qed (use assms in \<open>simp add: task_ended_def\<close>)

lemma claim_round_inv:
  assumes "claim_round srv snap wid T mode so p t w = (goes_on, p1, t1, w1)"
  shows "pool_inv m p \<Longrightarrow> pool_inv m p1" and "tracker_wf t \<Longrightarrow> tracker_wf t1"
proof -
  show "pool_inv m p1" if "pool_inv m p"
    using assms by (rule claim_roundE) (use that pool_inv_spawn in auto)
  show "tracker_wf t1" if "tracker_wf t"
    using assms by (rule claim_roundE) (use that in \<open>auto simp: tracker_wf_schedule tracker_wf_pending\<close>)
qed

lemma expired_round_pool:
  assumes "expired_round srv snap wid T x p t w = (goes_on, p1, t1, w1)" and "pool_inv m p"
  shows "pool_inv m p1"
proof -
  obtain i e where x: "x = (i, e)" by fastforce
  show ?thesis using assms(1) [unfolded x] by (rule expired_roundE) (use assms(2) pool_inv_spawn in auto)
qed

lemma pool_inv_pump:
  "pump_loop evs srv snap wid T mode so p t w = Some (p1, t1, w1) \<Longrightarrow> pool_inv m p \<Longrightarrow> pool_inv m p1"
proof (induction evs arbitrary: p t w)
  case (Cons ev evs)
  show ?case
  proof (cases ev)
    case Round
    obtain g p2 t2 w2 where r: "claim_round srv snap wid T mode so p t w = (g, p2, t2, w2)" using prod_cases4 by blast
    show ?thesis
      using Cons Round r claim_round_inv(1) [OF r Cons.prems(2)] by (auto split: if_splits)
  qed (use Cons pool_inv_ended in \<open>auto split: if_splits\<close>)
qed simp

lemma pool_inv_expired:
  "expired_loop evs srv snap wid T due p t w = Some (p1, t1, w1) \<Longrightarrow> pool_inv m p \<Longrightarrow> pool_inv m p1"
proof (induction evs srv snap wid T due p t w rule: expired_loop.induct)
  case (4 evs srv snap wid T x rest p t w)
  obtain g p2 t2 w2 where r: "expired_round srv snap wid T x p t w = (g, p2, t2, w2)" using prod_cases4 by blast
  show ?case using 4 r expired_round_pool [OF r 4(3)] by (auto split: if_splits)
qed (use pool_inv_ended in \<open>auto split: if_splits\<close>)

section \<open>Termination and draining\<close>

text \<open>Every task document carries its task id, as every writer of the collection ensures.\<close>

definition ids_ok :: "collection \<Rightarrow> bool" where
  "ids_ok D \<longleftrightarrow> (\<forall>i d. D i = Some d \<longrightarrow> task_id_of d \<noteq> None)"

text \<open>The other clients name the task of every document too.\<close>

definition ids_kept :: "(collection \<Rightarrow> collection \<Rightarrow> bool) \<Rightarrow> bool" where
  "ids_kept rely \<longleftrightarrow> (\<forall>D D'. rely D D' \<longrightarrow> ids_ok D \<longrightarrow> ids_ok D')"

lemma spawned_task:
  assumes "permits (spawn_claimed_task task tid p) = permits p"
  shows "length (join_set (spawn_claimed_task task tid p)) = length (join_set p) + 1"
  using assms by (auto simp: spawn_claimed_task_def registry_insert_def release_def Let_def split: if_splits)

context mongo_server
begin

lemma claim_next_takes:
  assumes "coll_ok (docs w)" and "claim_next_task srv wid T ex mode so w = (Inr (Some task), w1)"
  shows "\<exists>D i d. rely (docs w) D \<and> coll_ok D \<and> D i = Some d \<and> not_excluded ex d \<and> keeps d task \<and>
    docs w1 = D(i \<mapsto> task)"
proof (cases mode)
  case Ready
  obtain D where D: "rely (docs w) D" "coll_ok D" and cases:
    "claim_outcome (is_pending ex) (least_of le so (is_pending ex) D) wid (token_drawn srv w) T
       (Inr (Some task)) D (docs w1) \<or>
     (\<exists>D1. rely D D1 \<and> coll_ok D1 \<and>
        claim_outcome (is_own_running wid ex) (\<lambda>d. True) wid (token_drawn srv w) T (Inr (Some task)) D1 (docs w1))"
    using claim_ready [OF assms(1) assms(2) [unfolded Ready]] by blast
  from cases show ?thesis
  proof (elim disjE exE conjE)
    assume "claim_outcome (is_pending ex) (least_of le so (is_pending ex) D) wid (token_drawn srv w) T
       (Inr (Some task)) D (docs w1)"
    then show ?thesis
      using D claimed_as_keeps keeps_inputD unfolding claim_outcome_def by (simp add: is_pending_def) blast
  next
    fix D1 assume "rely D D1" "coll_ok D1"
      and "claim_outcome (is_own_running wid ex) (\<lambda>d. True) wid (token_drawn srv w) T (Inr (Some task)) D1 (docs w1)"
    then show ?thesis
      using rely_trans [OF D(1)] claimed_as_keeps keeps_inputD
      unfolding claim_outcome_def by (simp add: is_own_running_def) blast
  qed
next
  case StaleRecovery
  let ?P = "qmatch (stale_claim_filter (fst (sv_now srv w)) T (map BString ex))"
  obtain D where D: "rely (docs w) D" "coll_ok D"
    and "claim_outcome ?P (least_of le so ?P D) wid (token_drawn srv w) T (Inr (Some task)) D (docs w1)"
    using claim_stale [OF assms(1) assms(2) [unfolded StaleRecovery] refl] by blast
  moreover have "not_excluded ex d" if "D i = Some d" "?P d" for i d
    using that D(2) match_stale [OF _ that(2)] by (auto simp: coll_ok_def)
  ultimately show ?thesis
    using claimed_as_keeps keeps_inputD unfolding claim_outcome_def by simp blast
qed

lemma claim_next_ok:
  assumes "coll_ok (docs w)" and "claim_next_task srv wid T ex mode so w = (r, w1)"
  shows "coll_ok (docs w1)"
  using claim_next_step [OF assms] task_step_ok rely_ok assms(1) by metis

text \<open>One round that claims a task starts it, so it keeps the permit it took.\<close>

lemma round_takes_permit:
  assumes "coll_ok (docs w)" and "claim_next_task srv wid T (snap (in_flight p)) mode so w = (Inr (Some task), w1)"
    and "\<And>S. set (snap S) = fset S" and "ids_ok (docs w)" and "\<And>D D'. rely D D' \<Longrightarrow> ids_ok D \<Longrightarrow> ids_ok D'"
  shows "permits (spawn_claimed_task task (task_id_or_default task) p) = permits p" and "ids_ok (docs w1)"
proof -
  obtain D i d where D: "rely (docs w) D" "D i = Some d" "not_excluded (snap (in_flight p)) d" "keeps d task"
    "docs w1 = D(i \<mapsto> task)"
    using claim_next_takes [OF assms(1,2)] by blast
  have ids: "ids_ok D" using assms(5) [OF D(1) assms(4)] .
  obtain s where s: "task_id_of d = Some s" using ids D(2) by (auto simp: ids_ok_def)
  then have task: "task_id_of task = Some s" using D(4) by (simp add: keeps_def)
  then have "task_id_or_default task = s" by (simp add: task_id_or_default_def task_id_of_def)
  moreover have "s |\<notin>| in_flight p" using D(3) s assms(3) by (auto simp: not_excluded_def)
  ultimately show "permits (spawn_claimed_task task (task_id_or_default task) p) = permits p"
    by (simp add: spawn_claimed_task_def registry_insert_def)
  show "ids_ok (docs w1)" using ids task D(5) by (auto simp: ids_ok_def)
qed

lemma ids_ok_claim: "task_step D (ClaimTask i wid tok) D' \<Longrightarrow> ids_ok D \<Longrightarrow> ids_ok D'"
  by (erule claim_stepE) (auto simp: ids_ok_def keeps_input_def keeps_def)

text \<open>A round of the claiming loop that goes on has started a task, and kept the permit it took.\<close>

lemma claim_round_ok:
  assumes "claim_round srv snap wid T mode so p t w = (goes_on, p1, t1, w1)" and "coll_ok (docs w)"
  shows "coll_ok (docs w1)"
  using assms(1) by (rule claim_roundE) (use claim_next_ok [OF assms(2)] assms(2) in auto)

lemma claim_round_permits:
  assumes round: "claim_round srv snap wid T mode so p t w = (goes_on, p1, t1, w1)" and ok: "coll_ok (docs w)" "ids_ok (docs w)"
    and snap: "\<And>S. set (snap S) = fset S" and kept: "ids_kept rely"
  shows "ids_ok (docs w1) \<and> (goes_on \<longrightarrow> permits p = permits p1 + 1 \<and> length (join_set p1) = length (join_set p) + 1)"
proof -
  have claimed: "ids_ok (docs w1)" if cl: "claim_next_task srv wid T ex mode so w = (r, w1)" for ex r
  proof -
    obtain D where "rely (docs w) D" "docs w1 = D \<or> (\<exists>i. task_step D (ClaimTask i wid (token_drawn srv w)) (docs w1))"
      using claim_next_step [OF ok(1) cl] by blast
    then show ?thesis using kept ok(2) ids_ok_claim unfolding ids_kept_def by metis
  qed
  show ?thesis using round
  proof (rule claim_roundE)
    fix p2 task
    assume a: "try_acquire p = Some p2" "p1 = spawn_claimed_task task (task_id_or_default task) p2"
      and c: "claim_next_task srv wid T (snap (in_flight p)) mode so w = (Inr (Some task), w1)"
    have c2: "claim_next_task srv wid T (snap (in_flight p2)) mode so w = (Inr (Some task), w1)"
      using c acquired [OF a(1)] by simp
    have "permits p1 = permits p2"
      using round_takes_permit(1) [OF ok(1) c2 snap ok(2)] kept unfolding a(2) ids_kept_def by blast
    then show ?thesis
      using spawned_task a claimed [OF c] acquired [OF a(1)] by (auto simp: a(2))
  qed (use claimed ok(2) in auto)
qed

text \<open>How a visit of the claiming loop ends: without a permit, or with a claim that failed or found nothing.\<close>

lemma claim_round_drains:
  assumes "claim_round srv snap wid T Ready so p t w = (False, p1, t1, w1)" and ok: "coll_ok (docs w)"
    and snap: "\<And>S. set (snap S) = fset S"
  shows "permits p1 = 0 \<or> (\<exists>e. claim_next_task srv wid T (snap (in_flight p1)) Ready so w = (Inl e, w1)) \<or>
    pending_may_exist t1 = False \<and>
    (\<exists>D. rely (docs w) D \<and> rely D (docs w1) \<and> (\<forall>i d. D i = Some d \<longrightarrow> status_of d = Some ''pending'' \<longrightarrow>
       (\<exists>s. task_id_of d = Some s \<and> s |\<in>| in_flight p1)))"
  using assms(1)
proof (rule claim_roundE)
  assume c: "claim_next_task srv wid T (snap (in_flight p)) Ready so w = (Inr None, w1)" and p1: "p1 = p"
    and t1: "t1 = (if Ready = Ready then set_pending_may_exist False t else t)"
  obtain D where "rely (docs w) D" "rely D (docs w1)" "\<forall>i d. D i = Some d \<longrightarrow> \<not> is_pending (snap (in_flight p)) d"
    using claim_ready [OF ok c] unfolding claim_outcome_def by auto
  then have "\<exists>D. rely (docs w) D \<and> rely D (docs w1) \<and> (\<forall>i d. D i = Some d \<longrightarrow> status_of d = Some ''pending'' \<longrightarrow>
      (\<exists>s. task_id_of d = Some s \<and> s |\<in>| in_flight p1))"
    unfolding p1 by (simp add: is_pending_def not_excluded_def snap) blast
  then show ?thesis using t1 by (simp add: set_pending_may_exist_def)
qed auto

text \<open>The scan for abandoned work leaves no expired lease behind while there are permits.\<close>

lemma claim_round_recovers:
  assumes "claim_round srv snap wid T StaleRecovery so p t w = (False, p1, t1, w1)" and ok: "coll_ok (docs w)"
    and snap: "\<And>S. set (snap S) = fset S"
  shows "permits p1 = 0 \<or> (\<exists>e. claim_next_task srv wid T (snap (in_flight p1)) StaleRecovery so w = (Inl e, w1)) \<or>
    claim_next_task srv wid T (snap (in_flight p1)) StaleRecovery so w = (Inr None, w1) \<and>
    (\<forall>i d h. docs w1 i = Some d \<longrightarrow> status_of d = Some ''running'' \<longrightarrow> heartbeat_of d = Some h \<longrightarrow>
       in_i64 (h + lease_ms T d) \<longrightarrow> h + lease_ms T d \<le> fst (sv_now srv w) \<longrightarrow>
       (\<exists>s. task_id_of d = Some s \<and> s |\<in>| in_flight p1))"
  using assms(1)
proof (rule claim_roundE)
  assume c: "claim_next_task srv wid T (snap (in_flight p)) StaleRecovery so w = (Inr None, w1)" and p1: "p1 = p"
  have "\<exists>s. task_id_of d = Some s \<and> s |\<in>| in_flight p1"
    if d: "docs w1 i = Some d" "status_of d = Some ''running''" "heartbeat_of d = Some h" "in_i64 (h + lease_ms T d)"
        "h + lease_ms T d \<le> fst (sv_now srv w)" for i d h
  proof (rule ccontr)
    assume "\<not> (\<exists>s. task_id_of d = Some s \<and> s |\<in>| in_flight p1)"
    then have free: "not_excluded (snap (in_flight p)) d" by (simp add: not_excluded_def snap p1) blast
    obtain D where "coll_ok D" and "claim_outcome (qmatch (stale_claim_filter (fst (sv_now srv w)) T
        (map BString (snap (in_flight p))))) (least_of le so (qmatch (stale_claim_filter (fst (sv_now srv w)) T
        (map BString (snap (in_flight p))))) D) wid (token_drawn srv w) T (Inr None) D (docs w1)"
      using claim_stale [OF ok c refl] by blast
    then have "docs w1 = D" and "\<not> qmatch (stale_claim_filter (fst (sv_now srv w)) T (map BString (snap (in_flight p)))) d"
      using d(1) by (auto simp: claim_outcome_def)
    then show False
      using match_staleI [OF _ d(2) free d(3,4,5)] \<open>coll_ok D\<close> d(1) by (auto simp: coll_ok_def)
  qed
  then show ?thesis using c p1 by simp
qed auto

end

section \<open>Expired tasks\<close>

text \<open>
  Without a free permit, and when no started task ends meanwhile, the loop passes over the entries whose tasks
  run here, puts back the first other one and leaves the rest of the popped ones.
\<close>

definition runs_here :: "pool \<Rightarrow> expiring_task \<Rightarrow> bool" where
  "runs_here p e \<longleftrightarrow> (\<exists>s. et_task_id e = Some s \<and> s |\<in>| in_flight p)"

lemma expired_loop_full:
  "expired_loop evs srv snap wid T due p t w = Some (p1, t1, w1) \<Longrightarrow> permits p = 0 \<Longrightarrow> set evs \<subseteq> {Round} \<Longrightarrow>
    p1 = p \<and>
    ((\<forall>(i, e)\<in>set due. runs_here p e) \<and> t1 = t \<or>
     (\<exists>i e. (i, e) \<in> set due \<and> \<not> runs_here p e \<and> t1 = defer_task (fst (sv_now srv w)) i e (from_secs 1) t))"
proof (induction evs srv snap wid T due p t w rule: expired_loop.induct)
  case (4 evs srv snap wid T x rest p t w)
  obtain i e where x: "x = (i, e)" by fastforce
  obtain g p2 t2 w2 where r: "expired_round srv snap wid T x p t w = (g, p2, t2, w2)" using prod_cases4 by blast
  show ?case using r [unfolded x]
  proof (rule expired_roundE)
    fix s
    assume s: "et_task_id e = Some s" "s |\<in>| in_flight p" "g" "p2 = p" "t2 = t" "w2 = w"
    have "expired_loop evs srv snap wid T rest p t w = Some (p1, t1, w1)" using 4(2) r s by simp
    then show ?thesis using 4(1) [OF r [symmetric] refl refl refl _] 4(3,4) s x by (auto simp: runs_here_def)
  next
    fix now
    assume "\<not> (\<exists>s. et_task_id e = Some s \<and> s |\<in>| in_flight p)" "\<not> g" "p2 = p" "sv_now srv w = (now, w2)"
      "t2 = defer_task now i e (from_secs 1) t"
    then show ?thesis using 4(2) r x by (auto simp: runs_here_def split: if_splits)
  qed (use 4(3) acquired in auto)
qed (auto split: if_splits)

text \<open>The entries that are left to a visit are not tracked.\<close>

definition left_over :: "(object_id \<times> expiring_task) list \<Rightarrow> expiry_tracker \<Rightarrow> bool" where
  "left_over due t \<longleftrightarrow> distinct (map fst due) \<and> (\<forall>i\<in>fst ` set due. entry t i = None)"

context mongo_server
begin

lemma claim_by_id_takes:
  assumes "coll_ok (docs w)" and "claim_expired_task_by_id srv i wid T tid ex w = (r, w1)"
  shows "coll_ok (docs w1) \<and> (\<forall>task. r = Inr (Some task) \<longrightarrow> doc_id task = Some i)"
proof (cases "\<exists>s. tid = Some s \<and> s \<in> set ex")
  case True
  then show ?thesis using assms by (auto simp: claim_expired_task_by_id_def)
next
  case False
  then have tid: "\<And>s. tid = Some s \<Longrightarrow> s \<notin> set ex" by blast
  let ?P = "qmatch (let f = doc_insert (stale_claim_filter (fst (sv_now srv w)) T (map BString ex)) ''_id''
       (BObjectId i) in case tid of None \<Rightarrow> f | Some s \<Rightarrow> doc_insert f ''task_id'' (BString s))"
  obtain D where D: "rely (docs w) D" "coll_ok D"
    and o: "claim_outcome ?P (\<lambda>d. True) wid (token_drawn srv w) T r D (docs w1)"
    using claim_by_id [OF assms refl tid] by blast
  have id: "doc_id task = Some i" if r: "r = Inr (Some task)" for task
  proof -
    obtain j d t where d: "D j = Some d" "?P d" "claimed_as wid (token_drawn srv w) t T d task"
      using o unfolding r claim_outcome_def by auto
    have "doc_typed d" "doc_get d ''_id'' = Some (BObjectId j)" using d(1) D(2) by (auto simp: coll_ok_def)
    then have "j = i" and "doc_get task ''_id'' = Some (BObjectId j)"
      using match_by_id [OF _ _ d(2) tid] d(3) claimed_as_keeps [OF d(3)]
      by (auto simp: keeps_input_def keeps_def)
    then show ?thesis by (simp add: doc_id_def get_object_id_Some)
  qed
  have "coll_ok (docs w1)"
    using claim_by_id_step [OF assms] task_step_ok rely_ok assms(1) by metis
  then show ?thesis using id by blast
qed

lemma expired_round_tracker:
  assumes round: "expired_round srv snap wid T x p t w = (goes_on, p1, t1, w1)" and ok: "coll_ok (docs w)"
    and wf: "tracker_wf t" "left_over (x # rest) t"
  shows "coll_ok (docs w1) \<and> tracker_wf t1 \<and> (goes_on \<longrightarrow> left_over rest t1)"
proof -
  obtain i e where x: "x = (i, e)" by fastforce
  have rest: "left_over rest t" and i: "entry t i = None" "i \<notin> fst ` set rest"
    using wf(2) by (auto simp: left_over_def x)
  show ?thesis using round [unfolded x]
  proof (rule expired_roundE)
    fix now
    assume "sv_now srv w = (now, w1)" "\<not> goes_on" "t1 = defer_task now i e (from_secs 1) t"
    then show ?thesis using now_docs ok wf(1) i by (simp add: tracker_wf_defer)
  next
    fix p2 task
    assume c: "claim_expired_task_by_id srv i wid T (et_task_id e) (snap (in_flight p)) w = (Inr (Some task), w1)"
      and t1: "t1 = schedule_expiration_from_task task T t"
    note took = claim_by_id_takes [OF ok c]
    have "entry t1 j = None" if "j \<in> fst ` set rest" for j
    proof -
      have "doc_id task \<noteq> Some j" using took that i(2) by auto
      then show ?thesis using rest that by (auto simp: t1 schedule_other left_over_def)
    qed
    then show ?thesis using took rest tracker_wf_schedule [OF wf(1)] by (simp add: left_over_def t1)
  qed (use claim_by_id_takes [OF ok] ok wf(1) rest in auto)
qed

lemma claim_by_id_free:
  assumes "coll_ok (docs w)" and "claim_expired_task_by_id srv i wid T tid ex w = (Inr (Some task), w1)"
  shows "not_excluded ex task \<and> (\<exists>j. docs w1 j = Some task)"
proof -
  have tid: "s \<notin> set ex" if "tid = Some s" for s using that assms(2) by (auto simp: claim_expired_task_by_id_def)
  let ?P = "qmatch (let f = doc_insert (stale_claim_filter (fst (sv_now srv w)) T (map BString ex)) ''_id''
       (BObjectId i) in case tid of None \<Rightarrow> f | Some s \<Rightarrow> doc_insert f ''task_id'' (BString s))"
  obtain D where D: "coll_ok D"
    and o: "claim_outcome ?P (\<lambda>d. True) wid (token_drawn srv w) T (Inr (Some task)) D (docs w1)"
    using claim_by_id [OF assms refl tid] by blast
  obtain j d t where d: "D j = Some d" "?P d" "claimed_as wid (token_drawn srv w) t T d task"
    and stored: "docs w1 j = Some task"
    using o unfolding claim_outcome_def by auto
  have "doc_typed d" "doc_get d ''_id'' = Some (BObjectId j)" using d(1) D by (auto simp: coll_ok_def)
  then have "not_excluded ex d" using match_by_id [OF _ _ d(2) tid] by blast
  then show ?thesis
    using claimed_as_keeps [OF d(3)] stored by (auto simp: not_excluded_def keeps_input_def keeps_def)
qed

lemma claim_by_id_ids:
  assumes "coll_ok (docs w)" "ids_ok (docs w)" and "ids_kept rely"
    and "claim_expired_task_by_id srv i wid T tid ex w = (r, w1)"
  shows "ids_ok (docs w1)"
proof -
  obtain D where "rely (docs w) D" "docs w1 = D \<or> (\<exists>j. task_step D (ClaimTask j wid (token_drawn srv w)) (docs w1))"
    using claim_by_id_step [OF assms(1,4)] by blast
  then show ?thesis using assms(2,3) ids_ok_claim unfolding ids_kept_def by metis
qed

lemma expired_round_docs:
  assumes round: "expired_round srv snap wid T x p t w = (goes_on, p1, t1, w1)" and ok: "coll_ok (docs w)" "ids_ok (docs w)"
    and kept: "ids_kept rely"
  shows "coll_ok (docs w1) \<and> ids_ok (docs w1)"
proof -
  obtain i e where x: "x = (i, e)" by fastforce
  show ?thesis using round [unfolded x]
    by (rule expired_roundE) (use ok now_docs claim_by_id_takes [OF ok(1)] claim_by_id_ids [OF ok kept] in auto)
qed

lemma expired_claim_starts:
  assumes ok: "coll_ok (docs w)" "ids_ok (docs w)" and snap: "\<And>S. set (snap S) = fset S" and kept: "ids_kept rely"
    and p2: "try_acquire p = Some p2"
    and c: "claim_expired_task_by_id srv i wid T tid (snap (in_flight p)) w = (Inr (Some task), w1)"
  shows "permits p = permits (spawn_claimed_task task (task_id_or_default task) p2) + 1 \<and>
    length (join_set (spawn_claimed_task task (task_id_or_default task) p2)) = length (join_set p) + 1"
proof -
  obtain j where j: "not_excluded (snap (in_flight p)) task" "docs w1 j = Some task"
    using claim_by_id_free [OF ok(1) c] by blast
  obtain s where s: "task_id_of task = Some s" using claim_by_id_ids [OF ok kept c] j(2) by (auto simp: ids_ok_def)
  have "s |\<notin>| in_flight p2" "task_id_or_default task = s"
    using j(1) s snap acquired [OF p2] by (auto simp: not_excluded_def task_id_or_default_def task_id_of_def)
  then have "permits (spawn_claimed_task task (task_id_or_default task) p2) = permits p2"
    by (simp add: spawn_claimed_task_def registry_insert_def)
  then show ?thesis using spawned_task acquired [OF p2] by auto
qed

end

section \<open>Properties\<close>

text \<open>
  A worker never runs more tasks than its limit and never two with the same id. Every permit is
  free or held by one started task, the registry lists exactly the started tasks and these have
  different ids; both pumps and the end of a task keep this, whatever the claims return, so the count
  of running tasks that the worker reports is the number of started tasks and at most the limit.
\<close>

theorem capacity_respected:
  assumes "pool_inv m p"
  shows "(\<forall>p1 t1 w1. pump_available_tasks evs srv snap wid T mode so p t w = Some (p1, t1, w1) \<longrightarrow> pool_inv m p1) \<and>
    (\<forall>p1 t1 w1. pump_expired_tasks evs srv iter snap wid T p t w = Some (p1, t1, w1) \<longrightarrow> pool_inv m p1) \<and>
    pool_inv m (task_ended k p) \<and>
    registry_len p = length (join_set p) \<and> length (join_set p) \<le> m"
proof -
  have "fcard (in_flight p) = length (join_set p)"
    using assms distinct_card [of "map fst (join_set p)"] by (simp add: pool_inv_def fcard.rep_eq)
  moreover have "length (join_set p) \<le> m" using assms by (auto simp: pool_inv_def)
  moreover have "pool_inv m p1"
    if "pump_expired_tasks evs srv iter snap wid T p t w = Some (p1, t1, w1)" for p1 t1 w1
    using that pool_inv_expired [OF _ assms] by (auto simp: pump_expired_tasks_def split: prod.splits)
  ultimately show ?thesis
    using pool_inv_pump [OF _ assms] pool_inv_ended [OF assms]
    by (auto simp: pump_available_tasks_def registry_len_def)
qed

theorem capacity_respected_witness:
  "pool_inv 3 (task_ended 0 (pool_new 3)) \<and> registry_len (pool_new 3) \<le> 3"
  using capacity_respected [OF pool_inv_start [of 3], where srv = ref_server] by (metis)

lemma demo_ids: "ids_ok (ref_docs (demo_world t))"
  by (auto simp: ids_ok_def ref_eval demo_defs reader_defs split: if_splits)

lemma sorted_snap: "set (sorted_list_of_fset S) = fset S"
  by simp

lemma demo_round_none:
  "claim_round ref_server sorted_list_of_fset ''w1'' (from_secs 10) Ready None (pool_new 2) tracker_new (ref_world_of [] 5) =
   (False, pool_new 2, tracker_new, (ref_world_of [] 5)\<lparr>rw_clock := 7, rw_uuids := 1\<rparr>)"
  by (simp add: claim_round_def try_acquire_def pool_new_def registry_snapshot_def release_def
      claim_next_task_def ready_filters_def claim_with_filter_def claim_update_def ref_eval
      set_pending_may_exist_def tracker_new_def sorted_list_of_fset_simps)

text \<open>
  C33: a saturated worker forgets expired tasks. When the timer fires while no permit is free, and none is given
  back before the pump has looked, all due entries are taken out of the tracker. If all their tasks run in this
  worker, they stay out. Otherwise one whose task does not run here is put back, to be due a second later, and
  every other task whose lease ran out is no longer tracked by this worker at all.
\<close>

theorem saturated_worker_forgets_expired:
  assumes "set_iteration iter" and "tracker_wf t" and "permits p = 0" and "sv_now srv w = (now, w0)"
    and "pump_expired_tasks evs srv iter snap wid T p t w = Some (p1, t1, w1)" and "set evs \<subseteq> {Round}"
  shows "p1 = p \<and>
    ((\<forall>i e. entry t i = Some e \<longrightarrow> entry_due now e \<longrightarrow> runs_here p e \<and> entry t1 i = None) \<or>
     (\<exists>k e. entry t k = Some e \<and> entry_due now e \<and> \<not> runs_here p e \<and>
        entry t1 k = Some (e\<lparr>et_expires_at_ms := Some (saturating_add (fst (sv_now srv w0)) 1000)\<rparr>) \<and>
        (\<forall>i x. entry t i = Some x \<longrightarrow> entry_due now x \<longrightarrow> i \<noteq> k \<longrightarrow> entry t1 i = None)))"
proof -
  obtain due t0 where pop: "pop_due iter now t = (due, t0)" by fastforce
  have loop: "expired_loop evs srv snap wid T due p t0 w0 = Some (p1, t1, w1)"
    using assms(4,5) pop by (simp add: pump_expired_tasks_def)
  note queue = set_iteration.tracker_queue [OF assms(1)]
  note taken = deadline_queue.pop_taken [OF queue assms(2) pop]
  have gone: "entry t0 i = None" if "(i, e) \<in> set due" for i e
    using deadline_queue.popped_not_tracked [OF queue assms(2) pop] that by force
  from expired_loop_full [OF loop assms(3,6)] have p1: "p1 = p"
    and cases: "(\<forall>(i, e)\<in>set due. runs_here p e) \<and> t1 = t0 \<or>
      (\<exists>i e. (i, e) \<in> set due \<and> \<not> runs_here p e \<and> t1 = defer_task (fst (sv_now srv w0)) i e (from_secs 1) t0)" by auto
  from cases show ?thesis
  proof (elim disjE exE conjE)
    assume "\<forall>(i, e)\<in>set due. runs_here p e" "t1 = t0"
    then show ?thesis using p1 taken gone by fastforce
  next
    fix k e
    assume k: "(k, e) \<in> set due" "\<not> runs_here p e" and t1: "t1 = defer_task (fst (sv_now srv w0)) k e (from_secs 1) t0"
    have "entry t1 k = Some (deferred (fst (sv_now srv w0)) e (from_secs 1))" by (simp add: t1 entry_defer)
    then have "entry t1 k = Some (e\<lparr>et_expires_at_ms := Some (saturating_add (fst (sv_now srv w0)) 1000)\<rparr>)"
      by (simp add: deferred_def millis_or_max_def from_secs_def as_millis_def i64_try_from_def in_i64_def i64_max_def i64_min_def)
    moreover have "entry t1 i = None" if "entry t i = Some x" "entry_due now x" "i \<noteq> k" for i x
      using gone [of i x] taken that by (simp add: t1 entry_defer)
    ultimately show ?thesis using p1 k taken by blast
  qed
qed

lemma demo_saturated:
  "\<exists>p1 t1 w1. pump_expired_tasks [Round] ref_server sorted_list_of_fset sorted_list_of_fset ''w1'' (from_secs 10)
     (pool_new 0) demo_tracker (demo_world 70000) = Some (p1, t1, w1)"
proof -
  obtain due t0 where pop: "pop_due sorted_list_of_fset 70000 demo_tracker = (due, t0)" by fastforce
  have now: "sv_now ref_server (demo_world 70000) = (70000, snd (sv_now ref_server (demo_world 70000)))"
    by (simp add: ref_eval demo_defs)
  have "\<exists>e. entry demo_tracker (ObjectId 2) = Some e \<and> entry_due 70000 e"
    using demo_tracker_expires [of "ObjectId 2"] by (auto simp: expires_at_def entry_due_def bind_eq_Some_conv)
  then have "due \<noteq> []" using expiry_queue.pop_taken [OF demo_tracker_wf pop] by auto
  then obtain i e rest where "due = (i, e) # rest" by (metis list.exhaust surj_pair)
  then show ?thesis
    by (subst pump_expired_tasks_def, subst now)
      (auto simp: pop expired_round_def pool_new_def registry_contains_def try_acquire_def split: prod.splits option.splits)
qed

theorem saturated_worker_forgets_expired_witness:
  "\<exists>p1 t1 w1. pump_expired_tasks [Round] ref_server sorted_list_of_fset sorted_list_of_fset ''w1'' (from_secs 10)
       (pool_new 0) demo_tracker (demo_world 70000) = Some (p1, t1, w1) \<and>
     (entry t1 (ObjectId 2) = None) \<noteq> (entry t1 (ObjectId 3) = None)"
proof -
  obtain p1 t1 w1 where r: "pump_expired_tasks [Round] ref_server sorted_list_of_fset sorted_list_of_fset ''w1'' (from_secs 10)
     (pool_new 0) demo_tracker (demo_world 70000) = Some (p1, t1, w1)" using demo_saturated by blast
  have p: "permits (pool_new 0) = 0" by (simp add: pool_new_def)
  have now: "sv_now ref_server (demo_world 70000) = (70000, snd (sv_now ref_server (demo_world 70000)))"
    by (simp add: ref_eval demo_defs)
  have none: "\<not> runs_here (pool_new 0) e" for e by (simp add: runs_here_def pool_new_def)
  have rounds: "set [Round] \<subseteq> {Round}" by simp
  have due: "\<exists>e. entry demo_tracker i = Some e \<and> entry_due 70000 e" if "i = ObjectId 2 \<or> i = ObjectId 3" for i
    using that demo_tracker_expires [of "ObjectId 2"] demo_tracker_expires [of "ObjectId 3"]
    by (auto simp: expires_at_def entry_due_def bind_eq_Some_conv)
  have only: "k = ObjectId 2 \<or> k = ObjectId 3" if "entry demo_tracker k = Some e" "entry_due 70000 e" for k e
    using that demo_tracker_expires [of k]
    by (auto simp: expires_at_def entry_due_def split: if_splits option.splits)
  from saturated_worker_forgets_expired [OF ordered.set_iteration_axioms demo_tracker_wf p now r rounds] due none
  obtain k e where k: "entry demo_tracker k = Some e" "entry_due 70000 e" "entry t1 k \<noteq> None"
    and rest: "\<And>i x. entry demo_tracker i = Some x \<Longrightarrow> entry_due 70000 x \<Longrightarrow> i \<noteq> k \<Longrightarrow> entry t1 i = None"
    by blast
  have "(entry t1 (ObjectId 2) = None) \<noteq> (entry t1 (ObjectId 3) = None)"
    using only [OF k(1,2)] k(3) rest due by (metis object_id.inject numeral_eq_iff semiring_norm(89))
  then show ?thesis using r by blast
qed

end
