(* ===== verification/WorkerLoop.thy ===== *)
theory WorkerLoop
  imports Watch Pump
begin

text \<open>
  The worker's control loop (\<open>worker_loop\<close> in \<open>src/worker.rs\<close>) and the handle that controls it. The
  branches of the \<open>select!\<close>, the rounds of the pumps that a branch runs, the end of a started task and the
  reconnection are events; a run is a sequence of events that the runtime chooses. Started tasks go on while
  the loop is in a pump, so their ends come between its rounds, and give back permits that later rounds take.
\<close>

section \<open>State\<close>

text \<open>What the loop is started with, and the driver's and the runtime's parts of it.\<close>

record 'w loop_env =
  le_srv :: "'w server"
  le_watch :: "document list \<Rightarrow> 'w \<Rightarrow> (mongo_error + unit) \<times> 'w"
  le_iter :: "object_id fset \<Rightarrow> object_id list"
  le_snap :: "string fset \<Rightarrow> string list"
  le_worker_id :: string
  le_switch_timeout :: duration
  le_claim_sort :: "document option"
  le_stale_sort :: "document option"

text \<open>
  \<open>lp_ended\<close> counts the tasks of the join set that have ended, with permit and registry entry given
  back, and wait to be joined; the other ones are the \<open>join_set\<close> of the pool.
\<close>

record loop_state =
  lp_pool :: pool
  lp_tracker :: expiry_tracker
  lp_stream :: bool
  lp_ended :: nat

text \<open>
  Between its branches the loop waits at the \<open>select!\<close>; inside a branch it is in one of the pumps. The
  entries that \<open>pump_expired_tasks\<close> has popped and not yet handled are part of its phase.
\<close>

datatype loop_phase =
    Looping loop_state
  | Claiming claim_mode loop_state
  | Reclaiming "(object_id \<times> expiring_task) list" loop_state
  | Draining pool nat
  | Exited "request_error + unit"

text \<open>\<open>TaskEnds\<close> is a step of a started task, \<open>NextRound\<close> one round of the pump the loop is in.\<close>

datatype loop_event =
    TaskEnds nat
  | NextRound
  | Reconnect
  | StopSignal
  | ExpiryTimer
  | RecoveryTick
  | TaskJoined
  | StreamEvent change_event
  | StreamFailed mongo_error
  | StreamClosed
  | JoinSetEmpty

section \<open>Steps\<close>

text \<open>Each pump call passes the sort that belongs to its mode.\<close>

fun sort_of :: "'w loop_env \<Rightarrow> claim_mode \<Rightarrow> document option" where
  "sort_of env Ready = le_claim_sort env"
| "sort_of env StaleRecovery = le_stale_sort env"

text \<open>
  The sequence of both scans and a pump, at the start, after a reconnection and at every tick of the
  recovery timer.
\<close>

definition resync :: "'w loop_env \<Rightarrow> claim_mode \<Rightarrow> loop_state \<Rightarrow> 'w \<Rightarrow> loop_phase \<times> 'w" where
  "resync env mode s w =
     (let (t1, w1) = refresh_running_expirations (le_srv env) (le_switch_timeout env) (lp_tracker s) w;
          (t2, w2) = refresh_pending_tasks (le_srv env) t1 w1
      in (Claiming mode (s\<lparr>lp_tracker := t2\<rparr>), w2))"

text \<open>Opening the stream and catching up: the code before the loop, and its first branch.\<close>

definition connect_stream :: "'w loop_env \<Rightarrow> loop_state \<Rightarrow> 'w \<Rightarrow> loop_phase \<times> 'w" where
  "connect_stream env s w =
     (case open_change_stream (le_watch env) w of
        (Inl err, w1) \<Rightarrow> (Exited (Inl err), w1)
      | (Inr stream, w1) \<Rightarrow> resync env Ready (s\<lparr>lp_stream := stream\<rparr>) w1)"

definition worker_loop_start :: "'w loop_env \<Rightarrow> nat \<Rightarrow> 'w \<Rightarrow> loop_phase \<times> 'w" where
  "worker_loop_start env max_inflight w =
     connect_stream env
       \<lparr>lp_pool = pool_new max_inflight, lp_tracker = tracker_new, lp_stream = False, lp_ended = 0\<rparr> w"

text \<open>The \<open>for\<close> loop of \<open>pump_expired_tasks\<close> over the entries that are left.\<close>

definition reclaiming :: "(object_id \<times> expiring_task) list \<Rightarrow> loop_state \<Rightarrow> loop_phase" where
  "reclaiming due s = (if due = [] then Looping s else Reclaiming due s)"

text \<open>The branches of the \<open>select!\<close> but the stop signal, with their guards, up to the rounds of the pump.\<close>

fun select_branch :: "'w loop_env \<Rightarrow> loop_event \<Rightarrow> loop_state \<Rightarrow> 'w \<Rightarrow> (loop_phase \<times> 'w) option" where
  "select_branch env ExpiryTimer s w =
     (if next_delay 0 (lp_tracker s) = None then None
      else
        (let (now, w1) = sv_now (le_srv env) w;
             (due, t) = pop_due (le_iter env) now (lp_tracker s)
         in Some (reclaiming due (s\<lparr>lp_tracker := t\<rparr>), w1)))"
| "select_branch env RecoveryTick s w = Some (resync env StaleRecovery s w)"
| "select_branch env TaskJoined s w =
     (if lp_ended s = 0 then None else Some (Claiming Ready (s\<lparr>lp_ended := lp_ended s - 1\<rparr>), w))"
| "select_branch env (StreamEvent event) s w =
     (let (ready, t) = apply_change_event_to_expirations event (le_switch_timeout env) (lp_tracker s);
          s1 = s\<lparr>lp_tracker := t\<rparr>
      in Some (if ready then Claiming Ready s1 else Looping s1, w))"
| "select_branch env (StreamFailed e) s w = Some (Looping (s\<lparr>lp_stream := False\<rparr>), w)"
| "select_branch env StreamClosed s w = Some (Looping (s\<lparr>lp_stream := False\<rparr>), w)"
| "select_branch env _ s w = None"

text \<open>A round of the pumps, on the state of the loop.\<close>

definition claim_step :: "'w loop_env \<Rightarrow> claim_mode \<Rightarrow> loop_state \<Rightarrow> 'w \<Rightarrow> loop_phase \<times> 'w" where
  "claim_step env mode s w =
     (let (goes_on, p, t, w1) = claim_round (le_srv env) (le_snap env) (le_worker_id env) (le_switch_timeout env)
            mode (sort_of env mode) (lp_pool s) (lp_tracker s) w;
          s1 = s\<lparr>lp_pool := p, lp_tracker := t\<rparr>
      in (if goes_on then Claiming mode s1 else Looping s1, w1))"

definition reclaim_step ::
  "'w loop_env \<Rightarrow> object_id \<times> expiring_task \<Rightarrow> (object_id \<times> expiring_task) list \<Rightarrow> loop_state \<Rightarrow> 'w \<Rightarrow> loop_phase \<times> 'w" where
  "reclaim_step env x rest s w =
     (let (goes_on, p, t, w1) = expired_round (le_srv env) (le_snap env) (le_worker_id env) (le_switch_timeout env)
            x (lp_pool s) (lp_tracker s) w;
          s1 = s\<lparr>lp_pool := p, lp_tracker := t\<rparr>
      in (if goes_on then reclaiming rest s1 else Looping s1, w1))"

definition loop_task_ended :: "nat \<Rightarrow> loop_state \<Rightarrow> loop_state option" where
  "loop_task_ended k s =
     (if k < length (join_set (lp_pool s))
      then Some (s\<lparr>lp_pool := task_ended k (lp_pool s), lp_ended := lp_ended s + 1\<rparr>)
      else None)"

text \<open>
  One event. Without a stream the loop only reconnects: the \<open>select!\<close>, and with it the stop signal, is
  not reached. Nor is it while the loop is in a pump.
\<close>

fun loop_step :: "'w loop_env \<Rightarrow> loop_event \<Rightarrow> loop_phase \<times> 'w \<Rightarrow> (loop_phase \<times> 'w) option" where
  "loop_step env ev (Looping s, w) =
     (case ev of
        TaskEnds k \<Rightarrow> map_option (\<lambda>s1. (Looping s1, w)) (loop_task_ended k s)
      | Reconnect \<Rightarrow> if lp_stream s then None else Some (connect_stream env s w)
      | StopSignal \<Rightarrow> if lp_stream s then Some (Draining (lp_pool s) (lp_ended s), w) else None
      | _ \<Rightarrow> if lp_stream s then select_branch env ev s w else None)"
| "loop_step env ev (Claiming mode s, w) =
     (case ev of
        TaskEnds k \<Rightarrow> map_option (\<lambda>s1. (Claiming mode s1, w)) (loop_task_ended k s)
      | NextRound \<Rightarrow> Some (claim_step env mode s w)
      | _ \<Rightarrow> None)"
| "loop_step env ev (Reclaiming due s, w) =
     (case ev of
        TaskEnds k \<Rightarrow> map_option (\<lambda>s1. (Reclaiming due s1, w)) (loop_task_ended k s)
      | NextRound \<Rightarrow> (case due of [] \<Rightarrow> None | x # rest \<Rightarrow> Some (reclaim_step env x rest s w))
      | _ \<Rightarrow> None)"
| "loop_step env ev (Draining p n, w) =
     (case ev of
        TaskEnds k \<Rightarrow> if k < length (join_set p) then Some (Draining (task_ended k p) (n + 1), w) else None
      | TaskJoined \<Rightarrow> if n = 0 then None else Some (Draining p (n - 1), w)
      | JoinSetEmpty \<Rightarrow> if join_set p = [] \<and> n = 0 then Some (Exited (Inr ()), w) else None
      | _ \<Rightarrow> None)"
| "loop_step env ev (Exited r, w) = None"

fun loop_run :: "'w loop_env \<Rightarrow> loop_event list \<Rightarrow> loop_phase \<times> 'w \<Rightarrow> (loop_phase \<times> 'w) option" where
  "loop_run env [] sw = Some sw"
| "loop_run env (ev # evs) sw = Option.bind (loop_step env ev sw) (loop_run env evs)"

text \<open>Which events are possible in a phase; the server and the pumps have no say in it.\<close>

fun enabled :: "loop_event \<Rightarrow> loop_phase \<Rightarrow> bool" where
  "enabled (TaskEnds k) (Looping s) \<longleftrightarrow> k < length (join_set (lp_pool s))"
| "enabled Reconnect (Looping s) \<longleftrightarrow> \<not> lp_stream s"
| "enabled StopSignal (Looping s) \<longleftrightarrow> lp_stream s"
| "enabled ExpiryTimer (Looping s) \<longleftrightarrow> lp_stream s \<and> next_delay 0 (lp_tracker s) \<noteq> None"
| "enabled TaskJoined (Looping s) \<longleftrightarrow> lp_stream s \<and> lp_ended s \<noteq> 0"
| "enabled JoinSetEmpty (Looping s) \<longleftrightarrow> False"
| "enabled NextRound (Looping s) \<longleftrightarrow> False"
| "enabled ev (Looping s) \<longleftrightarrow> lp_stream s"
| "enabled (TaskEnds k) (Claiming mode s) \<longleftrightarrow> k < length (join_set (lp_pool s))"
| "enabled NextRound (Claiming mode s) \<longleftrightarrow> True"
| "enabled (TaskEnds k) (Reclaiming due s) \<longleftrightarrow> k < length (join_set (lp_pool s))"
| "enabled NextRound (Reclaiming due s) \<longleftrightarrow> True"
| "enabled (TaskEnds k) (Draining p n) \<longleftrightarrow> k < length (join_set p)"
| "enabled TaskJoined (Draining p n) \<longleftrightarrow> n \<noteq> 0"
| "enabled JoinSetEmpty (Draining p n) \<longleftrightarrow> join_set p = [] \<and> n = 0"
| "enabled ev ph \<longleftrightarrow> False"

section \<open>Invariant\<close>

definition loop_inv :: "nat \<Rightarrow> loop_phase \<Rightarrow> bool" where
  "loop_inv m ph \<longleftrightarrow>
     (case ph of
        Looping s \<Rightarrow> pool_inv m (lp_pool s) \<and> tracker_wf (lp_tracker s)
      | Claiming mode s \<Rightarrow> pool_inv m (lp_pool s) \<and> tracker_wf (lp_tracker s)
      | Reclaiming due s \<Rightarrow>
          pool_inv m (lp_pool s) \<and> tracker_wf (lp_tracker s) \<and> left_over due (lp_tracker s) \<and> due \<noteq> []
      | Draining p n \<Rightarrow> pool_inv m p
      | Exited r \<Rightarrow> True)"

text \<open>
  A server, with the driver's change stream, and hash sets that list their elements. Opening a stream
  only takes time, in which the other clients may act.
\<close>

locale worker_server = mongo_server qmatch agg upd ins "le_srv env" docs rely le uniq +
    set_iteration "le_iter env"
  for qmatch :: "document \<Rightarrow> document \<Rightarrow> bool"
    and agg :: "bson \<Rightarrow> document \<Rightarrow> bson option"
    and upd :: "document \<Rightarrow> document \<Rightarrow> document"
    and ins :: "document \<Rightarrow> document \<Rightarrow> object_id \<Rightarrow> document"
    and env :: "'w loop_env"
    and docs :: "'w \<Rightarrow> collection"
    and rely :: "collection \<Rightarrow> collection \<Rightarrow> bool"
    and le :: "document \<Rightarrow> document \<Rightarrow> document \<Rightarrow> bool"
    and uniq :: bool +
  assumes watch_docs: "le_watch env stages w = (opened, w1) \<Longrightarrow> rely (docs w) (docs w1)"
    and snapshot: "set (le_snap env S) = fset S"
begin

text \<open>What a step within the loop keeps.\<close>

definition good :: "nat \<Rightarrow> loop_state \<Rightarrow> 'w \<Rightarrow> bool" where
  "good m s w \<longleftrightarrow> pool_inv m (lp_pool s) \<and> tracker_wf (lp_tracker s) \<and> coll_ok (docs w)"

lemma good_ended: "loop_task_ended k s = Some s1 \<Longrightarrow> good m s w \<Longrightarrow> good m s1 w \<and> lp_tracker s1 = lp_tracker s"
  using pool_inv_ended by (auto simp: loop_task_ended_def good_def split: if_splits)

lemma scans_rely:
  assumes "resync env mode s w = (ph, w1)"
  obtains t where "ph = Claiming mode (s\<lparr>lp_tracker := t\<rparr>)" "rely (docs w) (docs w1)"
    "tracker_wf (lp_tracker s) \<Longrightarrow> tracker_wf t"
proof -
  obtain t1 wa where a: "refresh_running_expirations (le_srv env) (le_switch_timeout env) (lp_tracker s) w = (t1, wa)"
    by fastforce
  obtain t2 wb where b: "refresh_pending_tasks (le_srv env) t1 wa = (t2, wb)" by fastforce
  have "tracker_wf t2" if "tracker_wf (lp_tracker s)"
    using a b that tracker_wf_refresh by (metis fst_conv)
  moreover have "rely (docs w) (docs wb)" using scan_rely [OF a] pending_rely [OF b] by (rule rely_trans)
  ultimately show thesis using assms a b that [of t2] by (simp add: resync_def)
qed

lemma resync_good:
  assumes "resync env mode s w = (ph, w1)" and "good m s w"
  shows "loop_inv m ph \<and> coll_ok (docs w1)"
  using assms(1) by (rule scans_rely) (use assms(2) rely_coll_ok in \<open>auto simp: good_def loop_inv_def\<close>)

lemma open_ok: "open_change_stream (le_watch env) w = (r, w1) \<Longrightarrow> rely (docs w) (docs w1)"
  using watch_docs [of expiry_change_stream_pipeline w]
  by (auto simp: open_change_stream_def Let_def split: prod.splits sum.splits if_splits)

lemma connect_good:
  assumes "connect_stream env s w = (ph, w1)" and "good m s w"
  shows "loop_inv m ph \<and> coll_ok (docs w1)"
proof -
  obtain r wa where a: "open_change_stream (le_watch env) w = (r, wa)" by fastforce
  have good: "good m (s\<lparr>lp_stream := b\<rparr>) wa" for b
    using open_ok [OF a] assms(2) rely_coll_ok by (auto simp: good_def)
  show ?thesis
    using assms(1) a good resync_good [OF _ good]
    by (cases r) (auto simp: connect_stream_def loop_inv_def good_def)
qed

lemma branch_good:
  assumes "select_branch env ev s w = Some (ph, w1)" and "good m s w"
  shows "loop_inv m ph \<and> coll_ok (docs w1)"
proof (cases ev)
  case ExpiryTimer
  obtain now wa where now: "sv_now (le_srv env) w = (now, wa)" by fastforce
  obtain due t0 where pop: "pop_due (le_iter env) now (lp_tracker s) = (due, t0)" by fastforce
  have "ph = reclaiming due (s\<lparr>lp_tracker := t0\<rparr>)" "w1 = wa"
    using assms(1) ExpiryTimer now pop by (auto split: if_splits)
  moreover have wf: "tracker_wf (lp_tracker s)" using assms(2) by (simp add: good_def)
  note spec = pop_due_spec [OF wf pop]
  have "entry t0 i = None" if "i \<in> fst ` set due" for i
    using spec(3,4) that by (force simp: expires_at_def)
  then have "left_over due t0" using spec(2) by (simp add: left_over_def)
  ultimately show ?thesis
    using assms(2) now_docs [OF now] spec(1) by (auto simp: reclaiming_def loop_inv_def good_def)
next
  case RecoveryTick
  then show ?thesis using assms resync_good by (metis select_branch.simps(2) option.inject surj_pair)
next
  case (StreamEvent e)
  obtain ready t where a: "apply_change_event_to_expirations e (le_switch_timeout env) (lp_tracker s) = (ready, t)"
    by fastforce
  then show ?thesis
    using assms StreamEvent tracker_wf_event [of "lp_tracker s" e "le_switch_timeout env"]
    by (auto simp: Let_def good_def loop_inv_def split: if_splits)
qed (use assms in \<open>auto simp: good_def loop_inv_def split: if_splits\<close>)

lemma claim_step_good:
  assumes "claim_step env mode s w = (ph, w1)" and "good m s w"
  shows "loop_inv m ph \<and> coll_ok (docs w1)"
proof -
  obtain g p t wa where r: "claim_round (le_srv env) (le_snap env) (le_worker_id env) (le_switch_timeout env)
      mode (sort_of env mode) (lp_pool s) (lp_tracker s) w = (g, p, t, wa)" using prod_cases4 by blast
  then show ?thesis
    using assms claim_round_inv [OF r] claim_round_ok [OF r]
    by (auto simp: claim_step_def good_def loop_inv_def Let_def split: if_splits)
qed

lemma reclaim_step_good:
  assumes "reclaim_step env x rest s w = (ph, w1)" and "good m s w" and "left_over (x # rest) (lp_tracker s)"
  shows "loop_inv m ph \<and> coll_ok (docs w1)"
proof -
  obtain g p t wa where r: "expired_round (le_srv env) (le_snap env) (le_worker_id env) (le_switch_timeout env)
      x (lp_pool s) (lp_tracker s) w = (g, p, t, wa)" using prod_cases4 by blast
  then show ?thesis
    using assms expired_round_pool [OF r] expired_round_tracker [OF r _ _ assms(3)]
    by (auto simp: reclaim_step_def good_def loop_inv_def reclaiming_def Let_def split: if_splits)
qed

lemma step_inv:
  assumes step: "loop_step env ev (ph, w) = Some (ph1, w1)" and "loop_inv m ph" and "coll_ok (docs w)"
  shows "loop_inv m ph1 \<and> coll_ok (docs w1)"
proof (cases ph)
  case (Looping s)
  then have good: "good m s w" using assms(2,3) by (simp add: loop_inv_def good_def)
  show ?thesis
    using step Looping good branch_good [OF _ good] connect_good [OF _ good] good_ended [OF _ good]
    by (cases ev) (auto simp: good_def loop_inv_def simp del: select_branch.simps split: if_splits)
next
  case (Claiming mode s)
  then have good: "good m s w" using assms(2,3) by (simp add: loop_inv_def good_def)
  show ?thesis
    using step Claiming good claim_step_good [OF _ good] good_ended [OF _ good]
    by (cases ev) (auto simp: good_def loop_inv_def)
next
  case (Reclaiming due s)
  then have good: "good m s w" and left: "left_over due (lp_tracker s)" "due \<noteq> []"
    using assms(2,3) by (simp_all add: loop_inv_def good_def)
  then obtain x rest where due: "due = x # rest" by (cases due) auto
  show ?thesis
    using step Reclaiming good left due reclaim_step_good [OF _ good] good_ended [OF _ good]
    by (cases ev) (auto simp: good_def loop_inv_def)
next
  case (Draining p n)
  then show ?thesis
    using assms pool_inv_ended [of m p]
    by (cases ev) (auto simp: loop_inv_def split: if_splits)
qed (use assms in simp)

lemma run_inv:
  "loop_run env evs (ph, w) = Some (ph1, w1) \<Longrightarrow> loop_inv m ph \<Longrightarrow> coll_ok (docs w) \<Longrightarrow>
    loop_inv m ph1 \<and> coll_ok (docs w1)"
proof (induction evs arbitrary: ph w)
  case (Cons ev evs)
  obtain ph2 w2 where s: "loop_step env ev (ph, w) = Some (ph2, w2)"
    and r: "loop_run env evs (ph2, w2) = Some (ph1, w1)"
    using Cons.prems(1) by (auto simp: bind_eq_Some_conv)
  show ?case using Cons.IH [OF r] step_inv [OF s Cons.prems(2,3)] by blast
qed simp

lemma start_inv:
  assumes "worker_loop_start env m w = (ph, w1)" and "coll_ok (docs w)"
  shows "loop_inv m ph \<and> coll_ok (docs w1)"
  using connect_good [OF assms(1) [unfolded worker_loop_start_def], of m] assms(2)
  by (simp add: good_def pool_inv_start tracker_wf_new)

end

section \<open>Progress\<close>

lemma step_enabled:
  assumes "loop_inv m ph"
  shows "loop_step env ev (ph, w) = None \<longleftrightarrow> \<not> enabled ev ph"
proof (cases ph)
  case (Looping s)
  then show ?thesis by (cases ev) (auto simp: loop_task_ended_def Let_def split: prod.split)
next
  case (Claiming mode s)
  then show ?thesis by (cases ev) (auto simp: loop_task_ended_def)
next
  case (Reclaiming due s)
  then show ?thesis using assms by (cases ev; cases due) (auto simp: loop_task_ended_def loop_inv_def)
next
  case (Draining p n)
  then show ?thesis by (cases ev) simp_all
next
  case (Exited r)
  then show ?thesis by (cases ev) simp_all
qed

text \<open>A loop that has not exited can always go on: a disconnected one by reconnecting, a connected one by
  stopping, one in a pump by a round, a draining one as tasks end.\<close>

lemma always_enabled: "(\<forall>r. ph \<noteq> Exited r) \<longleftrightarrow> (\<exists>ev. enabled ev ph)"
proof (cases ph)
  case (Looping s)
  then show ?thesis using enabled.simps(2,3) [of s] by blast
next
  case (Claiming mode s)
  have "enabled NextRound (Claiming mode s)" by simp
  then show ?thesis using Claiming by blast
next
  case (Reclaiming due s)
  have "enabled NextRound (Reclaiming due s)" by simp
  then show ?thesis using Reclaiming by blast
next
  case (Draining p n)
  have "enabled (TaskEnds 0) ph \<or> enabled TaskJoined ph \<or> enabled JoinSetEmpty ph"
    using Draining by (cases "join_set p") auto
  then show ?thesis using Draining by blast
next
  case (Exited r)
  then have "\<not> enabled ev ph" for ev by (cases ev) simp_all
  then show ?thesis using Exited by blast
qed

text \<open>
  The events of a visit to a pump: its rounds, and the ends of started tasks meanwhile. The number of rounds
  is bounded by the permits that are free or become free; that of the other pump by the entries popped.
\<close>

fun in_visit :: "loop_event \<Rightarrow> bool" where
  "in_visit NextRound \<longleftrightarrow> True"
| "in_visit (TaskEnds k) \<longleftrightarrow> True"
| "in_visit ev \<longleftrightarrow> False"

fun rounds :: "loop_event list \<Rightarrow> nat" where
  "rounds [] = 0"
| "rounds (ev # evs) = (if ev = NextRound then rounds evs + 1 else rounds evs)"

fun ends :: "loop_event list \<Rightarrow> nat" where
  "ends [] = 0"
| "ends (TaskEnds k # evs) = ends evs + 1"
| "ends (ev # evs) = ends evs"

lemma ended_permits:
  "loop_task_ended k s = Some s1 \<Longrightarrow> permits (lp_pool s1) = permits (lp_pool s) + 1"
  by (auto simp: loop_task_ended_def task_ended_def release_def registry_remove_def split: if_splits)

lemma loop_runE:
  assumes "loop_run env (ev # evs) (ph, w) = Some (ph1, w1)"
  obtains ph2 w2 where "loop_step env ev (ph, w) = Some (ph2, w2)" "loop_run env evs (ph2, w2) = Some (ph1, w1)"
  using assms by (auto simp: bind_eq_Some_conv)

lemma looping_visit:
  "loop_run env evs (Looping s, w) = Some (ph, w1) \<Longrightarrow> \<forall>ev\<in>set evs. in_visit ev \<Longrightarrow>
    (\<exists>s1. ph = Looping s1) \<and> rounds evs = 0"
proof (induction evs arbitrary: s)
  case (Cons ev evs)
  from Cons.prems(1) obtain ph2 w2 where step: "loop_step env ev (Looping s, w) = Some (ph2, w2)"
    and run: "loop_run env evs (ph2, w2) = Some (ph, w1)" by (rule loop_runE)
  then obtain s2 where "ph2 = Looping s2" "w2 = w" "ev \<noteq> NextRound"
    using Cons.prems(2) by (cases ev) (auto split: if_splits)
  then show ?case using Cons.IH run Cons.prems(2) by auto
qed auto

lemma reclaiming_visit:
  "loop_run env evs (Reclaiming due s, w) = Some (ph, w1) \<Longrightarrow> \<forall>ev\<in>set evs. in_visit ev \<Longrightarrow>
    rounds evs \<le> length due"
proof (induction evs arbitrary: due s w)
  case (Cons ev evs)
  from Cons.prems(1) obtain ph2 w2 where step: "loop_step env ev (Reclaiming due s, w) = Some (ph2, w2)"
    and run: "loop_run env evs (ph2, w2) = Some (ph, w1)" by (rule loop_runE)
  show ?case
  proof (cases ev)
    case (TaskEnds k)
    then show ?thesis using step run Cons.IH Cons.prems(2) by auto
  next
    case NextRound
    then obtain x rest where due: "due = x # rest" and r: "reclaim_step env x rest s w = (ph2, w2)"
      using step by (cases due) auto
    then obtain s2 where "ph2 = Looping s2 \<or> ph2 = Reclaiming rest s2"
      by (auto simp: reclaim_step_def reclaiming_def Let_def split: prod.splits if_splits)
    then show ?thesis
      using Cons.IH looping_visit [of env evs] run Cons.prems(2) NextRound due by fastforce
  qed (use Cons.prems(2) in auto)
qed simp

context worker_server
begin

lemma claiming_visit:
  "loop_run env evs (Claiming mode s, w) = Some (ph, w1) \<Longrightarrow> \<forall>ev\<in>set evs. in_visit ev \<Longrightarrow>
    coll_ok (docs w) \<Longrightarrow> ids_ok (docs w) \<Longrightarrow> ids_kept rely \<Longrightarrow>
    (\<exists>s1. ph = Claiming mode s1 \<and> rounds evs + permits (lp_pool s1) = permits (lp_pool s) + ends evs) \<or>
    (\<exists>s1. ph = Looping s1 \<and> rounds evs \<le> permits (lp_pool s) + ends evs + 1)"
proof (induction evs arbitrary: s w)
  case (Cons ev evs)
  from Cons.prems(1) obtain ph2 w2 where step: "loop_step env ev (Claiming mode s, w) = Some (ph2, w2)"
    and run: "loop_run env evs (ph2, w2) = Some (ph, w1)" by (rule loop_runE)
  have visit: "\<forall>ev\<in>set evs. in_visit ev" using Cons.prems(2) by simp
  show ?case
  proof (cases ev)
    case (TaskEnds k)
    then obtain s2 where s2: "loop_task_ended k s = Some s2" "ph2 = Claiming mode s2" "w2 = w" using step by auto
    show ?thesis
      using Cons.IH [OF run [unfolded s2(2,3)] visit Cons.prems(3-5)] ended_permits [OF s2(1)] TaskEnds by auto
  next
    case NextRound
    obtain g p t wa where r: "claim_round (le_srv env) (le_snap env) (le_worker_id env) (le_switch_timeout env)
      mode (sort_of env mode) (lp_pool s) (lp_tracker s) w = (g, p, t, wa)" using prod_cases4 by blast
    let ?s = "s\<lparr>lp_pool := p, lp_tracker := t\<rparr>"
    have ph2: "ph2 = (if g then Claiming mode ?s else Looping ?s)" "w2 = wa"
      using step NextRound r by (auto simp: claim_step_def Let_def)
    note kept = claim_round_ok [OF r Cons.prems(3)] claim_round_permits [OF r Cons.prems(3,4) snapshot Cons.prems(5)]
    show ?thesis
    proof (cases g)
      case True
      then show ?thesis
        using Cons.IH [of ?s wa] run ph2 visit kept Cons.prems(5) NextRound by auto
    next
      case False
      then show ?thesis using looping_visit [of env evs ?s wa ph w1] run ph2 visit NextRound by auto
    qed
  qed (use Cons.prems(2) in auto)
qed auto

end

section \<open>How a visit ends\<close>

lemma loop_run_append: "loop_run env (evs @ evs') sw = Option.bind (loop_run env evs sw) (loop_run env evs')"
proof (induction evs arbitrary: sw)
  case (Cons ev evs)
  then show ?case by (cases "loop_step env ev sw") simp_all
qed simp

text \<open>
  The last round of a visit for ready tasks started in \<open>w0\<close> and ended in \<open>w1\<close>. It found no free permit,
  or its claim failed, or at some moment between these two every pending task was already running here.
\<close>

definition ready_settled ::
  "'w loop_env \<Rightarrow> ('w \<Rightarrow> collection) \<Rightarrow> (collection \<Rightarrow> collection \<Rightarrow> bool) \<Rightarrow> pool \<Rightarrow> 'w \<Rightarrow> 'w \<Rightarrow> bool" where
  "ready_settled env docs rely p w0 w1 \<longleftrightarrow>
     permits p = 0 \<or>
     (\<exists>e. claim_next_task (le_srv env) (le_worker_id env) (le_switch_timeout env) (le_snap env (in_flight p)) Ready
        (le_claim_sort env) w0 = (Inl e, w1)) \<or>
     (\<exists>D. rely (docs w0) D \<and> rely D (docs w1) \<and>
        (\<forall>i d. D i = Some d \<longrightarrow> status_of d = Some ''pending'' \<longrightarrow> (\<exists>k. task_id_of d = Some k \<and> k |\<in>| in_flight p)))"

text \<open>And for abandoned tasks: every lease that was over when the round looked is of a task that runs here.\<close>

definition stale_settled :: "'w loop_env \<Rightarrow> ('w \<Rightarrow> collection) \<Rightarrow> pool \<Rightarrow> 'w \<Rightarrow> 'w \<Rightarrow> bool" where
  "stale_settled env docs p w0 w1 \<longleftrightarrow>
     permits p = 0 \<or>
     (\<exists>e. claim_next_task (le_srv env) (le_worker_id env) (le_switch_timeout env) (le_snap env (in_flight p))
        StaleRecovery (le_stale_sort env) w0 = (Inl e, w1)) \<or>
     claim_next_task (le_srv env) (le_worker_id env) (le_switch_timeout env) (le_snap env (in_flight p))
        StaleRecovery (le_stale_sort env) w0 = (Inr None, w1) \<and>
     (\<forall>i d h. docs w1 i = Some d \<longrightarrow> status_of d = Some ''running'' \<longrightarrow> heartbeat_of d = Some h \<longrightarrow>
        in_i64 (h + lease_ms (le_switch_timeout env) d) \<longrightarrow>
        h + lease_ms (le_switch_timeout env) d \<le> fst (sv_now (le_srv env) w0) \<longrightarrow>
        (\<exists>k. task_id_of d = Some k \<and> k |\<in>| in_flight p))"

context worker_server
begin

lemma claim_step_cases:
  assumes "claim_step env mode s w = (ph, w1)" and "coll_ok (docs w)"
  shows "coll_ok (docs w1) \<and>
    ((\<exists>s1. ph = Claiming mode s1) \<or>
     (\<exists>s1. ph = Looping s1 \<and>
        (mode = Ready \<longrightarrow> ready_settled env docs rely (lp_pool s1) w w1) \<and>
        (mode = StaleRecovery \<longrightarrow> stale_settled env docs (lp_pool s1) w w1)))"
proof -
  obtain g p t wa where r: "claim_round (le_srv env) (le_snap env) (le_worker_id env) (le_switch_timeout env)
      mode (sort_of env mode) (lp_pool s) (lp_tracker s) w = (g, p, t, wa)" using prod_cases4 by blast
  have ph: "ph = (if g then Claiming mode (s\<lparr>lp_pool := p, lp_tracker := t\<rparr>) else Looping (s\<lparr>lp_pool := p, lp_tracker := t\<rparr>))"
    and w1: "w1 = wa"
    using assms(1) r by (auto simp: claim_step_def Let_def)
  have "ready_settled env docs rely p w wa" if "\<not> g" "mode = Ready"
    using claim_round_drains [of "le_snap env", OF _ assms(2) snapshot] r that
    unfolding ready_settled_def by (metis (full_types) sort_of.simps(1))
  moreover have "stale_settled env docs p w wa" if "\<not> g" "mode = StaleRecovery"
    using claim_round_recovers [of "le_snap env", OF _ assms(2) snapshot] r that
    unfolding stale_settled_def by (metis (full_types) sort_of.simps(2))
  ultimately show ?thesis using claim_round_ok [OF r assms(2)] ph w1 by (cases g) auto
qed

lemma visit_phase:
  "loop_run env evs (Claiming mode s, w) = Some (ph, w1) \<Longrightarrow> \<forall>ev\<in>set evs. in_visit ev \<Longrightarrow> coll_ok (docs w) \<Longrightarrow>
    (\<exists>s1. ph = Claiming mode s1 \<and> coll_ok (docs w1)) \<or> (\<exists>s1. ph = Looping s1)"
proof (induction evs arbitrary: s w)
  case (Cons ev evs)
  from Cons.prems(1) obtain ph2 w2 where step: "loop_step env ev (Claiming mode s, w) = Some (ph2, w2)"
    and run: "loop_run env evs (ph2, w2) = Some (ph, w1)" by (rule loop_runE)
  have visit: "\<forall>ev\<in>set evs. in_visit ev" using Cons.prems(2) by simp
  have "(\<exists>s1. ph2 = Claiming mode s1 \<and> coll_ok (docs w2)) \<or> (\<exists>s1. ph2 = Looping s1)"
    using step Cons.prems(2,3) claim_step_cases [of mode s w ph2 w2] by (cases ev) auto
  then show ?case
  proof (elim disjE exE conjE)
    fix s1 assume "ph2 = Claiming mode s1" "coll_ok (docs w2)"
    then show ?thesis using Cons.IH [OF _ visit, of s1 w2] run by simp
  next
    fix s1 assume "ph2 = Looping s1"
    then show ?thesis using looping_visit [OF _ visit, of env s1 w2 ph w1] run by simp
  qed
qed auto

text \<open>A visit that has gone on for the rounds and ends \<open>evs\<close>, and then through one more round.\<close>

lemma visit_settles:
  assumes run: "loop_run env (evs @ [NextRound]) (Claiming mode s, w) = Some (ph, w1)"
    and visit: "\<forall>ev\<in>set evs. in_visit ev" and ok: "coll_ok (docs w)"
  shows "\<exists>s0 w0. loop_run env evs (Claiming mode s, w) = Some (Claiming mode s0, w0) \<and>
    (ids_ok (docs w) \<longrightarrow> ids_kept rely \<longrightarrow> rounds evs \<le> permits (lp_pool s) + ends evs) \<and>
    ((\<exists>s1. ph = Claiming mode s1 \<and> loop_step env NextRound (ph, w1) \<noteq> None) \<or>
     (\<exists>s1. ph = Looping s1 \<and>
        (mode = Ready \<longrightarrow> ready_settled env docs rely (lp_pool s1) w0 w1) \<and>
        (mode = StaleRecovery \<longrightarrow> stale_settled env docs (lp_pool s1) w0 w1)))"
proof -
  obtain ph0 w0 where r: "loop_run env evs (Claiming mode s, w) = Some (ph0, w0)"
    and step: "loop_step env NextRound (ph0, w0) = Some (ph, w1)"
    using run by (auto simp: loop_run_append bind_eq_Some_conv)
  have "ph0 \<noteq> Looping s1" for s1 using step by (auto split: if_splits)
  then obtain s0 where s0: "ph0 = Claiming mode s0" "coll_ok (docs w0)" using visit_phase [OF r visit ok] by blast
  then have "claim_step env mode s0 w0 = (ph, w1)" using step by simp
  moreover have "rounds evs \<le> permits (lp_pool s) + ends evs" if "ids_ok (docs w)" "ids_kept rely"
    using claiming_visit [OF r visit ok that] s0(1) by auto
  ultimately show ?thesis using claim_step_cases [OF _ s0(2)] r s0(1) by fastforce
qed

end

text \<open>Rounds and ends in a pump are a call of it: the loop and the pumps of the code are one.\<close>

fun as_loop_event :: "visit_event \<Rightarrow> loop_event" where
  "as_loop_event Round = NextRound"
| "as_loop_event (Ends k) = TaskEnds k"

lemma in_visit_all: "\<forall>ev\<in>set (map as_loop_event vs). in_visit ev"
proof
  fix ev assume "ev \<in> set (map as_loop_event vs)"
  then obtain v where "ev = as_loop_event v" by auto
  then show "in_visit ev" by (cases v) simp_all
qed

lemma rounds_last: "vs \<noteq> [] \<Longrightarrow> last vs = Round \<Longrightarrow> rounds (map as_loop_event vs) \<noteq> 0"
  by (induction vs) (auto split: if_splits)

lemma looping_no_visit:
  "vs \<noteq> [] \<Longrightarrow> last vs = Round \<Longrightarrow> loop_run env (map as_loop_event vs) (Looping s, w) \<noteq> Some (Looping s1, w1)"
  using looping_visit [OF _ in_visit_all] rounds_last by metis

lemma claiming_is_pump:
  "vs = [] \<or> last vs = Round \<Longrightarrow>
    loop_run env (map as_loop_event vs) (Claiming mode s, w) = Some (Looping s1, w1) \<longleftrightarrow>
    (\<exists>p t. pump_available_tasks vs (le_srv env) (le_snap env) (le_worker_id env) (le_switch_timeout env) mode
        (sort_of env mode) (lp_pool s) (lp_tracker s) w = Some (p, t, w1) \<and>
      s1 = s\<lparr>lp_pool := p, lp_tracker := t, lp_ended := lp_ended s + ends (map as_loop_event vs)\<rparr>)"
proof (induction vs arbitrary: s w)
  case (Cons v vs)
  have rest: "vs = [] \<or> last vs = Round" using Cons.prems by (auto split: if_splits)
  show ?case
  proof (cases v)
    case Round
    obtain g p t wa where r: "claim_round (le_srv env) (le_snap env) (le_worker_id env) (le_switch_timeout env)
      mode (sort_of env mode) (lp_pool s) (lp_tracker s) w = (g, p, t, wa)" using prod_cases4 by blast
    show ?thesis
    proof (cases g)
      case True
      then show ?thesis
        using Cons.IH [OF rest, of "s\<lparr>lp_pool := p, lp_tracker := t\<rparr>" wa] Round r
        by (simp add: claim_step_def pump_available_tasks_def)
    next
      case False
      then show ?thesis
        using looping_no_visit [of vs env "s\<lparr>lp_pool := p, lp_tracker := t\<rparr>" wa s1 w1] rest Round r
        by (cases "vs = []") (auto simp: claim_step_def pump_available_tasks_def)
    qed
  next
    case (Ends k)
    then show ?thesis
      using Cons.IH [OF rest, of "s\<lparr>lp_pool := task_ended k (lp_pool s), lp_ended := lp_ended s + 1\<rparr>" w]
      by (simp add: loop_task_ended_def pump_available_tasks_def)
  qed
qed (simp add: pump_available_tasks_def)

lemma reclaiming_is_pump:
  "vs = [] \<or> last vs = Round \<Longrightarrow>
    loop_run env (map as_loop_event vs) (reclaiming due s, w) = Some (Looping s1, w1) \<longleftrightarrow>
    (\<exists>p t. expired_loop vs (le_srv env) (le_snap env) (le_worker_id env) (le_switch_timeout env) due
        (lp_pool s) (lp_tracker s) w = Some (p, t, w1) \<and>
      s1 = s\<lparr>lp_pool := p, lp_tracker := t, lp_ended := lp_ended s + ends (map as_loop_event vs)\<rparr>)"
proof (induction vs arbitrary: due s w)
  case Nil
  then show ?case by (cases due) (auto simp: reclaiming_def)
next
  case (Cons v vs)
  have rest: "vs = [] \<or> last vs = Round" using Cons.prems by (auto split: if_splits)
  show ?case
  proof (cases due)
    case Nil
    then show ?thesis using looping_no_visit [of "v # vs" env s w s1 w1] Cons.prems by (simp add: reclaiming_def)
  next
    case due: (Cons x left)
    show ?thesis
    proof (cases v)
      case Round
      obtain g p t wa where r: "expired_round (le_srv env) (le_snap env) (le_worker_id env) (le_switch_timeout env)
        x (lp_pool s) (lp_tracker s) w = (g, p, t, wa)" using prod_cases4 by blast
      show ?thesis
      proof (cases g)
        case True
        then show ?thesis
          using Cons.IH [OF rest, of left "s\<lparr>lp_pool := p, lp_tracker := t\<rparr>" wa] Round r due
          by (simp add: reclaim_step_def reclaiming_def [of "x # left"])
      next
        case False
        then show ?thesis
          using looping_no_visit [of vs env "s\<lparr>lp_pool := p, lp_tracker := t\<rparr>" wa s1 w1] rest Round r due
          by (cases "vs = []") (auto simp: reclaim_step_def reclaiming_def [of "x # left"])
      qed
    next
      case (Ends k)
      then show ?thesis
        using Cons.IH [OF rest, of due "s\<lparr>lp_pool := task_ended k (lp_pool s), lp_ended := lp_ended s + 1\<rparr>" w] due
        by (simp add: loop_task_ended_def reclaiming_def)
    qed
  qed
qed

text \<open>An event that reports a pending task asks for a claim.\<close>

lemma pending_event_ready:
  "reported_status ev = Some ''pending'' \<Longrightarrow> fst (apply_change_event_to_expirations ev T t)"
  by (cases "operation ev")
    (auto simp: reported_status_def apply_change_event_to_expirations_def status_of_def bind_eq_Some_conv Let_def)

section \<open>Shutdown\<close>

lemma task_ended_length: "k < length (join_set p) \<Longrightarrow> length (join_set (task_ended k p)) = length (join_set p) - 1"
  by (simp add: task_ended_def release_def registry_remove_def)

text \<open>The steps that are left: two for every task that runs, one for every ended one, one to exit.\<close>

lemma draining_run:
  "loop_run env evs (Draining p n, w) = Some (ph, w1) \<Longrightarrow>
    w1 = w \<and>
    (case ph of
       Draining p1 n1 \<Rightarrow> length evs + 2 * length (join_set p1) + n1 = 2 * length (join_set p) + n
     | Exited r \<Rightarrow> r = Inr () \<and> length evs = 2 * length (join_set p) + n + 1
     | _ \<Rightarrow> False)"
proof (induction evs arbitrary: p n)
  case (Cons ev evs)
  have exited: "evs = [] \<and> ph = Exited r \<and> w1 = w" if "loop_run env evs (Exited r, w) = Some (ph, w1)" for r
    using that by (cases evs) auto
  show ?case
  proof (cases ev)
    case (TaskEnds k)
    then have k: "k < length (join_set p)"
      and r: "loop_run env evs (Draining (task_ended k p) (n + 1), w) = Some (ph, w1)"
      using Cons.prems by (auto split: if_splits)
    show ?thesis using Cons.IH [OF r] task_ended_length [OF k] k by (cases ph) auto
  next
    case TaskJoined
    then have "n \<noteq> 0" and r: "loop_run env evs (Draining p (n - 1), w) = Some (ph, w1)"
      using Cons.prems by (auto split: if_splits)
    then show ?thesis using Cons.IH [OF r] by (cases ph) auto
  next
    case JoinSetEmpty
    then have "join_set p = []" "n = 0" "loop_run env evs (Exited (Inr ()), w) = Some (ph, w1)"
      using Cons.prems by (auto split: if_splits)
    then show ?thesis using exited [of "Inr ()"] by simp
  qed (use Cons.prems in simp_all)
qed auto

lemma draining_visit:
  "loop_run env evs (Draining p n, w) = Some (ph, w1) \<Longrightarrow> \<forall>ev\<in>set evs. in_visit ev \<Longrightarrow> rounds evs = 0"
proof (induction evs arbitrary: p n)
  case (Cons ev evs)
  then show ?case by (cases ev) (auto split: if_splits)
qed simp

text \<open>A loop without a stream whose every attempt to open one fails stays where it is.\<close>

lemma disconnected_run:
  assumes "\<And>w. \<exists>e w1. le_watch env expiry_change_stream_pipeline w = (Inl e, w1) \<and> \<not> is_change_stream_unsupported e"
  shows "loop_run env evs (ph0, w) = Some (ph, w1) \<Longrightarrow> ph0 = Looping s \<or> ph0 = Claiming Ready s \<Longrightarrow> \<not> lp_stream s \<Longrightarrow>
    (\<exists>s1. (ph = Looping s1 \<or> ph = Claiming Ready s1) \<and> \<not> lp_stream s1) \<and> StopSignal \<notin> set evs"
proof (induction evs arbitrary: ph0 s w)
  case Nil
  then show ?case by auto
next
  case (Cons ev evs)
  from Cons.prems(1) obtain ph2 w2 where step: "loop_step env ev (ph0, w) = Some (ph2, w2)"
    and r: "loop_run env evs (ph2, w2) = Some (ph, w1)" by (rule loop_runE)
  obtain wa where "open_change_stream (le_watch env) w = (Inr False, wa)"
    using assms [of w] by (auto simp: open_change_stream_def)
  then have again: "\<exists>s2. ph3 = Claiming Ready s2 \<and> \<not> lp_stream s2" if "connect_stream env s w = (ph3, w3)" for ph3 w3
    using that by (auto simp: connect_stream_def resync_def split: prod.splits)
  have "\<exists>s2. (ph2 = Looping s2 \<or> ph2 = Claiming Ready s2) \<and> \<not> lp_stream s2"
    using Cons.prems(2)
  proof
    assume "ph0 = Looping s"
    then show ?thesis
      using step Cons.prems(3) again by (cases ev) (auto simp: loop_task_ended_def split: if_splits)
  next
    assume "ph0 = Claiming Ready s"
    then show ?thesis
      using step Cons.prems(3)
      by (cases ev) (auto simp: loop_task_ended_def claim_step_def Let_def split: if_splits prod.splits)
  qed
  moreover have "ev \<noteq> StopSignal" using step Cons.prems(2,3) by auto
  ultimately show ?case using Cons.IH r by auto
qed

section \<open>Worker and handle\<close>

definition DEFAULT_MAX_INFLIGHT :: nat where
  "DEFAULT_MAX_INFLIGHT = 10000"

record 'c worker =
  wk_config :: config
  wk_collection :: 'c
  wk_worker_id :: string
  wk_max_inflight :: nat

text \<open>\<open>Worker::connect\<close>; \<open>opened\<close> is what \<open>connect_collection\<close> returned.\<close>

definition worker_connect ::
  "'w server \<Rightarrow> request_error + 'c \<Rightarrow> config \<Rightarrow> 'w \<Rightarrow> (request_error + 'c worker) \<times> 'w" where
  "worker_connect srv opened cfg w =
     (case opened of
        Inl e \<Rightarrow> (Inl e, w)
      | Inr collection \<Rightarrow>
          (let (worker_id, w1) =
             (case cfg_worker_id cfg of
                Some s \<Rightarrow> (s, w)
              | None \<Rightarrow> (let (u, w1) = sv_uuid srv w in (''worker-'' @ u, w1)))
           in (Inr \<lparr>wk_config = cfg, wk_collection = collection, wk_worker_id = worker_id,
                  wk_max_inflight = DEFAULT_MAX_INFLIGHT\<rparr>, w1)))"

definition with_max_inflight :: "nat \<Rightarrow> 'c worker \<Rightarrow> 'c worker" where
  "with_max_inflight n wk = wk\<lparr>wk_max_inflight := n\<rparr>"

text \<open>The handle: whether its stop sender and its join handle have not been taken, and the capacity.\<close>

record worker_handle =
  wh_stop_signal :: bool
  wh_join_handle :: bool
  wh_max_inflight :: nat

text \<open>What \<open>run\<close> starts: the loop with the worker's settings, and the handle.\<close>

definition worker_run ::
  "'w server \<Rightarrow> (document list \<Rightarrow> 'w \<Rightarrow> (mongo_error + unit) \<times> 'w) \<Rightarrow>
   (object_id fset \<Rightarrow> object_id list) \<Rightarrow> (string fset \<Rightarrow> string list) \<Rightarrow> 'c worker \<Rightarrow> 'w \<Rightarrow>
   (loop_phase \<times> 'w) \<times> worker_handle" where
  "worker_run srv watch iter snap wk w =
     (let env = \<lparr>le_srv = srv, le_watch = watch, le_iter = iter, le_snap = snap,
            le_worker_id = wk_worker_id wk, le_switch_timeout = cfg_worker_switch_timeout (wk_config wk),
            le_claim_sort = cfg_claim_sort (wk_config wk),
            le_stale_sort = cfg_stale_recovery_sort (wk_config wk)\<rparr>
      in (worker_loop_start env (wk_max_inflight wk) w,
          \<lparr>wh_stop_signal = True, wh_join_handle = True, wh_max_inflight = wk_max_inflight wk\<rparr>))"

text \<open>What the operations of the handle do to the background task, in order.\<close>

datatype handle_effect = SendStop | AwaitTask | AbortTask

definition handle_drop :: "worker_handle \<Rightarrow> handle_effect list" where
  "handle_drop h =
     (if wh_stop_signal h then [SendStop] else []) @ (if wh_join_handle h then [AbortTask] else [])"

text \<open>\<open>shutdown\<close> and \<open>wait\<close> take the handle by value, so what is left of it is dropped at their end.\<close>

definition handle_shutdown :: "worker_handle \<Rightarrow> handle_effect list" where
  "handle_shutdown h =
     (if wh_stop_signal h then [SendStop] else []) @ (if wh_join_handle h then [AwaitTask] else []) @
     handle_drop (h\<lparr>wh_stop_signal := False, wh_join_handle := False\<rparr>)"

text \<open>\<open>joined\<close> is what the join handle yields: \<open>None\<close> for a task that panicked or was aborted.\<close>

definition handle_wait ::
  "(request_error + unit) option \<Rightarrow> worker_handle \<Rightarrow> (request_error + unit) \<times> handle_effect list" where
  "handle_wait joined h =
     (if wh_join_handle h
      then ((case joined of None \<Rightarrow> Inl WorkerGone | Some r \<Rightarrow> r),
            AwaitTask # handle_drop (h\<lparr>wh_join_handle := False\<rparr>))
      else (Inr (), handle_drop h))"

definition get_running_task_cnt :: "pool \<Rightarrow> nat" where
  "get_running_task_cnt p = registry_len p"

definition get_max_inflight :: "worker_handle \<Rightarrow> nat" where
  "get_max_inflight h = wh_max_inflight h"

section \<open>Properties\<close>

text \<open>
  Whatever happens to a running worker, its state stays consistent. From its start on, after any
  sequence of stream events, timers, rounds of the pumps, ends of tasks, reconnections and the stop signal,
  permits and started tasks add up to the limit, the registry lists exactly the started tasks, the tracker's
  map and index agree, and the documents of the collection keep their types.
\<close>

theorem worker_loop_stays_consistent:
  assumes "worker_server qmatch agg upd ins env docs rely le uniq" and "coll_ok (docs w)"
    and "worker_loop_start env m w = (ph, w1)"
    and "loop_run env evs (ph, w1) = Some (ph2, w2)"
  shows "loop_inv m ph2 \<and> coll_ok (docs w2)"
  using worker_server.run_inv [OF assms(1,4)] worker_server.start_inv [OF assms(1,3,2)] by blast

definition demo_env :: "ref_world loop_env" where
  "demo_env = \<lparr>le_srv = ref_server, le_watch = (\<lambda>stages w. (Inr (), w)), le_iter = sorted_list_of_fset,
     le_snap = sorted_list_of_fset, le_worker_id = ''w1'', le_switch_timeout = from_secs 10,
     le_claim_sort = None, le_stale_sort = None\<rparr>"

lemma demo_env_sel:
  "le_srv demo_env = ref_server" "le_watch demo_env = (\<lambda>stages w. (Inr (), w))"
  "le_iter demo_env = sorted_list_of_fset" "le_snap demo_env = sorted_list_of_fset"
  "le_worker_id demo_env = ''w1''" "le_switch_timeout demo_env = from_secs 10"
  "le_claim_sort demo_env = None" "le_stale_sort demo_env = None"
  by (simp_all add: demo_env_def)

interpretation demo_worker: worker_server ref_match ref_agg ref_upd ref_ins demo_env ref_docs "(=)" ref_le True
  unfolding worker_server_def worker_server_axioms_def demo_env_sel
  using ref.mongo_server_axioms ordered.set_iteration_axioms by simp

definition idle_world :: ref_world where
  "idle_world = (ref_world_of [] 5)\<lparr>rw_clock := 7, rw_uuids := 1\<rparr>"

definition idle_state :: "bool \<Rightarrow> loop_state" where
  "idle_state b = \<lparr>lp_pool = pool_new 2, lp_tracker = tracker_new, lp_stream = b, lp_ended = 0\<rparr>"

lemma demo_scans:
  "refresh_running_expirations ref_server (from_secs 10) tracker_new (ref_world_of [] t) = (tracker_new, ref_world_of [] t)"
  "refresh_pending_tasks ref_server tracker_new (ref_world_of [] t) = (tracker_new, ref_world_of [] t)"
  by (simp_all add: refresh_running_expirations_def refresh_pending_tasks_def ref_eval clear_running_def
      set_pending_may_exist_def tracker_new_def)

lemma demo_start: "worker_loop_start demo_env 2 (ref_world_of [] 5) = (Claiming Ready (idle_state True), ref_world_of [] 5)"
  by (simp add: worker_loop_start_def connect_stream_def open_change_stream_def resync_def demo_scans
      demo_env_sel idle_state_def)

lemma demo_claim_step:
  "claim_step demo_env Ready (idle_state b) (ref_world_of [] 5) = (Looping (idle_state b), idle_world)"
  by (simp add: claim_step_def demo_env_sel idle_state_def demo_round_none idle_world_def)

lemma demo_empty_ok: "coll_ok (ref_docs (ref_world_of [] t))"
  by (simp add: coll_ok_def ref_docs_def ref_world_of_def)

lemma demo_empty_ids: "ids_ok (ref_docs (ref_world_of [] t))"
  by (simp add: ids_ok_def ref_docs_def ref_world_of_def)

lemma demo_ids_kept: "ids_kept (=)"
  by (simp add: ids_kept_def)

theorem worker_loop_stays_consistent_witness:
  "worker_loop_start demo_env 2 (ref_world_of [] 5) = (Claiming Ready (idle_state True), ref_world_of [] 5) \<and>
     loop_inv 2 (Looping (idle_state True)) \<and> coll_ok (ref_docs idle_world)"
proof -
  have "loop_run demo_env [NextRound] (Claiming Ready (idle_state True), ref_world_of [] 5) =
      Some (Looping (idle_state True), idle_world)"
    by (simp add: demo_claim_step)
  from worker_loop_stays_consistent [OF demo_worker.worker_server_axioms demo_empty_ok demo_start this]
  show ?thesis using demo_start by blast
qed

text \<open>
  C25: a freed permit is used at once. When a task has ended and is joined, the loop claims ready tasks in rounds
  before it waits for anything else, whatever the tracker's hint about pending work says. As long as it does, the
  next round is possible, and there are at most as many rounds that start a task as permits were free or become
  free. When the loop goes back to waiting, its last round found no free permit, or its claim failed, or at
  some moment between the start and the end of this round every pending task was running in this worker.
\<close>

theorem freed_permit_is_used:
  assumes "worker_server qmatch agg upd ins env docs rely le uniq" and "coll_ok (docs w)"
    and "ids_ok (docs w)" and "ids_kept rely" and "\<forall>ev\<in>set evs. in_visit ev"
    and "loop_run env (TaskJoined # evs @ [NextRound]) (Looping s, w) = Some (ph, w1)"
  shows "\<exists>s0 w0. loop_run env (TaskJoined # evs) (Looping s, w) = Some (Claiming Ready s0, w0) \<and>
    rounds evs \<le> permits (lp_pool s) + ends evs \<and>
    ((\<exists>s1. ph = Claiming Ready s1 \<and> loop_step env NextRound (ph, w1) \<noteq> None) \<or>
     (\<exists>s1. ph = Looping s1 \<and> ready_settled env docs rely (lp_pool s1) w0 w1))"
proof -
  let ?s = "s\<lparr>lp_ended := lp_ended s - 1\<rparr>"
  have step: "loop_step env TaskJoined (Looping s, w) = Some (Claiming Ready ?s, w)"
    using assms(6) by (auto split: if_splits)
  then have run: "loop_run env (evs @ [NextRound]) (Claiming Ready ?s, w) = Some (ph, w1)" using assms(6) by simp
  from worker_server.visit_settles [OF assms(1) run assms(5,2)] show ?thesis
    unfolding loop_run.simps(2) step using assms(3,4) by simp
qed

lemma demo_joined:
  "\<exists>ph w1. loop_run demo_env (TaskJoined # [] @ [NextRound]) (Looping ((idle_state True)\<lparr>lp_ended := 1\<rparr>), ref_world_of [] 5) =
     Some (ph, w1)"
  by (simp add: idle_state_def)

theorem freed_permit_is_used_witness:
  "\<exists>ph w1 w0. loop_run demo_env (TaskJoined # [] @ [NextRound]) (Looping ((idle_state True)\<lparr>lp_ended := 1\<rparr>), ref_world_of [] 5) =
       Some (ph, w1) \<and>
     ((\<exists>s1. ph = Claiming Ready s1) \<or> (\<exists>s1. ph = Looping s1 \<and> ready_settled demo_env ref_docs (=) (lp_pool s1) w0 w1))"
proof -
  obtain ph w1 where run: "loop_run demo_env (TaskJoined # [] @ [NextRound]) (Looping ((idle_state True)\<lparr>lp_ended := 1\<rparr>), ref_world_of [] 5) =
     Some (ph, w1)"
    using demo_joined by blast
  have "\<forall>ev\<in>set []. in_visit ev" by simp
  from freed_permit_is_used [OF demo_worker.worker_server_axioms demo_empty_ok demo_empty_ids demo_ids_kept this run] run
  show ?thesis by blast
qed

text \<open>
  C24: abandoned work is taken over. The recovery tick scans and claims in rounds. When the loop goes back to
  waiting, its last round found no free permit, or its claim failed, or every running task whose lease had ended
  when this round read the clock is running in this worker, so another worker's crash costs a task at most
  its lease and the tick's interval.
\<close>

theorem recovery_tick_takes_abandoned:
  assumes "worker_server qmatch agg upd ins env docs rely le uniq" and "coll_ok (docs w)"
    and "\<forall>ev\<in>set evs. in_visit ev"
    and "loop_run env (RecoveryTick # evs @ [NextRound]) (Looping s, w) = Some (ph, w1)"
  shows "\<exists>s0 w0. loop_run env (RecoveryTick # evs) (Looping s, w) = Some (Claiming StaleRecovery s0, w0) \<and>
    ((\<exists>s1. ph = Claiming StaleRecovery s1 \<and> loop_step env NextRound (ph, w1) \<noteq> None) \<or>
     (\<exists>s1. ph = Looping s1 \<and> stale_settled env docs (lp_pool s1) w0 w1))"
proof -
  obtain ph2 w2 where r: "resync env StaleRecovery s w = (ph2, w2)" by fastforce
  have step: "loop_step env RecoveryTick (Looping s, w) = Some (ph2, w2)"
    using assms(4) r by (auto split: if_splits)
  obtain t where ph2: "ph2 = Claiming StaleRecovery (s\<lparr>lp_tracker := t\<rparr>)" and "rely (docs w) (docs w2)"
    using r by (rule worker_server.scans_rely [OF assms(1)])
  then have ok: "coll_ok (docs w2)"
    using mongo_server.rely_coll_ok [OF worker_server.axioms(1) [OF assms(1)]] assms(2) by blast
  have run: "loop_run env (evs @ [NextRound]) (Claiming StaleRecovery (s\<lparr>lp_tracker := t\<rparr>), w2) = Some (ph, w1)"
    using assms(4) step ph2 by simp
  from worker_server.visit_settles [OF assms(1) run assms(3) ok] show ?thesis
    unfolding loop_run.simps(2) step ph2 by simp blast
qed

theorem recovery_tick_takes_abandoned_witness:
  "\<exists>ph w1 w0. loop_run demo_env (RecoveryTick # [] @ [NextRound]) (Looping (idle_state True), demo_world 20000) =
       Some (ph, w1) \<and>
     ((\<exists>s1. ph = Claiming StaleRecovery s1) \<or> (\<exists>s1. ph = Looping s1 \<and> stale_settled demo_env ref_docs (lp_pool s1) w0 w1))"
proof -
  obtain ph0 w0 where "resync demo_env StaleRecovery (idle_state True) (demo_world 20000) = (ph0, w0)" by fastforce
  moreover from this obtain s0 where "ph0 = Claiming StaleRecovery s0" by (rule demo_worker.scans_rely) blast
  moreover obtain ph w1 where "claim_step demo_env StaleRecovery s0 w0 = (ph, w1)" by fastforce
  ultimately have run: "loop_run demo_env (RecoveryTick # [] @ [NextRound]) (Looping (idle_state True), demo_world 20000) =
     Some (ph, w1)"
    by (simp add: idle_state_def)
  have "\<forall>ev\<in>set []. in_visit ev" by simp
  from recovery_tick_takes_abandoned [OF demo_worker.worker_server_axioms demo_ok this run] run
  show ?thesis by blast
qed

text \<open>
  C23: a new request wakes the workers. The server's pipeline lets every event through that reports a
  pending task, be it a new document or one that was reset, and a loop that receives the event claims ready
  tasks at once, in rounds: as long as it does, the next round is possible, and their number is bounded as
  above. When the loop goes back to waiting, its last round found no free permit, or its claim failed, or at
  some moment between the start and the end of this round, so after the event, every pending task was running here.
\<close>

theorem pending_event_wakes_worker:
  assumes "worker_server qmatch agg upd ins env docs rely le uniq" and "mongo_pipeline qmatch agg upd ins"
    and "coll_ok (docs w)" and "ids_ok (docs w)" and "ids_kept rely" and "reported_status ev = Some ''pending''"
    and "\<forall>ev\<in>set evs. in_visit ev"
    and "loop_run env (StreamEvent ev # evs @ [NextRound]) (Looping s, w) = Some (ph, w1)"
  shows "passes qmatch ev \<and>
    (\<exists>s0 w0. loop_run env (StreamEvent ev # evs) (Looping s, w) = Some (Claiming Ready s0, w0) \<and>
      rounds evs \<le> permits (lp_pool s) + ends evs \<and>
      ((\<exists>s1. ph = Claiming Ready s1 \<and> loop_step env NextRound (ph, w1) \<noteq> None) \<or>
       (\<exists>s1. ph = Looping s1 \<and> ready_settled env docs rely (lp_pool s1) w0 w1)))"
proof
  have ready: "fst (apply_change_event_to_expirations ev (le_switch_timeout env) (lp_tracker s))"
    by (rule pending_event_ready [OF assms(6)])
  then show "passes qmatch ev" using mongo_pipeline.filtered_is_noop [OF assms(2)] by (metis fst_conv)
  obtain t where "apply_change_event_to_expirations ev (le_switch_timeout env) (lp_tracker s) = (True, t)"
    using ready by (metis prod.collapse)
  then have step: "loop_step env (StreamEvent ev) (Looping s, w) = Some (Claiming Ready (s\<lparr>lp_tracker := t\<rparr>), w)"
    using assms(8) by (auto split: if_splits)
  then have run: "loop_run env (evs @ [NextRound]) (Claiming Ready (s\<lparr>lp_tracker := t\<rparr>), w) = Some (ph, w1)"
    using assms(8) by simp
  from worker_server.visit_settles [OF assms(1) run assms(7,3)]
  show "\<exists>s0 w0. loop_run env (StreamEvent ev # evs) (Looping s, w) = Some (Claiming Ready s0, w0) \<and>
      rounds evs \<le> permits (lp_pool s) + ends evs \<and>
      ((\<exists>s1. ph = Claiming Ready s1 \<and> loop_step env NextRound (ph, w1) \<noteq> None) \<or>
       (\<exists>s1. ph = Looping s1 \<and> ready_settled env docs rely (lp_pool s1) w0 w1))"
    unfolding loop_run.simps(2) step using assms(4,5) by simp
qed

definition demo_insert_event :: change_event where
  "demo_insert_event = \<lparr>operation = Insert, full_document = Some (demo_task ''pending'' ''a'' [] 1),
     document_key = Some [(''_id'', BObjectId (ObjectId 1))], updated_fields = None\<rparr>"

lemma demo_insert_pending: "reported_status demo_insert_event = Some ''pending''"
  by (simp add: reported_status_def demo_insert_event_def demo_task_def status_of_def get_str_def doc_get_def)

theorem pending_event_wakes_worker_witness:
  "\<exists>ph w1 w0. loop_run demo_env (StreamEvent demo_insert_event # [] @ [NextRound]) (Looping (idle_state True), demo_world 5000) =
       Some (ph, w1) \<and> passes ref_match demo_insert_event \<and>
     ((\<exists>s1. ph = Claiming Ready s1) \<or> (\<exists>s1. ph = Looping s1 \<and> ready_settled demo_env ref_docs (=) (lp_pool s1) w0 w1))"
proof -
  obtain t where "apply_change_event_to_expirations demo_insert_event (le_switch_timeout demo_env) (lp_tracker (idle_state True)) = (True, t)"
    using pending_event_ready [OF demo_insert_pending] by (metis prod.collapse)
  moreover obtain ph w1 where "claim_step demo_env Ready ((idle_state True)\<lparr>lp_tracker := t\<rparr>) (demo_world 5000) = (ph, w1)"
    by fastforce
  ultimately have run: "loop_run demo_env (StreamEvent demo_insert_event # [] @ [NextRound]) (Looping (idle_state True), demo_world 5000) =
     Some (ph, w1)"
    by (simp add: idle_state_def)
  have "\<forall>ev\<in>set []. in_visit ev" by simp
  from pending_event_wakes_worker [OF demo_worker.worker_server_axioms refp.mongo_pipeline_axioms demo_ok demo_ids
      demo_ids_kept demo_insert_pending this run] run
  show ?thesis by blast
qed





text \<open>
  Shutting down drains and ends. After the stop signal the loop claims nothing and does not touch the
  server; it joins the tasks that were started, none of them aborted, and exits with success after
  exactly two steps for each running task, one for each ended one and the last.
\<close>

theorem shutdown_drains:
  assumes "loop_step env StopSignal (Looping s, w) = Some (ph0, w0)"
    and "loop_run env evs (ph0, w0) = Some (ph, w1)"
  shows "w1 = w \<and>
    (case ph of
       Draining p n \<Rightarrow>
         length evs + 2 * length (join_set p) + n = 2 * length (join_set (lp_pool s)) + lp_ended s
     | Exited r \<Rightarrow> r = Inr () \<and> length evs = 2 * length (join_set (lp_pool s)) + lp_ended s + 1
     | _ \<Rightarrow> False)"
proof -
  have "ph0 = Draining (lp_pool s) (lp_ended s)" "w0 = w" using assms(1) by (simp_all split: if_splits)
  then show ?thesis using draining_run assms(2) by simp
qed

theorem shutdown_drains_witness:
  "\<exists>ph. loop_run demo_env [JoinSetEmpty] (Draining (pool_new 2) 0, idle_world) = Some (ph, idle_world) \<and>
     (case ph of Exited r \<Rightarrow> r = Inr () | _ \<Rightarrow> False)"
proof -
  have s: "loop_step demo_env StopSignal (Looping (idle_state True), idle_world) =
      Some (Draining (pool_new 2) 0, idle_world)"
    and r: "loop_run demo_env [JoinSetEmpty] (Draining (pool_new 2) 0, idle_world) = Some (Exited (Inr ()), idle_world)"
    by (simp_all add: idle_state_def pool_new_def)
  from shutdown_drains [OF s r] r show ?thesis by simp
qed

text \<open>
  C34: a worker that has lost its change stream cannot be stopped. As long as opening a new one fails with
  an error that does not say that change streams are unsupported, the loop tries again at once, for any
  number of rounds; it never polls the stop signal, so \<open>shutdown\<close> waits for ever.
\<close>

theorem stop_ignored_while_disconnected:
  assumes "\<And>w. \<exists>e w1. le_watch env expiry_change_stream_pipeline w = (Inl e, w1) \<and> \<not> is_change_stream_unsupported e"
    and "loop_run env evs (Looping s, w) = Some (ph, w1)" and "\<not> lp_stream s"
  shows "(\<exists>s1. (ph = Looping s1 \<or> ph = Claiming Ready s1) \<and> \<not> lp_stream s1) \<and> StopSignal \<notin> set evs \<and>
    loop_step env StopSignal (ph, w1) = None"
  using disconnected_run [OF assms(1,2) _ assms(3)] by auto

theorem stop_ignored_while_disconnected_witness:
  "\<exists>ph w1. loop_run (demo_env\<lparr>le_watch := \<lambda>stages w. (Inl (OtherError ''down''), w)\<rparr>) [Reconnect, NextRound]
       (Looping (idle_state False), ref_world_of [] 5) = Some (ph, w1) \<and>
     loop_step (demo_env\<lparr>le_watch := \<lambda>stages w. (Inl (OtherError ''down''), w)\<rparr>) StopSignal (ph, w1) = None"
proof -
  let ?env = "demo_env\<lparr>le_watch := \<lambda>stages w. (Inl (OtherError ''down''), w)\<rparr>"
  have down: "\<not> is_change_stream_unsupported (OtherError ''down'')"
    by (simp add: contains_str_def sublist_def Cons_eq_append_conv)
  then have fails: "\<exists>e w1. le_watch ?env expiry_change_stream_pipeline w = (Inl e, w1) \<and>
      \<not> is_change_stream_unsupported e" for w
    by simp
  have "connect_stream ?env (idle_state False) (ref_world_of [] 5) = (Claiming Ready (idle_state False), ref_world_of [] 5)"
    using down by (simp add: connect_stream_def open_change_stream_def resync_def demo_env_sel demo_scans idle_state_def
        del: is_change_stream_unsupported.simps)
  moreover have "claim_step ?env Ready (idle_state False) (ref_world_of [] 5) = (Looping (idle_state False), idle_world)"
    using demo_claim_step [of False] by (simp add: claim_step_def)
  ultimately have r: "loop_run ?env [Reconnect, NextRound] (Looping (idle_state False), ref_world_of [] 5) =
      Some (Looping (idle_state False), idle_world)"
    by (simp add: idle_state_def)
  have d: "\<not> lp_stream (idle_state False)" by (simp add: idle_state_def)
  show ?thesis using stop_ignored_while_disconnected [OF fails r d] r by blast
qed

end
