(* ===== verification/Enqueue.thy ===== *)
theory Enqueue
  imports Job
begin

text \<open>
  The caller (\<open>src/caller.rs\<close>): the builder of a request, the upsert that enqueues a task or resets a
  finished one, and the ways to read a result, by inspecting the document or by watching the change
  stream. Serialisation of payloads and outputs belongs to the user's types and is a parameter.
\<close>

section \<open>Requests\<close>

datatype enqueue_action = Inserted | Reset

record enqueue_outcome =
  eo_task_id :: string
  eo_action :: enqueue_action

text \<open>\<open>Caller\<close>; \<open>opened\<close> is what \<open>connect_collection\<close> returned.\<close>

record 'c caller =
  cl_config :: config
  cl_collection :: 'c

definition caller_connect :: "request_error + 'c \<Rightarrow> config \<Rightarrow> request_error + 'c caller" where
  "caller_connect opened cfg =
     (case opened of
        Inl e \<Rightarrow> Inl e
      | Inr collection \<Rightarrow> Inr \<lparr>cl_config = cfg, cl_collection = collection\<rparr>)"

text \<open>\<open>SendBuilder\<close>; its caller is represented by the configuration.\<close>

record send_builder =
  sb_config :: config
  sb_payload :: "bson option"
  sb_payload_err :: "request_error option"
  sb_timeout :: "duration option"
  sb_worker_switch_timeout :: "duration option"
  sb_idempotency_key :: "string option"
  sb_reset_when :: "document option"
  sb_trace_context :: "trace_context option"

definition send ::
  "('i \<Rightarrow> bson option) \<Rightarrow> ('t, 's, 'st) otel \<Rightarrow> ('t, 's, 'st) span_context \<Rightarrow> config \<Rightarrow> 'i \<Rightarrow> send_builder" where
  "send ser ot current cfg payload =
     (let (payload1, payload_err) =
        (case ser payload of
           Some b \<Rightarrow> (Some b, None)
         | None \<Rightarrow> (None, Some (PayloadFormat ''task_input'')))
      in \<lparr>sb_config = cfg, sb_payload = payload1, sb_payload_err = payload_err, sb_timeout = None,
          sb_worker_switch_timeout = None, sb_idempotency_key = None, sb_reset_when = None,
          sb_trace_context = capture_current ot current\<rparr>)"

definition with_timeout :: "duration \<Rightarrow> send_builder \<Rightarrow> send_builder" where
  "with_timeout timeout b = b\<lparr>sb_timeout := Some timeout\<rparr>"

definition with_worker_switch_timeout :: "duration \<Rightarrow> send_builder \<Rightarrow> send_builder" where
  "with_worker_switch_timeout timeout b = b\<lparr>sb_worker_switch_timeout := Some timeout\<rparr>"

definition with_idempotency_key :: "string \<Rightarrow> send_builder \<Rightarrow> send_builder" where
  "with_idempotency_key key b = b\<lparr>sb_idempotency_key := Some key\<rparr>"

definition reset_when :: "document \<Rightarrow> send_builder \<Rightarrow> send_builder" where
  "reset_when predicate b = b\<lparr>sb_reset_when := Some predicate\<rparr>"

definition with_trace_context :: "trace_context \<Rightarrow> send_builder \<Rightarrow> send_builder" where
  "with_trace_context trace b = b\<lparr>sb_trace_context := Some trace\<rparr>"

definition effective_reset_predicate :: "document option \<Rightarrow> config \<Rightarrow> document option" where
  "effective_reset_predicate per_request cfg =
     (case per_request of
        Some predicate \<Rightarrow> Some predicate
      | None \<Rightarrow> if cfg_allow_reset_finished_tasks cfg then Some [] else None)"

section \<open>Enqueueing\<close>

definition enqueue_filter :: "string \<Rightarrow> document option \<Rightarrow> document" where
  "enqueue_filter task_id reset_predicate =
     (case reset_predicate of
        Some predicate \<Rightarrow>
          (let reset_arm = [(''$and'', BArray
                [BDocument [(''status'', op_doc ''$in'' (BArray [BString ''succeeded'', BString ''failed'']))],
                 BDocument predicate])]
           in [(''task_id'', BString task_id),
               (''$or'', BArray
                 [BDocument [(''status'', op_doc ''$exists'' (BBool False))],
                  BDocument reset_arm])])
      | None \<Rightarrow>
          [(''task_id'', BString task_id), (''status'', op_doc ''$exists'' (BBool False))])"

definition enqueue_update ::
  "string \<Rightarrow> bson \<Rightarrow> int \<Rightarrow> duration \<Rightarrow> trace_context option \<Rightarrow> document" where
  "enqueue_update task_id payload now worker_switch_timeout trace_context =
     (let set_fields =
            [(''task_id'', BString task_id),
             (''task_input'', payload),
             (''status'', BString ''pending''),
             (''updated_at'', BDateTime now),
             (''worker_switch_timeout'', BInt64 (as_i64 (as_millis worker_switch_timeout)))];
          trace_bson = (case trace_context of None \<Rightarrow> BNull | Some trace \<Rightarrow> trace_to_bson trace);
          set_fields1 = doc_insert set_fields ''trace_context'' trace_bson
      in [(''$set'', BDocument set_fields1),
          (''$setOnInsert'', BDocument [(''created_at'', BDateTime now)]),
          (''$unset'', BDocument
            [(''task_output'', BString []), (''error_reason'', BString []), (''worker_state'', BString [])])])"

definition upsert_task ::
  "'w server \<Rightarrow> bson \<Rightarrow> duration \<Rightarrow> string option \<Rightarrow> document option \<Rightarrow> trace_context option \<Rightarrow> 'w \<Rightarrow>
   (request_error + enqueue_outcome) \<times> 'w" where
  "upsert_task srv payload worker_switch_timeout idempotency_key reset_predicate trace_context w =
     (let (task_id, w1) = (case idempotency_key of Some key \<Rightarrow> (key, w) | None \<Rightarrow> sv_uuid srv w);
          (now, w2) = sv_now srv w1;
          flt = enqueue_filter task_id reset_predicate;
          update = enqueue_update task_id payload now worker_switch_timeout trace_context
      in case sv_update_one srv flt update True w2 of
           (Inr result, w3) \<Rightarrow>
             if upserted_id result \<noteq> None
             then (Inr \<lparr>eo_task_id = task_id, eo_action = Inserted\<rparr>, w3)
             else if 0 < matched_count result
             then (Inr \<lparr>eo_task_id = task_id, eo_action = Reset\<rparr>, w3)
             else (Inl (Duplicate task_id), w3)
         | (Inl e, w3) \<Rightarrow>
             (case e of
                WriteError code msg \<Rightarrow>
                  if code = 11000 then (Inl (Duplicate task_id), w3) else (Inl (Database (error_text e)), w3)
              | _ \<Rightarrow> (Inl (Database (error_text e)), w3)))"

definition switch_timeout_for :: "send_builder \<Rightarrow> duration" where
  "switch_timeout_for b =
     (case sb_worker_switch_timeout b of
        Some t \<Rightarrow> t
      | None \<Rightarrow> cfg_worker_switch_timeout (sb_config b))"

definition enqueue_only ::
  "'w server \<Rightarrow> send_builder \<Rightarrow> 'w \<Rightarrow> (request_error + enqueue_outcome) \<times> 'w" where
  "enqueue_only srv b w =
     (case sb_payload_err b of
        Some err \<Rightarrow> (Inl err, w)
      | None \<Rightarrow>
          (case sb_payload b of
             None \<Rightarrow> (Inl (PayloadFormat ''task_input''), w)
           | Some payload \<Rightarrow>
               upsert_task srv payload (switch_timeout_for b) (sb_idempotency_key b)
                 (effective_reset_predicate (sb_reset_when b) (sb_config b)) (sb_trace_context b) w))"

definition dispatch ::
  "'w server \<Rightarrow> ('i \<Rightarrow> bson option) \<Rightarrow> ('t, 's, 'st) otel \<Rightarrow> ('t, 's, 'st) span_context \<Rightarrow> config \<Rightarrow> 'i \<Rightarrow>
   'w \<Rightarrow> (request_error + string) \<times> 'w" where
  "dispatch srv ser ot current cfg payload w =
     (case enqueue_only srv (send ser ot current cfg payload) w of
        (Inl e, w1) \<Rightarrow> (Inl e, w1)
      | (Inr outcome, w1) \<Rightarrow> (Inr (eo_task_id outcome), w1))"

section \<open>Reading a result\<close>

definition evaluate_document ::
  "(bson \<Rightarrow> 'o option) \<Rightarrow> document \<Rightarrow> request_error + (request_error + 'o) option" where
  "evaluate_document de doc =
     (case get_str doc ''status'' of
        None \<Rightarrow> Inl (PayloadFormat ''status'')
      | Some status \<Rightarrow>
          if status = ''pending'' then Inr None
          else if status = ''succeeded'' then
            (case doc_get doc ''task_output'' of
               None \<Rightarrow> Inl (PayloadFormat ''task_output'')
             | Some output_bson \<Rightarrow>
                 (case de output_bson of
                    None \<Rightarrow> Inl (PayloadFormat ''task_output'')
                  | Some value \<Rightarrow> Inr (Some (Inr value))))
          else if status = ''failed'' then
            (let reason = (case get_str doc ''error_reason'' of None \<Rightarrow> ''worker failed'' | Some s \<Rightarrow> s)
             in Inr (Some (Inl (TaskFailed reason))))
          else Inr None)"

definition inspect_task ::
  "'w server \<Rightarrow> (bson \<Rightarrow> 'o option) \<Rightarrow> string \<Rightarrow> 'w \<Rightarrow> (request_error + (request_error + 'o) option) \<times> 'w" where
  "inspect_task srv de task_id w =
     (case sv_find_one srv [(''task_id'', BString task_id)] w of
        (Inl e, w1) \<Rightarrow> (Inl (Database (error_text e)), w1)
      | (Inr None, w1) \<Rightarrow> (Inr (Some (Inl (TaskFailed (''task '' @ task_id @ '' missing'')))), w1)
      | (Inr (Some doc), w1) \<Rightarrow> (evaluate_document de doc, w1))"

text \<open>
  What the change stream has delivered: the full documents of its events so far, and whether the
  stream has ended. A wait that has not returned is \<open>None\<close>.
\<close>

record result_stream =
  rs_events :: "(mongo_error + document option) list"
  rs_closed :: bool

fun watch_events ::
  "(bson \<Rightarrow> 'o option) \<Rightarrow> bool \<Rightarrow> (mongo_error + document option) list \<Rightarrow> (request_error + 'o) option" where
  "watch_events de closed [] = (if closed then Some (Inl (Database ''change stream closed'')) else None)"
| "watch_events de closed (Inl e # rest) = Some (Inl (Database (error_text e)))"
| "watch_events de closed (Inr None # rest) = watch_events de closed rest"
| "watch_events de closed (Inr (Some full_doc) # rest) =
     (case evaluate_document de full_doc of
        Inl e \<Rightarrow> Some (Inl e)
      | Inr (Some outcome) \<Rightarrow> Some outcome
      | Inr None \<Rightarrow> watch_events de closed rest)"

definition result_pipeline :: "string \<Rightarrow> document list" where
  "result_pipeline task_id = [[(''$match'', BDocument [(''fullDocument.task_id'', BString task_id)])]]"

text \<open>\<open>open_stream\<close> is the driver's \<open>watch\<close> with the pipeline and full documents on updates.\<close>

definition watch_for_result ::
  "(document list \<Rightarrow> mongo_error + result_stream) \<Rightarrow> (bson \<Rightarrow> 'o option) \<Rightarrow> string \<Rightarrow>
   (request_error + 'o) option" where
  "watch_for_result open_stream de task_id =
     (case open_stream (result_pipeline task_id) of
        Inl e \<Rightarrow> Some (Inl (Database (error_text e)))
      | Inr stream \<Rightarrow> watch_events de (rs_closed stream) (rs_events stream))"

definition wait_for_result ::
  "'w server \<Rightarrow> (document list \<Rightarrow> mongo_error + result_stream) \<Rightarrow> (bson \<Rightarrow> 'o option) \<Rightarrow> string \<Rightarrow> 'w \<Rightarrow>
   (request_error + 'o) option \<times> 'w" where
  "wait_for_result srv open_stream de task_id w =
     (case inspect_task srv de task_id w of
        (Inl e, w1) \<Rightarrow> (Some (Inl e), w1)
      | (Inr (Some outcome), w1) \<Rightarrow> (Some outcome, w1)
      | (Inr None, w1) \<Rightarrow> (watch_for_result open_stream de task_id, w1))"

definition await_response ::
  "'w server \<Rightarrow> (document list \<Rightarrow> mongo_error + result_stream) \<Rightarrow> (bson \<Rightarrow> 'o option) \<Rightarrow> string \<Rightarrow> 'w \<Rightarrow>
   (request_error + 'o) option \<times> 'w" where
  "await_response srv open_stream de task_id w = wait_for_result srv open_stream de task_id w"

text \<open>
  \<open>build_future\<close> takes the payload, or its error, out of the builder and makes the future of the
  request. \<open>elapsed\<close> says whether the request timeout ran out before the wait returned; then the wait,
  with whatever it would have answered, is dropped. Without a timeout the wait goes on.
\<close>

definition build_future ::
  "'w server \<Rightarrow> (document list \<Rightarrow> mongo_error + result_stream) \<Rightarrow> (bson \<Rightarrow> 'o option) \<Rightarrow> send_builder \<Rightarrow>
   (request_error + (bool \<Rightarrow> 'w \<Rightarrow> (request_error + 'o) option \<times> 'w)) \<times> send_builder" where
  "build_future srv open_stream de b =
     (case sb_payload_err b of
        Some err \<Rightarrow> (Inl err, b\<lparr>sb_payload_err := None\<rparr>)
      | None \<Rightarrow>
          (case sb_payload b of
             None \<Rightarrow> (Inl (PayloadFormat ''task_input''), b)
           | Some payload \<Rightarrow>
               (let timeout = (case sb_timeout b of Some t \<Rightarrow> Some t
                      | None \<Rightarrow> cfg_request_timeout (sb_config b));
                    reset_predicate = effective_reset_predicate (sb_reset_when b) (sb_config b)
                in (Inr (\<lambda>elapsed w.
                      case upsert_task srv payload (switch_timeout_for b) (sb_idempotency_key b)
                             reset_predicate (sb_trace_context b) w of
                        (Inl e, w1) \<Rightarrow> (Some (Inl e), w1)
                      | (Inr outcome, w1) \<Rightarrow>
                          (let (r, w2) = wait_for_result srv open_stream de (eo_task_id outcome) w1
                           in (if timeout \<noteq> None \<and> elapsed then Some (Inl Timeout) else r, w2))),
                    b\<lparr>sb_payload := None\<rparr>))))"

text \<open>Awaiting a \<open>SendBuilder\<close>: \<open>poll\<close> builds the future at its first call and polls it to its end.\<close>

definition await_send ::
  "'w server \<Rightarrow> (document list \<Rightarrow> mongo_error + result_stream) \<Rightarrow> (bson \<Rightarrow> 'o option) \<Rightarrow> bool \<Rightarrow>
   send_builder \<Rightarrow> 'w \<Rightarrow> (request_error + 'o) option \<times> 'w" where
  "await_send srv open_stream de elapsed b w =
     (case build_future srv open_stream de b of
        (Inl err, b1) \<Rightarrow> (Some (Inl err), w)
      | (Inr future, b1) \<Rightarrow> future elapsed w)"

section \<open>What the upsert writes\<close>

lemma enqueue_fields:
  "update_fields (enqueue_update tid payload now T trace) ''$set'' =
     [(''task_id'', BString tid), (''task_input'', payload), (''status'', BString ''pending''),
      (''updated_at'', BDateTime now), (''worker_switch_timeout'', BInt64 (as_i64 (as_millis T))),
      (''trace_context'', case trace of None \<Rightarrow> BNull | Some c \<Rightarrow> trace_to_bson c)]"
  "update_fields (enqueue_update tid payload now T trace) ''$setOnInsert'' = [(''created_at'', BDateTime now)]"
  "update_fields (enqueue_update tid payload now T trace) ''$unset'' =
     [(''task_output'', BString []), (''error_reason'', BString []), (''worker_state'', BString [])]"
  by (simp_all add: update_fields_def enqueue_update_def get_document_def bson_simps Let_def)

lemma enqueue_touched:
  "touched (enqueue_update tid payload now T trace) =
     [''task_id'', ''task_input'', ''status'', ''updated_at'', ''worker_switch_timeout'', ''trace_context'',
      ''task_output'', ''error_reason'', ''worker_state'']"
  "touched_on_insert (enqueue_update tid payload now T trace) =
     [''task_id'', ''task_input'', ''status'', ''updated_at'', ''worker_switch_timeout'', ''trace_context'',
      ''task_output'', ''error_reason'', ''worker_state'', ''created_at'']"
  by (simp_all add: touched_def touched_on_insert_def enqueue_fields)

text \<open>A freshly enqueued document: pending, with the request's data and nothing of an earlier run.\<close>

definition enqueued_as :: "string \<Rightarrow> bson \<Rightarrow> duration \<Rightarrow> trace_context option \<Rightarrow> document \<Rightarrow> bool" where
  "enqueued_as tid payload T trace d \<longleftrightarrow>
     fresh_pending d \<and> doc_typed d \<and> task_id_of d = Some tid \<and> doc_get d ''task_input'' = Some payload \<and>
     get_i64 d ''worker_switch_timeout'' = Some (as_i64 (as_millis T)) \<and>
     doc_get d ''trace_context'' = Some (case trace of None \<Rightarrow> BNull | Some c \<Rightarrow> trace_to_bson c) \<and>
     doc_get d ''task_output'' = None \<and> doc_get d ''error_reason'' = None"

lemma enqueued_asI:
  assumes "\<And>k v. (k, v) \<in> set (update_fields (enqueue_update tid payload now T trace) ''$set'') \<Longrightarrow> doc_get d k = Some v"
    and "\<And>k. k \<in> {''task_output'', ''error_reason'', ''worker_state''} \<Longrightarrow> doc_get d k = None"
  shows "enqueued_as tid payload T trace d"
proof -
  have sets: "doc_get d ''task_id'' = Some (BString tid)" "doc_get d ''task_input'' = Some payload"
    "doc_get d ''status'' = Some (BString ''pending'')"
    "doc_get d ''worker_switch_timeout'' = Some (BInt64 (as_i64 (as_millis T)))"
    "doc_get d ''trace_context'' = Some (case trace of None \<Rightarrow> BNull | Some c \<Rightarrow> trace_to_bson c)"
    by (rule assms(1), simp add: enqueue_fields)+
  have none: "doc_get d ''task_output'' = None" "doc_get d ''error_reason'' = None" "doc_get d ''worker_state'' = None"
    using assms(2) by simp_all
  then have "doc_typed d" using sets by (simp add: doc_typed_def field_ok_def)
  then show ?thesis
    using sets none by (simp add: enqueued_as_def fresh_pending_def status_of_def task_id_of_def accessor_defs)
qed

context mongo_query
begin

lemma enqueue_apart: "pairwise_apart (touched_on_insert (enqueue_update tid payload now T trace))"
  by (simp add: enqueue_touched paths_apart_def split_paths)

lemma enqueue_apart_upd: "pairwise_apart (touched (enqueue_update tid payload now T trace))"
  by (simp add: enqueue_touched paths_apart_def split_paths)

lemma upd_enqueue:
  assumes "doc_typed d"
  shows "enqueued_as tid payload T trace (upd (enqueue_update tid payload now T trace) d)"
    and "doc_get (upd (enqueue_update tid payload now T trace) d) ''_id'' = doc_get d ''_id''"
proof -
  let ?u = "enqueue_update tid payload now T trace"
  show "enqueued_as tid payload T trace (upd ?u d)"
  proof (rule enqueued_asI)
    fix k v assume kv: "(k, v) \<in> set (update_fields ?u ''$set'')"
    then have k: "split_path k = [k]" by (auto simp: enqueue_fields split_paths)
    have "path_get (upd ?u d) k = Some v" by (rule upd_set [OF enqueue_apart_upd kv settable_one [OF k]])
    then show "doc_get (upd ?u d) k = Some v" using k by (simp add: path_get_field)
  next
    fix k :: string assume "k \<in> {''task_output'', ''error_reason'', ''worker_state''}"
    then have "k \<in> fst ` set (update_fields ?u ''$unset'')" and k: "split_path k = [k]"
      by (auto simp: enqueue_fields split_paths)
    then have "path_get (upd ?u d) k = None" by (intro upd_unset [OF enqueue_apart_upd])
    then show "doc_get (upd ?u d) k = None" using k by (simp add: path_get_field)
  qed
  have "path_get (upd ?u d) ''_id'' = path_get d ''_id''"
    by (rule upd_frame) (simp_all add: enqueue_touched paths_apart_def split_paths settable_one)
  then show "doc_get (upd ?u d) ''_id'' = doc_get d ''_id''" by (simp add: path_gets)
qed

lemma ins_enqueue:
  shows "enqueued_as tid payload T trace (ins f (enqueue_update tid payload now T trace) i)"
    and "doc_get (ins f (enqueue_update tid payload now T trace) i) ''_id'' = Some (BObjectId i)"
proof -
  let ?u = "enqueue_update tid payload now T trace"
  show "enqueued_as tid payload T trace (ins f ?u i)"
  proof (rule enqueued_asI)
    fix k v assume kv: "(k, v) \<in> set (update_fields ?u ''$set'')"
    then have k: "split_path k = [k]" by (auto simp: enqueue_fields split_paths)
    have "path_get (ins f ?u i) k = Some v"
      using kv by (intro ins_set [OF enqueue_apart _ settable_one [OF k]]) simp
    then show "doc_get (ins f ?u i) k = Some v" using k by (simp add: path_get_field)
  next
    fix k :: string assume "k \<in> {''task_output'', ''error_reason'', ''worker_state''}"
    then have "k \<in> fst ` set (update_fields ?u ''$unset'')" and k: "split_path k = [k]"
      by (auto simp: enqueue_fields split_paths)
    then have "path_get (ins f ?u i) k = None" by (intro ins_unset [OF enqueue_apart])
    then show "doc_get (ins f ?u i) k = None" using k by (simp add: path_get_field)
  qed
  have "path_get (ins f ?u i) ''_id'' = Some (BObjectId i)"
    by (rule ins_id) (simp add: enqueue_touched paths_apart_def split_paths)
  then show "doc_get (ins f ?u i) ''_id'' = Some (BObjectId i)" by (simp add: path_gets)
qed

lemma match_in_finished:
  "doc_typed d \<Longrightarrow>
    qmatch [(''status'', op_doc ''$in'' (BArray [BString ''succeeded'', BString ''failed'']))] d \<longleftrightarrow>
    status_of d = Some ''succeeded'' \<or> status_of d = Some ''failed''"
  using match_status_in [of d "[''succeeded'', ''failed'']"] by auto

text \<open>The filter selects the task's document if it has no status, or is finished and satisfies the predicate.\<close>

lemma match_enqueue:
  assumes "doc_typed d"
  shows "qmatch (enqueue_filter tid pred) d \<longleftrightarrow> task_id_of d = Some tid \<and>
    (status_of d = None \<or>
     (status_of d = Some ''succeeded'' \<or> status_of d = Some ''failed'') \<and>
       (case pred of None \<Rightarrow> False | Some f \<Rightarrow> qmatch f d))"
proof (cases pred)
  case None
  then show ?thesis
    by (auto simp: enqueue_filter_def match_Cons match_fields [OF assms] match_status_exists [OF assms])
next
  case (Some f)
  have arm: "qmatch [(''$and'', BArray
      [BDocument [(''status'', op_doc ''$in'' (BArray [BString ''succeeded'', BString ''failed'']))],
       BDocument f])] d \<longleftrightarrow> (status_of d = Some ''succeeded'' \<or> status_of d = Some ''failed'') \<and> qmatch f d"
    using match_and [of "[[(''status'', op_doc ''$in'' (BArray [BString ''succeeded'', BString ''failed'']))], f]" d]
    by (simp add: match_in_finished [OF assms])
  have alt: "qmatch [(''$or'', BArray
      [BDocument [(''status'', op_doc ''$exists'' (BBool False))], BDocument
        [(''$and'', BArray
          [BDocument [(''status'', op_doc ''$in'' (BArray [BString ''succeeded'', BString ''failed'']))],
           BDocument f])]])] d \<longleftrightarrow>
      status_of d = None \<or> (status_of d = Some ''succeeded'' \<or> status_of d = Some ''failed'') \<and> qmatch f d"
    using match_or [of "[[(''status'', op_doc ''$exists'' (BBool False))], [(''$and'', BArray
          [BDocument [(''status'', op_doc ''$in'' (BArray [BString ''succeeded'', BString ''failed'']))],
           BDocument f])]]" d]
    by (simp add: arm match_status_exists [OF assms])
  show ?thesis
    unfolding enqueue_filter_def Some Let_def option.case match_Cons
    by (simp only: alt match_fields [OF assms])
qed

end

section \<open>Effect of an upsert\<close>

definition request_id :: "'w server \<Rightarrow> string option \<Rightarrow> 'w \<Rightarrow> string" where
  "request_id srv key w = (case key of Some k \<Rightarrow> k | None \<Rightarrow> fst (sv_uuid srv w))"

text \<open>Documents that the upsert may turn into a new request.\<close>

definition is_finished :: "document \<Rightarrow> bool" where
  "is_finished d \<longleftrightarrow> status_of d = Some ''succeeded'' \<or> status_of d = Some ''failed''"

definition resettable :: "(document \<Rightarrow> document \<Rightarrow> bool) \<Rightarrow> document option \<Rightarrow> document \<Rightarrow> bool" where
  "resettable qm pred d \<longleftrightarrow>
     status_of d = None \<or> is_finished d \<and> (case pred of None \<Rightarrow> False | Some f \<Rightarrow> qm f d)"

definition enqueue_inserts ::
  "bool \<Rightarrow> string \<Rightarrow> bson \<Rightarrow> duration \<Rightarrow> trace_context option \<Rightarrow> collection \<Rightarrow> collection \<Rightarrow> bool" where
  "enqueue_inserts uniq tid payload T trace D D' \<longleftrightarrow>
     (\<exists>i d. D i = None \<and> D' = D(i \<mapsto> d) \<and> enqueued_as tid payload T trace d \<and>
        doc_get d ''_id'' = Some (BObjectId i) \<and>
        (uniq \<longrightarrow> (\<forall>j e. D j = Some e \<longrightarrow> task_id_of e \<noteq> Some tid)))"

definition enqueue_resets ::
  "(document \<Rightarrow> bool) \<Rightarrow> string \<Rightarrow> bson \<Rightarrow> duration \<Rightarrow> trace_context option \<Rightarrow> collection \<Rightarrow> collection \<Rightarrow> bool" where
  "enqueue_resets may tid payload T trace D D' \<longleftrightarrow>
     (\<exists>i d d'. D i = Some d \<and> task_id_of d = Some tid \<and> may d \<and> D' = D(i \<mapsto> d') \<and>
        enqueued_as tid payload T trace d' \<and> doc_get d' ''_id'' = doc_get d ''_id'')"

definition none_resettable :: "(document \<Rightarrow> bool) \<Rightarrow> string \<Rightarrow> collection \<Rightarrow> bool" where
  "none_resettable may tid D \<longleftrightarrow> (\<forall>i d. D i = Some d \<longrightarrow> task_id_of d = Some tid \<longrightarrow> \<not> may d)"

lemma task_id_doc_get: "task_id_of d = Some tid \<longleftrightarrow> doc_get d ''task_id'' = Some (BString tid)"
  by (cases "doc_get d ''task_id''"; cases "the (doc_get d ''task_id'')") (simp_all add: task_id_of_def accessor_defs)

lemma enqueued_task: "enqueued_as tid payload T trace d \<Longrightarrow> task_id_of d = Some tid"
  by (simp add: enqueued_as_def)

text \<open>
  What an answer of \<open>upsert_task\<close> says about the collection: \<open>may\<close> holds of the documents that the
  filter may reset.
\<close>

definition upsert_outcome ::
  "bool \<Rightarrow> (document \<Rightarrow> bool) \<Rightarrow> (collection \<Rightarrow> collection \<Rightarrow> bool) \<Rightarrow> string \<Rightarrow> bson \<Rightarrow> duration \<Rightarrow>
   trace_context option \<Rightarrow> request_error + enqueue_outcome \<Rightarrow> collection \<Rightarrow> collection \<Rightarrow> bool" where
  "upsert_outcome uniq may rely tid payload T trace r D D' \<longleftrightarrow>
     (case r of
        Inr oc \<Rightarrow> eo_task_id oc = tid \<and>
          (case eo_action oc of
             Inserted \<Rightarrow> enqueue_inserts uniq tid payload T trace D D' \<and> none_resettable may tid D
           | Reset \<Rightarrow> enqueue_resets may tid payload T trace D D')
      | Inl (Duplicate t) \<Rightarrow> t = tid \<and> rely D D' \<and> none_resettable may tid D \<and>
          (\<exists>i d. D' i = Some d \<and> task_id_of d = Some tid)
      | Inl (Database m) \<Rightarrow> D' = D \<or> enqueue_inserts uniq tid payload T trace D D' \<or>
          enqueue_resets may tid payload T trace D D'
      | Inl _ \<Rightarrow> False)"

lemma enqueue_resets_step:
  assumes "enqueue_resets (resettable qm pred) tid payload T trace D D'"
  shows "\<exists>i. task_step D (ResetTask i) D'"
proof -
  obtain i d d' where d: "D i = Some d" "task_id_of d = Some tid" "resettable qm pred d" "D' = D(i \<mapsto> d')"
    "enqueued_as tid payload T trace d'" "doc_get d' ''_id'' = doc_get d ''_id''"
    using assms by (auto simp: enqueue_resets_def)
  then show ?thesis
    using task_step.reset [of D i d d'] by (auto simp: resettable_def is_finished_def enqueued_as_def keeps_def)
qed

lemma enqueue_inserts_step:
  "enqueue_inserts uniq tid payload T trace D D' \<Longrightarrow> \<exists>i. task_step D (InsertTask i) D'"
  by (auto simp: enqueue_inserts_def enqueued_as_def intro: task_step.insert)

lemma upsert_outcome_step:
  assumes "upsert_outcome uniq (resettable qm pred) rely tid payload T trace r D D'"
  shows "rely D D' \<or> D' = D \<or> (\<exists>i. task_step D (InsertTask i) D' \<or> task_step D (ResetTask i) D')"
proof (cases r)
  case (Inl e)
  then show ?thesis
    using assms enqueue_resets_step [of qm pred] enqueue_inserts_step [of uniq]
    by (cases e) (simp_all add: upsert_outcome_def, blast+)
next
  case (Inr oc)
  then show ?thesis
    using assms enqueue_resets_step [of qm pred] enqueue_inserts_step [of uniq]
    by (cases "eo_action oc") (simp_all add: upsert_outcome_def, blast+)
qed

context mongo_server
begin

lemma updates_one_enqueue:
  assumes "coll_ok D" and "updates_one qmatch upd (enqueue_filter tid pred) (enqueue_update tid payload t T trace) D i d D'"
  shows "enqueue_resets (resettable qmatch pred) tid payload T trace D D'"
proof -
  have d: "D i = Some d" "qmatch (enqueue_filter tid pred) d"
    "D' = D(i \<mapsto> upd (enqueue_update tid payload t T trace) d)"
    using assms(2) by (simp_all add: updates_one_def)
  then have typed: "doc_typed d" using assms(1) by (simp add: coll_ok_def)
  have "task_id_of d = Some tid" and "resettable qmatch pred d"
    using match_enqueue [OF typed] d(2) by (auto simp: resettable_def is_finished_def)
  then show ?thesis
    unfolding enqueue_resets_def d(3) using d(1) upd_enqueue [OF typed] by blast
qed

lemma no_match_enqueue:
  assumes "coll_ok D"
  shows "no_match qmatch (enqueue_filter tid pred) D \<longleftrightarrow> none_resettable (resettable qmatch pred) tid D"
  using assms match_enqueue
  by (auto simp: no_match_def none_resettable_def coll_ok_def resettable_def is_finished_def)

lemma ins_enqueue_inserts:
  assumes "D i = None" and "uniq \<longrightarrow> (\<forall>j e. D j = Some e \<longrightarrow> doc_get e ''task_id'' \<noteq>
      doc_get (ins f (enqueue_update tid payload t T trace) i) ''task_id'')"
  shows "enqueue_inserts uniq tid payload T trace D (D(i \<mapsto> ins f (enqueue_update tid payload t T trace) i))"
proof -
  have e: "enqueued_as tid payload T trace (ins f (enqueue_update tid payload t T trace) i)"
    by (rule ins_enqueue)
  then have "doc_get (ins f (enqueue_update tid payload t T trace) i) ''task_id'' = Some (BString tid)"
    using task_id_doc_get enqueued_task by blast
  then have "uniq \<longrightarrow> (\<forall>j e. D j = Some e \<longrightarrow> task_id_of e \<noteq> Some tid)"
    using assms(2) by (simp add: task_id_doc_get)
  then show ?thesis unfolding enqueue_inserts_def using assms(1) e ins_enqueue(2) by blast
qed

lemma upsert_spec:
  assumes "coll_ok (docs w)" and run: "upsert_task srv payload T key pred trace w = (r, w1)"
  shows "\<exists>D. rely (docs w) D \<and> upsert_outcome uniq (resettable qmatch pred) rely (request_id srv key w) payload T trace r D (docs w1)"
proof -
  obtain tid wa where a: "(case key of Some key \<Rightarrow> (key, w) | None \<Rightarrow> sv_uuid srv w) = (tid, wa)"
    by (metis surj_pair)
  obtain t wb where b: "sv_now srv wa = (t, wb)" by (metis surj_pair)
  let ?f = "enqueue_filter tid pred" and ?u = "enqueue_update tid payload t T trace"
  obtain r3 w3 where c: "sv_update_one srv ?f ?u True wb = (r3, w3)" by (metis surj_pair)
  have tid: "tid = request_id srv key w"
    using a by (auto simp: request_id_def split: option.splits)
  have "docs wa = docs w" using a uuid_docs by (auto split: option.splits)
  then have docs: "docs wb = docs w" using now_docs [OF b] by simp
  obtain D where D: "rely (docs w) D" and body: "case r3 of
           Inl e \<Rightarrow>
             (if \<exists>m. e = WriteError 11000 m
              then no_match qmatch ?f D \<and> rely D (docs w3) \<and>
                (\<exists>i d. docs w3 i = Some d \<and> (\<exists>v. (''task_id'', v) \<in> set (update_fields ?u ''$set'') \<and>
                   doc_get d ''task_id'' = Some v))
              else docs w3 = D \<or> (\<exists>i d. updates_one qmatch upd ?f ?u D i d (docs w3)) \<or>
                (no_match qmatch ?f D \<and> (\<exists>i. D i = None \<and> docs w3 = D(i \<mapsto> ins ?f ?u i) \<and>
                  (uniq \<longrightarrow> (\<forall>j e. D j = Some e \<longrightarrow> doc_get e ''task_id'' \<noteq> doc_get (ins ?f ?u i) ''task_id'')))))
         | Inr res \<Rightarrow>
             (case upserted_id res of
                None \<Rightarrow> 0 < matched_count res \<and> (\<exists>i d. updates_one qmatch upd ?f ?u D i d (docs w3))
              | Some v \<Rightarrow> matched_count res = 0 \<and> no_match qmatch ?f D \<and>
                  (\<exists>i. v = BObjectId i \<and> D i = None \<and> docs w3 = D(i \<mapsto> ins ?f ?u i) \<and>
                    (uniq \<longrightarrow> (\<forall>j e. D j = Some e \<longrightarrow> doc_get e ''task_id'' \<noteq> doc_get (ins ?f ?u i) ''task_id''))))"
    using upsert_docs [OF c] docs by auto
  have ok: "coll_ok D" using rely_coll_ok [OF D assms(1)] .
  have resets: "enqueue_resets (resettable qmatch pred) tid payload T trace D D'"
    if "updates_one qmatch upd ?f ?u D i d D'" for i d D'
    using updates_one_enqueue [OF ok that] .
  have set_id: "v = BString tid" if "(''task_id'', v) \<in> set (update_fields ?u ''$set'')" for v
    using that by (simp add: enqueue_fields)
  have "upsert_outcome uniq (resettable qmatch pred) rely tid payload T trace r D (docs w1)"
  proof (cases r3)
    case (Inr res)
    then show ?thesis
      using run a b c body resets ins_enqueue_inserts
      by (cases "upserted_id res")
        (auto simp: upsert_task_def upsert_outcome_def no_match_enqueue [OF ok])
  next
    case (Inl e)
    show ?thesis
    proof (cases "\<exists>m. e = WriteError 11000 m")
      case True
      then have b1: "no_match qmatch ?f D \<and> rely D (docs w3) \<and>
          (\<exists>i d. docs w3 i = Some d \<and> (\<exists>v. (''task_id'', v) \<in> set (update_fields ?u ''$set'') \<and>
             doc_get d ''task_id'' = Some v))"
        using body unfolding Inl sum.case by (simp only: if_True)
      then have "\<exists>i d. docs w3 i = Some d \<and> task_id_of d = Some tid"
        unfolding task_id_doc_get using set_id by blast
      moreover have "r = Inl (Duplicate tid) \<and> w1 = w3"
        using run a b c Inl True by (auto simp: upsert_task_def)
      ultimately show ?thesis using b1 by (simp add: upsert_outcome_def no_match_enqueue [OF ok])
    next
      case False
      have "r = Inl (Database (error_text e)) \<and> w1 = w3"
        using run a b c Inl False by (cases e) (auto simp: upsert_task_def split: if_splits)
      then show ?thesis
        using body Inl False resets ins_enqueue_inserts by (auto simp: upsert_outcome_def)
    qed
  qed
  then show ?thesis using D tid by blast
qed

text \<open>Every upsert is at most one insertion or one reset of the protocol.\<close>

lemma upsert_step:
  assumes "coll_ok (docs w)" and "upsert_task srv payload T key pred trace w = (r, w1)"
  shows "\<exists>D D1. rely (docs w) D \<and> rely D1 (docs w1) \<and>
    (D1 = D \<or> (\<exists>i. task_step D (InsertTask i) D1 \<or> task_step D (ResetTask i) D1))"
proof -
  obtain D where D: "rely (docs w) D"
    and o: "upsert_outcome uniq (resettable qmatch pred) rely (request_id srv key w) payload T trace r D (docs w1)"
    using upsert_spec [OF assms] by blast
  show ?thesis using upsert_outcome_step [OF o] D rely_refl by blast
qed

text \<open>The query by task id.\<close>

lemma find_task:
  assumes "coll_ok (docs w)" and "sv_find_one srv [(''task_id'', BString tid)] w = (r, w1)"
  shows "case r of
      Inl e \<Rightarrow> True
    | Inr None \<Rightarrow> \<forall>i d. docs w1 i = Some d \<longrightarrow> task_id_of d \<noteq> Some tid
    | Inr (Some d) \<Rightarrow> \<exists>i. docs w1 i = Some d \<and> task_id_of d = Some tid"
proof -
  have ok: "coll_ok (docs w1)" using find_one_docs [OF assms(2)] rely_coll_ok assms(1) by blast
  have m: "qmatch [(''task_id'', BString tid)] d \<longleftrightarrow> task_id_of d = Some tid" if "docs w1 i = Some d" for i d
    using ok that match_fields by (auto simp: coll_ok_def match_Cons)
  show ?thesis
    using find_one_docs [OF assms(2)] m by (auto simp: no_match_def split: sum.split option.split)
qed

end

section \<open>Properties\<close>

text \<open>
  C15: what \<open>enqueue_only\<close> answers is what it did. \<open>Inserted\<close>: one new document, pending, with the
  request's payload, trace context and switch timeout, and no document of this task could be reset;
  with the unique index none existed at all. \<open>Reset\<close>: one document of the task without a status, or
  finished and satisfying the request's predicate, became exactly that, and nothing of its old run is
  left. \<open>Duplicate\<close>: this call wrote nothing and the task exists. \<open>Database\<close>: one of these happened
  or nothing. An error of the builder is returned without touching the server.
\<close>

theorem enqueue_answer_is_true:
  assumes "mongo_server qmatch agg upd ins srv docs rely le uniq" and "coll_ok (docs w)"
    and "enqueue_only srv b w = (r, w1)"
  shows "case sb_payload_err b of
      Some err \<Rightarrow> r = Inl err \<and> w1 = w
    | None \<Rightarrow>
        (case sb_payload b of
           None \<Rightarrow> r = Inl (PayloadFormat ''task_input'') \<and> w1 = w
         | Some payload \<Rightarrow> \<exists>D. rely (docs w) D \<and>
             upsert_outcome uniq (resettable qmatch (effective_reset_predicate (sb_reset_when b) (sb_config b))) rely
               (request_id srv (sb_idempotency_key b) w) payload (switch_timeout_for b) (sb_trace_context b)
               r D (docs w1))"
  using assms(3) mongo_server.upsert_spec [OF assms(1,2)]
  by (auto simp: enqueue_only_def split: option.splits)

definition demo_config :: config where
  "demo_config = \<lparr>cfg_mongo_uri = ''uri'', cfg_database = ''db'', cfg_collection = ''tasks'',
     cfg_request_timeout = None, cfg_worker_switch_timeout = from_secs 10,
     cfg_allow_reset_finished_tasks = False, cfg_worker_id = None, cfg_enable_metrics = False,
     cfg_claim_sort = None, cfg_stale_recovery_sort = None\<rparr>"

definition demo_request :: "string \<Rightarrow> send_builder" where
  "demo_request key = \<lparr>sb_config = demo_config, sb_payload = Some (BInt32 3), sb_payload_err = None,
     sb_timeout = None, sb_worker_switch_timeout = None, sb_idempotency_key = Some key,
     sb_reset_when = None, sb_trace_context = None\<rparr>"

lemmas enqueue_eval = enqueue_only_def upsert_task_def demo_request_def demo_config_def switch_timeout_for_def
  effective_reset_predicate_def enqueue_filter_def enqueue_update_def

lemma demo_enqueue:
  "\<exists>w1. enqueue_only ref_server (demo_request ''c'') (demo_world 5000) =
     (Inr \<lparr>eo_task_id = ''c'', eo_action = Inserted\<rparr>, w1)"
  by (simp add: enqueue_eval ref_eval demo_defs Let_def)

theorem enqueue_answer_is_true_witness:
  "\<exists>w1. enqueue_only ref_server (demo_request ''c'') (demo_world 5000) =
       (Inr \<lparr>eo_task_id = ''c'', eo_action = Inserted\<rparr>, w1) \<and>
     enqueue_inserts True ''c'' (BInt32 3) (from_secs 10) None (ref_docs (demo_world 5000)) (ref_docs w1)"
proof -
  obtain w1 where c: "enqueue_only ref_server (demo_request ''c'') (demo_world 5000) =
      (Inr \<lparr>eo_task_id = ''c'', eo_action = Inserted\<rparr>, w1)"
    using demo_enqueue by blast
  show ?thesis
    using enqueue_answer_is_true [OF ref.mongo_server_axioms demo_ok c] c
    by (auto simp: demo_request_def demo_config_def upsert_outcome_def request_id_def switch_timeout_for_def)
qed

definition answers_from :: "(bson \<Rightarrow> 'o option) \<Rightarrow> request_error + 'o \<Rightarrow> document \<Rightarrow> bool" where
  "answers_from de r d \<longleftrightarrow>
     (case r of
        Inr v \<Rightarrow> status_of d = Some ''succeeded'' \<and> Option.bind (doc_get d ''task_output'') de = Some v
      | Inl (TaskFailed reason) \<Rightarrow> status_of d = Some ''failed'' \<and>
          (get_str d ''error_reason'' = Some reason \<or> get_str d ''error_reason'' = None \<and> reason = ''worker failed'')
      | Inl (PayloadFormat field) \<Rightarrow>
          field = ''status'' \<and> status_of d = None \<or>
          field = ''task_output'' \<and> status_of d = Some ''succeeded'' \<and> Option.bind (doc_get d ''task_output'') de = None
      | Inl _ \<Rightarrow> False)"

lemma evaluate_answers:
  "evaluate_document de d = Inr (Some r) \<Longrightarrow> answers_from de r d"
  "evaluate_document de d = Inl e \<Longrightarrow> answers_from de (Inl e) d"
  by (auto simp: evaluate_document_def answers_from_def status_of_def Let_def split: option.splits if_splits)

definition delivered :: "result_stream \<Rightarrow> document \<Rightarrow> bool" where
  "delivered s d \<longleftrightarrow> Inr (Some d) \<in> set (rs_events s)"

lemma watch_answers:
  "watch_events de closed evs = Some r \<Longrightarrow>
    (\<exists>d. Inr (Some d) \<in> set evs \<and> answers_from de r d) \<or> (\<exists>m. r = Inl (Database m))"
  by (induction de closed evs rule: watch_events.induct)
    (auto split: if_splits sum.splits option.splits dest: evaluate_answers)

text \<open>Where an answer comes from.\<close>

lemma answer_sources:
  assumes "mongo_server qmatch agg upd ins srv docs rely le uniq" and "coll_ok (docs w)"
    and "wait_for_result srv open_stream de tid w = (Some r, w1)"
  shows "(\<exists>i d. docs w1 i = Some d \<and> task_id_of d = Some tid \<and> answers_from de r d) \<or>
    (\<exists>s d. open_stream (result_pipeline tid) = Inr s \<and> delivered s d \<and> answers_from de r d) \<or>
    (\<exists>m. r = Inl (Database m)) \<or>
    (r = Inl (TaskFailed (''task '' @ tid @ '' missing'')) \<and>
       (\<forall>i d. docs w1 i = Some d \<longrightarrow> task_id_of d \<noteq> Some tid))"
proof -
  obtain r1 wa where f: "sv_find_one srv [(''task_id'', BString tid)] w = (r1, wa)" by fastforce
  show ?thesis
  proof (cases r1)
    case (Inl e)
    then show ?thesis using assms(3) f by (auto simp: wait_for_result_def inspect_task_def)
  next
    case (Inr found)
    show ?thesis
    proof (cases found)
      case None
      then show ?thesis
        using assms(3) f Inr mongo_server.find_task [OF assms(1,2) f]
        by (auto simp: wait_for_result_def inspect_task_def)
    next
      case (Some d)
      then obtain i where d: "docs wa i = Some d" "task_id_of d = Some tid"
        using Inr mongo_server.find_task [OF assms(1,2) f] by auto
      have insp: "inspect_task srv de tid w = (evaluate_document de d, wa)"
        using f Inr Some by (simp add: inspect_task_def)
      show ?thesis
      proof (cases "evaluate_document de d")
        case (Inl e)
        then have "w1 = wa" "answers_from de r d"
          using assms(3) insp evaluate_answers(2) [OF Inl] by (simp_all add: wait_for_result_def)
        then show ?thesis using d by blast
      next
        case eval: (Inr x)
        show ?thesis
        proof (cases x)
          case (Some a)
          then have "w1 = wa" "answers_from de r d"
            using assms(3) insp eval evaluate_answers(1) by (auto simp: wait_for_result_def)
          then show ?thesis using d by blast
        next
          case None
          then have "watch_for_result open_stream de tid = Some r"
            using assms(3) insp eval by (simp add: wait_for_result_def)
          then show ?thesis
            using watch_answers by (fastforce simp: watch_for_result_def delivered_def split: sum.splits)
        qed
      qed
    qed
  qed
qed

text \<open>
  Every answer that a caller gets is recorded in a document. An output is the deserialised
  \<open>task_output\<close> of a \<open>succeeded\<close> document, which \<open>inspect_task\<close> read for this task or the change
  stream delivered; a failure is a \<open>failed\<close> document's reason, or the task has no document. The
  errors \<open>WorkerGone\<close>, \<open>WorkerTimeout\<close>, \<open>Duplicate\<close> and \<open>Timeout\<close> never come out of the wait itself.
\<close>

theorem response_is_recorded:
  assumes "mongo_server qmatch agg upd ins srv docs rely le uniq" and "coll_ok (docs w)"
    and "wait_for_result srv open_stream de tid w = (Some r, w1)"
  shows "(\<exists>i d. docs w1 i = Some d \<and> task_id_of d = Some tid \<and> answers_from de r d) \<or>
    (\<exists>s d. open_stream (result_pipeline tid) = Inr s \<and> delivered s d \<and> answers_from de r d) \<or>
    (\<exists>m. r = Inl (Database m)) \<or>
    (r = Inl (TaskFailed (''task '' @ tid @ '' missing'')) \<and>
       (\<forall>i d. docs w1 i = Some d \<longrightarrow> task_id_of d \<noteq> Some tid))"
  using answer_sources [OF assms] .

definition demo_done_world :: ref_world where
  "demo_done_world = ref_world_of
     [(ObjectId 3, demo_task ''succeeded'' ''d'' [(''task_output'', BInt32 9)] 3)] 5000"

lemma demo_done_ok: "coll_ok (ref_docs demo_done_world)"
  by (simp add: demo_done_world_def demo_task_def coll_ok_def ref_docs_def ref_world_of_def doc_get_def
      doc_typed_def field_ok_def)

lemma demo_response:
  "\<exists>w1. wait_for_result ref_server (\<lambda>p. Inr \<lparr>rs_events = [], rs_closed = False\<rparr>) Some ''d'' demo_done_world =
     (Some (Inr (BInt32 9)), w1)"
  by (simp add: wait_for_result_def inspect_task_def evaluate_document_def demo_done_world_def ref_eval demo_defs)

theorem response_is_recorded_witness:
  "\<exists>w1 d. wait_for_result ref_server (\<lambda>p. Inr \<lparr>rs_events = [], rs_closed = False\<rparr>) Some ''d'' demo_done_world =
       (Some (Inr (BInt32 9)), w1) \<and> status_of d = Some ''succeeded'' \<and> doc_get d ''task_output'' = Some (BInt32 9)"
proof -
  obtain w1 where c: "wait_for_result ref_server (\<lambda>p. Inr \<lparr>rs_events = [], rs_closed = False\<rparr>) Some ''d''
      demo_done_world = (Some (Inr (BInt32 9)), w1)"
    using demo_response by blast
  show ?thesis
    using response_is_recorded [OF ref.mongo_server_axioms demo_done_ok c] c
    by (auto simp: answers_from_def delivered_def bind_eq_Some_conv)
qed

lemma upsert_no_timeout: "fst (upsert_task srv payload T key pred trace w) \<noteq> Inl Timeout"
  by (simp add: upsert_task_def Let_def split: prod.split sum.split option.split mongo_error.split)

lemma evaluate_no_timeout:
  "evaluate_document de d \<noteq> Inl Timeout \<and> evaluate_document de d \<noteq> Inr (Some (Inl Timeout))"
  by (simp add: evaluate_document_def Let_def split: option.split)

lemma watch_no_timeout: "watch_events de closed evs \<noteq> Some (Inl Timeout)"
  using evaluate_no_timeout
  by (induction de closed evs rule: watch_events.induct) (auto split: sum.split option.split)

lemma wait_no_timeout: "fst (wait_for_result srv open_stream de tid w) \<noteq> Some (Inl Timeout)"
  by (auto simp: wait_for_result_def watch_for_result_def inspect_task_def evaluate_no_timeout watch_no_timeout
      split: prod.splits sum.splits option.splits)

text \<open>
  C18: a request timeout ends the wait, and only it does. If the request or the configuration sets a timeout
  and it elapses, awaiting the request has returned; and the error \<open>Timeout\<close> is answered only then, and
  only after the request was enqueued, so a worker may still run the task.
\<close>

theorem timeout_ends_the_wait:
  assumes "await_send srv open_stream de elapsed b w = (r, w1)"
    and "has_timeout \<longleftrightarrow> sb_timeout b \<noteq> None \<or> cfg_request_timeout (sb_config b) \<noteq> None"
  shows "(elapsed \<and> has_timeout \<longrightarrow> r \<noteq> None) \<and>
    (sb_payload_err b \<noteq> Some Timeout \<longrightarrow> r = Some (Inl Timeout) \<longrightarrow> elapsed \<and> has_timeout \<and>
      (\<exists>oc w0. enqueue_only srv b w = (Inr oc, w0)))"
proof (cases "\<exists>payload. sb_payload_err b = None \<and> sb_payload b = Some payload")
  case False
  then show ?thesis using assms(1) by (auto simp: await_send_def build_future_def split: option.splits)
next
  case True
  then obtain payload where p: "sb_payload_err b = None" "sb_payload b = Some payload" by blast
  obtain r1 w0 where u: "upsert_task srv payload (switch_timeout_for b) (sb_idempotency_key b)
      (effective_reset_predicate (sb_reset_when b) (sb_config b)) (sb_trace_context b) w = (r1, w0)"
    by fastforce
  then have e: "enqueue_only srv b w = (r1, w0)" using p by (simp add: enqueue_only_def)
  show ?thesis
  proof (cases r1)
    case (Inl err)
    then have "r = Some (Inl err)" "err \<noteq> Timeout"
      using assms(1) p u upsert_no_timeout [of srv payload "switch_timeout_for b" "sb_idempotency_key b"
          "effective_reset_predicate (sb_reset_when b) (sb_config b)" "sb_trace_context b" w]
      by (auto simp: await_send_def build_future_def)
    then show ?thesis by simp
  next
    case (Inr oc)
    obtain r2 w2 where wait: "wait_for_result srv open_stream de (eo_task_id oc) w0 = (r2, w2)" by fastforce
    then have "r2 \<noteq> Some (Inl Timeout)" using wait_no_timeout by (metis fst_conv)
    then show ?thesis
      using assms p u e Inr wait
      by (cases r2) (auto simp: await_send_def build_future_def Let_def split: option.splits if_splits)
  qed
qed

lemma demo_timed_out:
  "\<exists>w1. await_send ref_server (\<lambda>p. Inr \<lparr>rs_events = [], rs_closed = False\<rparr>) Some True
     (with_timeout (from_secs 1) (demo_request ''c'')) (demo_world 5000) = (Some (Inl Timeout :: request_error + bson), w1)"
  by (simp add: await_send_def build_future_def wait_for_result_def watch_for_result_def inspect_task_def
      evaluate_document_def with_timeout_def enqueue_eval ref_eval demo_defs Let_def)

theorem timeout_ends_the_wait_witness:
  "\<exists>w1 oc w0. await_send ref_server (\<lambda>p. Inr \<lparr>rs_events = [], rs_closed = False\<rparr>) Some True
       (with_timeout (from_secs 1) (demo_request ''c'')) (demo_world 5000) = (Some (Inl Timeout :: request_error + bson), w1) \<and>
     enqueue_only ref_server (with_timeout (from_secs 1) (demo_request ''c'')) (demo_world 5000) = (Inr oc, w0)"
proof -
  obtain w1 where c: "await_send ref_server (\<lambda>p. Inr \<lparr>rs_events = [], rs_closed = False\<rparr>) Some True
      (with_timeout (from_secs 1) (demo_request ''c'')) (demo_world 5000) = (Some (Inl Timeout :: request_error + bson), w1)"
    using demo_timed_out by blast
  have err: "sb_payload_err (with_timeout (from_secs 1) (demo_request ''c'')) \<noteq> Some Timeout"
    by (simp add: with_timeout_def demo_request_def)
  show ?thesis using timeout_ends_the_wait [OF c refl] c err by blast
qed

text \<open>
  When a caller's wait does not return. It goes on exactly while the first look at the document
  found it unfinished and the change stream, opened afterwards, is open and has delivered no event
  about a finished document: nothing looks at the document a second time.
\<close>

definition no_answer :: "(bson \<Rightarrow> 'o option) \<Rightarrow> mongo_error + document option \<Rightarrow> bool" where
  "no_answer de ev \<longleftrightarrow>
     (case ev of
        Inl e \<Rightarrow> False
      | Inr None \<Rightarrow> True
      | Inr (Some d) \<Rightarrow> evaluate_document de d = Inr None)"

lemma watch_waits: "watch_events de closed evs = None \<longleftrightarrow> \<not> closed \<and> list_all (no_answer de) evs"
  by (induction de closed evs rule: watch_events.induct) (auto simp: no_answer_def split: sum.split option.split)

theorem wait_goes_on_iff:
  "fst (wait_for_result srv open_stream de tid w) = None \<longleftrightarrow>
    fst (inspect_task srv de tid w) = Inr None \<and>
    (\<exists>s. open_stream (result_pipeline tid) = Inr s \<and> \<not> rs_closed s \<and> list_all (no_answer de) (rs_events s))"
  by (auto simp: wait_for_result_def watch_for_result_def watch_waits split: prod.split sum.split option.split)

text \<open>
  C35: a completion between the two steps of \<open>wait_for_result\<close> is missed. If the first look finds the
  task running, a worker then records its output, and the change stream opened after that delivers no
  event, the wait has not returned, although the collection holds the answer and a second look at the
  document would give it.
\<close>

theorem completion_before_watch_is_missed:
  assumes "mongo_server qmatch agg upd ins srv docs rely le uniq" and "coll_ok (docs w)"
    and "sv_find_one srv [(''task_id'', BString tid)] w = (Inr (Some d), w1)"
    and "status_of d = Some ''running''" and "holds wid tok d"
    and "rewrites_held (finished_as ''succeeded'' ''task_output'' v) tid wid tok (docs w1) (docs w2)"
    and "de v = Some x"
    and "open_stream (result_pipeline tid) = Inr \<lparr>rs_events = [], rs_closed = False\<rparr>"
  shows "wait_for_result srv open_stream de tid w = (None, w1) \<and>
    (\<exists>i d'. docs w2 i = Some d' \<and> task_id_of d' = Some tid \<and> evaluate_document de d' = Inr (Some (Inr x)))"
proof -
  have "evaluate_document de d = Inr None"
    using assms(4) by (simp add: evaluate_document_def status_of_def)
  then have "wait_for_result srv open_stream de tid w = (None, w1)"
    using assms(3,8) by (simp add: wait_for_result_def inspect_task_def watch_for_result_def)
  moreover obtain i d0 d' where "docs w1 i = Some d0" "task_id_of d0 = Some tid"
    "finished_as ''succeeded'' ''task_output'' v d0 d'" "docs w2 = (docs w1)(i \<mapsto> d')"
    using assms(6) by (auto simp: rewrites_held_def)
  then have "docs w2 i = Some d'" "task_id_of d' = Some tid" "evaluate_document de d' = Inr (Some (Inr x))"
    using assms(7) by (simp_all add: finished_as_def evaluate_document_def status_of_def task_id_of_def get_str_def split_paths)
  ultimately show ?thesis by blast
qed

lemma demo_find:
  "sv_find_one ref_server [(''task_id'', BString ''b'')] (demo_world 5000) =
     (Inr (Some (demo_task ''running'' ''b'' (demo_state ''w2'' ''tok-b'' 1000) 2)), demo_world 5000)"
  by (simp add: ref_eval demo_defs)

theorem completion_before_watch_is_missed_witness:
  "\<exists>w2. finish_task ref_server Some ''b'' ''w2'' ''tok-b'' (Inr (BInt32 9)) (demo_world 5000) = (Inr (), w2) \<and>
     fst (wait_for_result ref_server (\<lambda>p. Inr \<lparr>rs_events = [], rs_closed = False\<rparr>) Some ''b'' (demo_world 5000)) = None \<and>
     (\<exists>i d'. ref_docs w2 i = Some d' \<and> evaluate_document Some d' = Inr (Some (Inr (BInt32 9))))"
proof -
  obtain w2 where c: "finish_task ref_server Some ''b'' ''w2'' ''tok-b'' (Inr (BInt32 9)) (demo_world 5000) = (Inr (), w2)"
    using demo_finish by blast
  have w: "rewrites_held (finished_as ''succeeded'' ''task_output'' (BInt32 9)) ''b'' ''w2'' ''tok-b''
      (ref_docs (demo_world 5000)) (ref_docs w2)"
    using c ref.finish_spec [OF demo_ok c] by auto
  have d: "status_of (demo_task ''running'' ''b'' (demo_state ''w2'' ''tok-b'' 1000) 2) = Some ''running''"
    "holds ''w2'' ''tok-b'' (demo_task ''running'' ''b'' (demo_state ''w2'' ''tok-b'' 1000) 2)"
    by (simp_all add: demo_defs holds_def reader_defs accessor_defs bson_simps)
  show ?thesis
    using completion_before_watch_is_missed [OF ref.mongo_server_axioms demo_ok demo_find d w,
        where de = Some and open_stream = "\<lambda>p. Inr \<lparr>rs_events = [], rs_closed = False\<rparr>"] c by auto
qed

text \<open>
  C36: the longest lease is the shortest. A request whose switch timeout is \<open>Duration::MAX\<close> stores -1
  milliseconds, because the cast to \<open>i64\<close> wraps around. Every lease on its document has expired at the
  very time of the claim, so any other worker may take the running task at once, while the worker that
  runs it reads the same document as its own default timeout.
\<close>

theorem endless_lease_expires_at_once:
  assumes "enqueued_as tid payload duration_max trace d" and "claimed_as wid tok t T d d'"
  shows "get_i64 d ''worker_switch_timeout'' = Some (- 1) \<and> lease_expired t T' d' \<and> task_switch_timeout d' T = T"
proof -
  have m: "as_i64 (as_millis duration_max) = - 1"
    by (simp add: as_i64_def as_millis_def duration_max_def i64_max_def)
  then have d: "get_i64 d ''worker_switch_timeout'' = Some (- 1)" using assms(1) by (simp add: enqueued_as_def)
  then have "switch_timeout_of d' = Some (- 1)" and "heartbeat_of d' = Some t"
    and d': "get_i64 d' ''worker_switch_timeout'' = Some (- 1)"
    using assms(2) by (simp_all add: claimed_as_def get_i64_def split_paths)
  then have "lease_expired t T' d'" by (simp add: lease_expired_def lease_ms_def)
  moreover have "task_switch_timeout d' T = T"
    using d' by (simp add: task_switch_timeout_def u64_try_from_def)
  ultimately show ?thesis using d by blast
qed

text \<open>A request's document, and the same document claimed.\<close>

definition demo_enqueued :: "duration \<Rightarrow> document" where
  "demo_enqueued T = ref_ins [] (enqueue_update ''c'' (BInt32 3) 5000 T None) (ObjectId 3)"

definition demo_claimed :: "duration \<Rightarrow> document" where
  "demo_claimed T = ref_upd (claim_update ''w1'' ''tok-c'' 6000 (from_secs 10)) (demo_enqueued T)"

lemma demo_enqueued_as: "enqueued_as ''c'' (BInt32 3) T None (demo_enqueued T)"
  unfolding demo_enqueued_def by (rule refq.ins_enqueue)

lemma demo_claimed_as: "claimed_as ''w1'' ''tok-c'' 6000 (from_secs 10) (demo_enqueued T) (demo_claimed T)"
  unfolding demo_claimed_def using demo_enqueued_as by (intro refq.upd_claim) (simp add: enqueued_as_def)

theorem endless_lease_expires_at_once_witness:
  "lease_expired 6000 (from_secs 30) (demo_claimed duration_max)"
  using endless_lease_expires_at_once [OF demo_enqueued_as demo_claimed_as] by blast

text \<open>
  C16: what a caller sends is what the handler gets. A document that a request enqueued and a worker
  claimed gives the handler's job the request's task id, its payload and its trace context, the token
  of this very claim, and the request's switch timeout in whole milliseconds; the link to the caller's
  span is the caller's span context, marked as remote.
\<close>

theorem job_gets_the_request:
  assumes "enqueued_as tid payload T trace d" and "claimed_as wid tok t T0 d d'"
    and "begin_task srv de ot d' wid T0 w = (Inr (job, token, lease), w1)"
    and "int (as_millis T) \<le> i64_max"
  shows "wj_task_id job = tid \<and> de payload = Some (wj_payload job) \<and> wj_trace_context job = trace \<and> token = tok \<and>
    lease = from_millis (as_millis T) \<and>
    (\<forall>sc. (\<forall>x. ot_trace_from_hex ot (ot_trace_to_string ot x) = Some x) \<longrightarrow>
       (\<forall>x. ot_span_from_hex ot (ot_span_to_string ot x) = Some x) \<longrightarrow> trace = from_span_context ot sc \<longrightarrow> trace \<noteq> None \<longrightarrow>
       caller_link ot job = Some (sc\<lparr>sc_is_remote := True, sc_trace_state := ot_default_state ot\<rparr>))"
proof -
  have same: "doc_get d' k = doc_get d k" if "k \<in> {''task_id'', ''task_input'', ''trace_context'', ''worker_switch_timeout''}" for k
    using assms(2) that by (auto simp: claimed_as_def split_paths)
  have d: "get_str d' ''task_id'' = Some tid" "doc_get d' ''task_input'' = Some payload"
    "get_i64 d' ''worker_switch_timeout'' = Some (int (as_millis T))"
    "doc_get d' ''trace_context'' = Some (case trace of None \<Rightarrow> BNull | Some c \<Rightarrow> trace_to_bson c)"
    using assms(1) as_i64_exact [OF assms(4)]
    by (simp_all add: enqueued_as_def task_id_of_def get_str_def get_i64_def same)
  have tok: "claim_token_in d' = tok"
    using assms(2) by (cases "get_document d' ''worker_state''")
      (simp_all add: claimed_as_def claim_token_in_def token_of_def state_field_def get_str_def)
  have lease: "task_switch_timeout d' T0 = from_millis (as_millis T)"
    using assms(4) by (simp add: task_switch_timeout_def d u64_try_from_def i64_max_def)
  have tr: "(if (case trace of None \<Rightarrow> BNull | Some c \<Rightarrow> trace_to_bson c) = BNull then None
      else trace_from_bson ot (case trace of None \<Rightarrow> BNull | Some c \<Rightarrow> trace_to_bson c)) = trace"
    by (cases trace) (simp_all add: trace_from_to_bson, simp add: trace_to_bson_def)
  have job: "wj_task_id job = tid \<and> de payload = Some (wj_payload job) \<and> wj_trace_context job = trace \<and>
      token = tok \<and> lease = from_millis (as_millis T)"
    using assms(3) by (auto simp: begin_task_def setup_task_def d tok lease tr Let_def
        split: option.splits prod.splits sum.splits bool.splits if_splits)
  moreover have "caller_link ot job = Some (sc\<lparr>sc_is_remote := True, sc_trace_state := ot_default_state ot\<rparr>)"
    if "\<forall>x. ot_trace_from_hex ot (ot_trace_to_string ot x) = Some x"
      "\<forall>x. ot_span_from_hex ot (ot_span_to_string ot x) = Some x" "trace = from_span_context ot sc" "trace \<noteq> None" for sc
    using job that to_from_span_context [of ot sc] by (auto simp: caller_link_def)
  ultimately show ?thesis by blast
qed

definition demo_claimed_world :: ref_world where
  "demo_claimed_world = ref_world_of [(ObjectId 3, demo_claimed (from_secs 20))] 7000"

lemma demo_claimed_doc:
  "demo_claimed (from_secs 20) =
     [(''_id'', BObjectId (ObjectId 3)), (''task_id'', BString ''c''), (''task_input'', BInt32 3),
      (''status'', BString ''running''), (''updated_at'', BDateTime 6000),
      (''worker_switch_timeout'', BInt64 20000), (''trace_context'', BNull), (''created_at'', BDateTime 5000),
      (''worker_state'', BDocument [(''worker_id'', BString ''w1''), (''claim_token'', BString ''tok-c''),
         (''started_at'', BDateTime 6000), (''heartbeat_at'', BDateTime 6000), (''switch_timeout_ms'', BInt64 10000)])]"
  by (simp add: demo_claimed_def demo_enqueued_def enqueue_update_def claim_update_def ref_eval
      from_secs_def as_millis_def as_i64_def i64_max_def)

lemma demo_begin:
  "\<exists>w1. begin_task ref_server Some demo_otel (demo_claimed (from_secs 20)) ''w1'' (from_secs 10) demo_claimed_world =
     (Inr (\<lparr>wj_task_id = ''c'', wj_trace_context = None, wj_payload = BInt32 3\<rparr>, ''tok-c'', from_secs 20), w1)"
  unfolding demo_claimed_world_def demo_claimed_doc
  by (simp add: begin_task_def setup_task_def claim_token_in_def
      heartbeat_def held_filter_def task_switch_timeout_def u64_try_from_def from_millis_def from_secs_def ref_eval Let_def)

theorem job_gets_the_request_witness:
  "\<exists>job w1. begin_task ref_server Some demo_otel (demo_claimed (from_secs 20)) ''w1'' (from_secs 10) demo_claimed_world =
       (Inr (job, ''tok-c'', from_secs 20), w1) \<and> wj_task_id job = ''c'' \<and> wj_payload job = BInt32 3"
proof -
  obtain job w1 where
    b: "begin_task ref_server Some demo_otel (demo_claimed (from_secs 20)) ''w1'' (from_secs 10) demo_claimed_world =
      (Inr (job, ''tok-c'', from_secs 20), w1)"
    using demo_begin by blast
  have t: "int (as_millis (from_secs 20)) \<le> i64_max" by (simp add: from_secs_def as_millis_def i64_max_def)
  show ?thesis using job_gets_the_request [OF demo_enqueued_as demo_claimed_as b t] b by auto
qed

end
