(* ===== verification/System.thy ===== *)
theory System
  imports WorkerLoop Enqueue
begin

text \<open>
  The program as a whole: callers and workers of any number that share one collection. Each of their
  calls is shown to take steps of the protocol, and the protocol's invariants become statements about
  the code: who may write a result, and that a caller reads it.
\<close>

section \<open>Calls\<close>

text \<open>The calls that the program makes on the collection, with their arguments.\<close>

datatype 'o call =
    Enqueue send_builder
  | Inspect string
  | ClaimNext string duration "string list" claim_mode "document option"
  | ClaimById object_id string duration "string option" "string list"
  | Heartbeat string string string
  | Complete string string string "request_error + 'o"
  | ReportFailure string string string string
  | ScanRunning duration expiry_tracker
  | ScanPending expiry_tracker

fun exec_call :: "'w server \<Rightarrow> ('o \<Rightarrow> bson option) \<Rightarrow> 'o call \<Rightarrow> 'w \<Rightarrow> 'w" where
  "exec_call srv ser (Enqueue b) w = snd (enqueue_only srv b w)"
| "exec_call srv ser (Inspect tid) w = snd (inspect_task srv Some tid w)"
| "exec_call srv ser (ClaimNext wid T ex mode so) w = snd (claim_next_task srv wid T ex mode so w)"
| "exec_call srv ser (ClaimById i wid T tid ex) w = snd (claim_expired_task_by_id srv i wid T tid ex w)"
| "exec_call srv ser (Heartbeat tid wid tok) w = snd (heartbeat srv tid wid tok w)"
| "exec_call srv ser (Complete tid wid tok hr) w = snd (finish_task srv ser tid wid tok hr w)"
| "exec_call srv ser (ReportFailure tid wid tok reason) w = mark_task_failed srv tid wid tok reason w"
| "exec_call srv ser (ScanRunning T t) w = snd (refresh_running_expirations srv T t w)"
| "exec_call srv ser (ScanPending t) w = snd (refresh_pending_tasks srv t w)"

text \<open>The protocol steps that a call may take.\<close>

fun may_take :: "'w server \<Rightarrow> 'o call \<Rightarrow> 'w \<Rightarrow> action \<Rightarrow> bool" where
  "may_take srv (Enqueue b) w a \<longleftrightarrow> a = InsertTask (target a) \<or> a = ResetTask (target a)"
| "may_take srv (ClaimNext wid T ex mode so) w a \<longleftrightarrow> a = ClaimTask (target a) wid (token_drawn srv w)"
| "may_take srv (ClaimById i wid T tid ex) w a \<longleftrightarrow> a = ClaimTask (target a) wid (token_drawn srv w)"
| "may_take srv (Heartbeat tid wid tok) w a \<longleftrightarrow> a = Beat (target a) wid tok"
| "may_take srv (Complete tid wid tok hr) w a \<longleftrightarrow> (\<exists>st\<in>{''succeeded'', ''failed''}. a = Finish (target a) wid tok st)"
| "may_take srv (ReportFailure tid wid tok reason) w a \<longleftrightarrow> a = Finish (target a) wid tok ''failed''"
| "may_take srv _ w a \<longleftrightarrow> False"

text \<open>All steps of a sequence of calls satisfy \<open>P\<close>.\<close>

fun calls_within :: "(action \<Rightarrow> bool) \<Rightarrow> 'w server \<Rightarrow> ('o \<Rightarrow> bson option) \<Rightarrow> 'o call list \<Rightarrow> 'w \<Rightarrow> bool" where
  "calls_within P srv ser [] w \<longleftrightarrow> True"
| "calls_within P srv ser (c # cs) w \<longleftrightarrow>
     (\<forall>a. may_take srv c w a \<longrightarrow> P a) \<and> calls_within P srv ser cs (exec_call srv ser c w)"

section \<open>Runs whose steps are restricted\<close>

definition follows :: "(action \<Rightarrow> bool) \<Rightarrow> collection \<Rightarrow> collection \<Rightarrow> bool" where
  "follows P D D' \<longleftrightarrow> (\<exists>as. task_run D as D' \<and> list_all P as)"

lemma follows_refl: "follows P D D"
  unfolding follows_def by (rule exI [of _ "[]"]) simp

lemma follows_trans: "follows P D D1 \<Longrightarrow> follows P D1 D2 \<Longrightarrow> follows P D D2"
  unfolding follows_def by (metis list_all_append task_run_append)

lemma follows_step: "task_step D a D' \<Longrightarrow> P a \<Longrightarrow> follows P D D'"
  unfolding follows_def by (rule exI [of _ "[a]"]) simp

lemma follows_ok: "follows P D D' \<Longrightarrow> coll_ok D \<Longrightarrow> coll_ok D'"
  unfolding follows_def using task_run_ok by blast

text \<open>The others never draw the token.\<close>

definition spares :: "string \<Rightarrow> action \<Rightarrow> bool" where
  "spares tok a \<longleftrightarrow> tok \<notin> set (drawn a)"

lemma spares_tokens: "list_all (spares tok) as \<longleftrightarrow> tok \<notin> set (claimed_tokens as)"
  by (induction as) (auto simp: spares_def)

lemma held_before: "follows (spares tok) D D' \<Longrightarrow> held i wid tok D' \<Longrightarrow> held i wid tok D"
  unfolding follows_def spares_tokens using held_run_back by blast

section \<open>Every call takes steps of the protocol\<close>

context mongo_server
begin

lemma read_step:
  assumes "rely (docs w) (docs w1)"
  shows "\<exists>D D1. rely (docs w) D \<and> (D1 = D \<or> (\<exists>a. P a \<and> task_step D a D1)) \<and> rely D1 (docs w1)"
  using assms rely_refl by blast

lemma write_step:
  assumes "\<exists>D. rely (docs w) D \<and> (docs w1 = D \<or> (\<exists>a. P a \<and> task_step D a (docs w1)))"
  shows "\<exists>D D1. rely (docs w) D \<and> (D1 = D \<or> (\<exists>a. P a \<and> task_step D a D1)) \<and> rely D1 (docs w1)"
  using assms rely_refl by blast

lemma enqueue_call_step:
  assumes "coll_ok (docs w)"
  shows "\<exists>D D1. rely (docs w) D \<and> (D1 = D \<or> (\<exists>a. may_take srv (Enqueue b) w a \<and> task_step D a D1)) \<and>
    rely D1 (docs (snd (enqueue_only srv b w)))"
proof (cases "sb_payload_err b = None \<and> sb_payload b \<noteq> None")
  case True
  then obtain payload where p: "sb_payload b = Some payload" "sb_payload_err b = None" by auto
  let ?u = "upsert_task srv payload (switch_timeout_for b) (sb_idempotency_key b)
    (effective_reset_predicate (sb_reset_when b) (sb_config b)) (sb_trace_context b) w"
  have u: "enqueue_only srv b w = ?u" using p by (simp add: enqueue_only_def)
  obtain D D1 where "rely (docs w) D" "rely D1 (docs (snd ?u))"
    "D1 = D \<or> (\<exists>i. task_step D (InsertTask i) D1 \<or> task_step D (ResetTask i) D1)"
    using upsert_step [OF assms surjective_pairing] by blast
  moreover have "may_take srv (Enqueue b) w (InsertTask i)" "may_take srv (Enqueue b) w (ResetTask i)" for i
    by simp_all
  ultimately show ?thesis unfolding u by blast
next
  case False
  then have "snd (enqueue_only srv b w) = w" by (auto simp: enqueue_only_def split: option.split)
  then show ?thesis using read_step [OF rely_refl] by simp
qed

lemma fail_call_step:
  assumes "coll_ok (docs w)"
  shows "\<exists>D. rely (docs w) D \<and> (docs (mark_task_failed srv tid wid tok reason w) = D \<or>
    (\<exists>i. task_step D (Finish i wid tok ''failed'') (docs (mark_task_failed srv tid wid tok reason w))))"
  using fail_spec [OF assms refl, of reason tid wid tok] finished_step by blast

lemma finish_call_step:
  assumes "coll_ok (docs w)"
  shows "\<exists>D. rely (docs w) D \<and> (docs (snd (finish_task srv ser tid wid tok hr w)) = D \<or>
    (\<exists>i. \<exists>st\<in>{''succeeded'', ''failed''}.
       task_step D (Finish i wid tok st) (docs (snd (finish_task srv ser tid wid tok hr w)))))"
proof (cases hr)
  case (Inl err)
  then show ?thesis using fail_call_step [OF assms] by (simp add: finish_task_def) blast
next
  case (Inr out)
  let ?r = "finish_task srv ser tid wid tok hr w"
  have "\<exists>D. rely (docs w) D \<and> (docs (snd ?r) = D \<or> snd ?r = w \<or>
      (\<exists>v. rewrites_held (finished_as ''succeeded'' ''task_output'' v) tid wid tok D (docs (snd ?r))))"
    using finish_spec [OF assms surjective_pairing, where hr = hr and ser = ser and tid = tid and wid = wid and tok = tok] Inr
    by (cases "ser out"; cases "fst ?r") auto
  then obtain D where "rely (docs w) D" and "docs (snd ?r) = D \<or> snd ?r = w \<or>
      (\<exists>v. rewrites_held (finished_as ''succeeded'' ''task_output'' v) tid wid tok D (docs (snd ?r)))"
    by blast
  moreover have "\<exists>i. task_step D (Finish i wid tok ''succeeded'') D'"
    if "rewrites_held (finished_as ''succeeded'' ''task_output'' v) tid wid tok D D'" for v D D'
    using finished_step [OF that] by simp
  ultimately show ?thesis using rely_refl [of "docs w"] by (metis insertI1)
qed

lemma call_step:
  assumes ok: "coll_ok (docs w)"
  shows "\<exists>D D1. rely (docs w) D \<and> (D1 = D \<or> (\<exists>a. may_take srv c w a \<and> task_step D a D1)) \<and>
    rely D1 (docs (exec_call srv ser c w))"
proof (cases c)
  case (Enqueue b)
  then show ?thesis using enqueue_call_step [OF ok] by simp
next
  case (Inspect tid)
  obtain r w1 where f: "sv_find_one srv [(''task_id'', BString tid)] w = (r, w1)" by fastforce
  then have "snd (inspect_task srv Some tid w) = w1"
    by (simp add: inspect_task_def split: sum.split option.split)
  then show ?thesis using Inspect find_one_docs [OF f] by (intro read_step) simp
next
  case (ClaimNext wid T ex mode so)
  show ?thesis
    using claim_next_step [OF ok surjective_pairing, of wid T ex mode so] ClaimNext
    by (intro write_step) (auto intro: exI [of _ "ClaimTask _ _ _"])
next
  case (ClaimById i wid T tid ex)
  show ?thesis
    using claim_by_id_step [OF ok surjective_pairing, of i wid T tid ex] ClaimById
    by (intro write_step) (auto intro: exI [of _ "ClaimTask _ _ _"])
next
  case (Heartbeat tid wid tok)
  obtain D where "rely (docs w) D" and
    o: "owned_write (beaten (fst (sv_now srv w))) tid wid tok (fst (heartbeat srv tid wid tok w)) D
      (docs (snd (heartbeat srv tid wid tok w)))"
    using heartbeat_spec [OF ok surjective_pairing] by blast
  moreover have "docs (snd (heartbeat srv tid wid tok w)) = D \<or>
      (\<exists>i. task_step D (Beat i wid tok) (docs (snd (heartbeat srv tid wid tok w))))"
    using o beaten_step unfolding owned_write_def
    by (cases "fst (heartbeat srv tid wid tok w)") (auto split: if_splits)
  ultimately show ?thesis
    using Heartbeat by (intro write_step) (auto intro: exI [of _ "Beat _ _ _"])
next
  case (Complete tid wid tok hr)
  show ?thesis
    using finish_call_step [OF ok, of ser tid wid tok hr] Complete
    by (intro write_step) (simp, metis target.simps(3))
next
  case (ReportFailure tid wid tok reason)
  show ?thesis
    using fail_call_step [OF ok, of tid wid tok reason] ReportFailure
    by (intro write_step) (simp, metis target.simps(3))
next
  case (ScanRunning T t)
  show ?thesis
    using scan_rely [OF surjective_pairing] ScanRunning by (intro read_step) simp
next
  case (ScanPending t)
  show ?thesis
    using pending_rely [OF surjective_pairing] ScanPending by (intro read_step) simp
qed

lemma calls_follow:
  assumes rely: "\<And>D D'. rely D D' \<Longrightarrow> follows P D D'"
  shows "coll_ok (docs w) \<Longrightarrow> calls_within P srv ser cs w \<Longrightarrow>
    follows P (docs w) (docs (fold (exec_call srv ser) cs w))"
proof (induction cs arbitrary: w)
  case (Cons c cs)
  obtain D D1 where "rely (docs w) D" "D1 = D \<or> (\<exists>a. may_take srv c w a \<and> task_step D a D1)"
    "rely D1 (docs (exec_call srv ser c w))"
    using call_step [OF Cons.prems(1)] by blast
  then have "follows P (docs w) D" "follows P D D1" "follows P D1 (docs (exec_call srv ser c w))"
    using rely follows_refl follows_step Cons.prems(2) by auto
  then have p: "follows P (docs w) (docs (exec_call srv ser c w))" using follows_trans by blast
  have "follows P (docs (exec_call srv ser c w)) (docs (fold (exec_call srv ser) cs (exec_call srv ser c w)))"
    using Cons.IH [OF follows_ok [OF p Cons.prems(1)]] Cons.prems(2) by simp
  then show ?case using follows_trans [OF p] by simp
qed (simp add: follows_refl)

text \<open>A successful claim makes exactly the document it returns held, under the token it drew.\<close>

lemma claim_holds:
  assumes "claim_outcome P C wid tok T (Inr (Some d)) D D'"
  shows "\<exists>i. D' i = Some d \<and> holds wid tok d \<and> (\<forall>j. j \<noteq> i \<longrightarrow> D' j = D j)"
  using assms by (auto simp: claim_outcome_def claimed_as_def holds_def)

lemma outcome_holds:
  assumes "\<exists>D P C. rely (docs w) D \<and> claim_outcome P C wid tok T (Inr (Some d)) D (docs w1)"
  shows "\<exists>D i. rely (docs w) D \<and> docs w1 i = Some d \<and> holds wid tok d \<and> (\<forall>j. j \<noteq> i \<longrightarrow> docs w1 j = D j)"
  using assms claim_holds by (elim exE conjE) blast

lemma claim_next_holds:
  assumes "coll_ok (docs w)" and "claim_next_task srv wid T ex mode so w = (Inr (Some d), w1)"
  shows "\<exists>D i. rely (docs w) D \<and> docs w1 i = Some d \<and> holds wid (token_drawn srv w) d \<and>
    (\<forall>j. j \<noteq> i \<longrightarrow> docs w1 j = D j)"
proof (rule outcome_holds, cases mode)
  case Ready
  show "\<exists>D P C. rely (docs w) D \<and> claim_outcome P C wid (token_drawn srv w) T (Inr (Some d)) D (docs w1)"
    using claim_ready [OF assms(1) assms(2) [unfolded Ready]] rely_trans by (elim exE conjE disjE) blast+
next
  case StaleRecovery
  show "\<exists>D P C. rely (docs w) D \<and> claim_outcome P C wid (token_drawn srv w) T (Inr (Some d)) D (docs w1)"
    using claim_stale [OF assms(1) assms(2) [unfolded StaleRecovery] refl] by (elim exE conjE) blast
qed

lemma claim_by_id_holds:
  assumes "coll_ok (docs w)" and "claim_expired_task_by_id srv n wid T tid ex w = (Inr (Some d), w1)"
  shows "\<exists>D i. rely (docs w) D \<and> docs w1 i = Some d \<and> holds wid (token_drawn srv w) d \<and>
    (\<forall>j. j \<noteq> i \<longrightarrow> docs w1 j = D j)"
proof (rule outcome_holds)
  have tid: "s \<notin> set ex" if "tid = Some s" for s using that assms(2) by (auto simp: claim_expired_task_by_id_def)
  show "\<exists>D P C. rely (docs w) D \<and> claim_outcome P C wid (token_drawn srv w) T (Inr (Some d)) D (docs w1)"
    using claim_by_id [OF assms refl tid] by blast
qed

end

section \<open>One document per task\<close>

definition ids_unique :: "collection \<Rightarrow> bool" where
  "ids_unique D \<longleftrightarrow>
     (\<forall>i j d e k. D i = Some d \<longrightarrow> D j = Some e \<longrightarrow> task_id_of d = Some k \<longrightarrow> task_id_of e = Some k \<longrightarrow> i = j)"

definition unique_kept :: "(collection \<Rightarrow> collection \<Rightarrow> bool) \<Rightarrow> bool" where
  "unique_kept rely \<longleftrightarrow> (\<forall>D D'. rely D D' \<longrightarrow> ids_unique D \<longrightarrow> ids_unique D')"

lemma unique_keptD: "unique_kept rely \<Longrightarrow> rely D D' \<Longrightarrow> ids_unique D \<Longrightarrow> ids_unique D'"
  by (simp add: unique_kept_def)

lemma ids_unique_step:
  assumes "task_step D a D'" and "\<And>i. a \<noteq> InsertTask i" and "ids_unique D"
  shows "ids_unique D'"
proof -
  have prior: "\<exists>d0. D i = Some d0 \<and> task_id_of d = task_id_of d0" if "D' i = Some d" for i d
    using assms(1)
  proof cases
    case (insert j d')
    then show ?thesis using assms(2) by simp
  qed (use that in \<open>auto simp: keeps_input_def keeps_def split: if_splits\<close>)
  show ?thesis unfolding ids_unique_def using assms(3) [unfolded ids_unique_def] prior by metis
qed

lemma ids_unique_insert:
  "enqueue_inserts True tid payload T trace D D' \<Longrightarrow> ids_unique D \<Longrightarrow> ids_unique D'"
  unfolding enqueue_inserts_def ids_unique_def using enqueued_task by (auto split: if_splits)

lemma ids_unique_upsert:
  assumes "upsert_outcome True (resettable qm pred) rely tid payload T trace r D D'" and "ids_unique D"
    and "unique_kept rely"
  shows "ids_unique D'"
proof -
  have reset: "ids_unique D'" if "enqueue_resets (resettable qm pred) tid payload T trace D D'"
    using enqueue_resets_step [OF that] ids_unique_step assms(2) by blast
  have "rely D D' \<or> D' = D \<or> enqueue_inserts True tid payload T trace D D' \<or>
      enqueue_resets (resettable qm pred) tid payload T trace D D'"
    using assms(1) unfolding upsert_outcome_def
    by (cases r rule: sum.exhaust; cases "projl r"; cases "eo_action (projr r)") auto
  then show ?thesis using assms(2) unique_keptD [OF assms(3)] ids_unique_insert reset by blast
qed

context mongo_server
begin

lemma call_unique:
  assumes rely: "unique_kept rely" and "uniq" and ok: "coll_ok (docs w)" and unique: "ids_unique (docs w)"
  shows "ids_unique (docs (exec_call srv ser c w))"
proof (cases "\<exists>b payload. c = Enqueue b \<and> sb_payload_err b = None \<and> sb_payload b = Some payload")
  case True
  then obtain b payload where c: "c = Enqueue b" "sb_payload_err b = None" "sb_payload b = Some payload" by blast
  let ?u = "upsert_task srv payload (switch_timeout_for b) (sb_idempotency_key b)
    (effective_reset_predicate (sb_reset_when b) (sb_config b)) (sb_trace_context b) w"
  have u: "exec_call srv ser c w = snd ?u" using c by (simp add: enqueue_only_def)
  have yes: "uniq = True" using assms(2) by simp
  obtain D tid payload1 T trace r where D: "rely (docs w) D"
    and o: "upsert_outcome uniq (resettable qmatch (effective_reset_predicate (sb_reset_when b) (sb_config b))) rely
      tid payload1 T trace r D (docs (snd ?u))"
    using upsert_spec [OF ok surjective_pairing] by blast
  show ?thesis unfolding u by (rule ids_unique_upsert [OF o [unfolded yes] unique_keptD [OF rely D unique] rely])
next
  case False
  show ?thesis
  proof (cases "\<exists>b. c = Enqueue b")
    case True
    then have "exec_call srv ser c w = w" using False by (auto simp: enqueue_only_def split: option.split)
    then show ?thesis using unique by simp
  next
    case no_enqueue: False
    obtain D D1 where D: "rely (docs w) D" "rely D1 (docs (exec_call srv ser c w))"
      and s: "D1 = D \<or> (\<exists>a. may_take srv c w a \<and> task_step D a D1)"
      using call_step [OF ok] by blast
    have "a \<noteq> InsertTask i" if "may_take srv c w a" for a i using that no_enqueue by (cases c) auto
    then have "ids_unique D1" using s ids_unique_step unique_keptD [OF rely D(1) unique] by blast
    then show ?thesis using unique_keptD [OF rely D(2)] by blast
  qed
qed

lemma call_ok:
  assumes "coll_ok (docs w)"
  shows "coll_ok (docs (exec_call srv ser c w))"
proof -
  obtain D D1 where D: "rely (docs w) D" "rely D1 (docs (exec_call srv ser c w))"
    and s: "D1 = D \<or> (\<exists>a. may_take srv c w a \<and> task_step D a D1)"
    using call_step [OF assms] by blast
  then show ?thesis using rely_coll_ok assms task_step_ok by metis
qed

lemma calls_ok: "coll_ok (docs w) \<Longrightarrow> coll_ok (docs (fold (exec_call srv ser) cs w))"
  by (induction cs arbitrary: w) (simp_all add: call_ok)

lemma calls_unique:
  assumes rely: "unique_kept rely" and "uniq"
  shows "coll_ok (docs w) \<Longrightarrow> ids_unique (docs w) \<Longrightarrow>
    coll_ok (docs (fold (exec_call srv ser) cs w)) \<and> ids_unique (docs (fold (exec_call srv ser) cs w))"
proof (induction cs arbitrary: w)
  case (Cons c cs)
  have "ids_unique (docs (exec_call srv ser c w))"
    by (rule call_unique [OF rely assms(2) Cons.prems])
  then show ?case using Cons.IH [OF call_ok [OF Cons.prems(1)]] by simp
qed simp

lemma inspect_rely:
  assumes "inspect_task srv de tid w = (r, w1)"
  shows "rely (docs w) (docs w1)"
proof -
  obtain r1 w2 where f: "sv_find_one srv [(''task_id'', BString tid)] w = (r1, w2)" by fastforce
  then have "w2 = w1" using assms by (auto simp: inspect_task_def split: sum.splits option.splits)
  then show ?thesis using find_one_docs [OF f] by simp
qed

text \<open>Reading a task whose only document is \<open>d\<close>, and stays it.\<close>

lemma inspect_only:
  assumes "inspect_task srv de tid w = (r, w1)" and "coll_ok (docs w)"
    and "docs w1 i = Some d" and "task_id_of d = Some tid" and "ids_unique (docs w1)"
  shows "(\<exists>m. r = Inl (Database m)) \<or> r = evaluate_document de d"
proof -
  obtain r1 w2 where f: "sv_find_one srv [(''task_id'', BString tid)] w = (r1, w2)" by fastforce
  have w2: "w2 = w1" using assms(1) f by (auto simp: inspect_task_def split: sum.splits option.splits)
  show ?thesis
  proof (cases r1)
    case (Inl e)
    then show ?thesis using assms(1) f by (auto simp: inspect_task_def)
  next
    case (Inr found)
    then obtain j e where e: "found = Some e" "docs w1 j = Some e" "task_id_of e = Some tid"
      using find_task [OF assms(2) f] assms(3,4) w2 by (cases found) auto
    then have "e = d" using assms(3-5) unfolding ids_unique_def by (metis option.inject)
    then show ?thesis using assms(1) f Inr e(1) by (simp add: inspect_task_def)
  qed
qed

end

section \<open>Shared servers\<close>

text \<open>A server keeps its contract when the others, instead of standing still, may interfere.\<close>

lemma mongo_server_shared:
  assumes "mongo_server qmatch agg upd ins srv docs (=) le uniq"
    and refl: "\<And>D. rely D D" and trans: "\<And>D D1 D2. rely D D1 \<Longrightarrow> rely D1 D2 \<Longrightarrow> rely D D2"
    and ok: "\<And>D D1. rely D D1 \<Longrightarrow> coll_ok D \<Longrightarrow> coll_ok D1"
  shows "mongo_server qmatch agg upd ins srv docs rely le uniq"
proof (intro mongo_server.intro mongo_server_axioms.intro)
  note s = assms(1)
  show "mongo_query qmatch agg upd ins" using s by (simp add: mongo_server_def)
  show "rely D D" for D by (rule refl)
  show "rely D D1 \<Longrightarrow> rely D1 D2 \<Longrightarrow> rely D D2" for D D1 D2 by (rule trans)
  show "rely D D1 \<Longrightarrow> coll_ok D \<Longrightarrow> coll_ok D1" for D D1 by (rule ok)
  show "docs w1 = docs w" if "sv_now srv w = (t, w1)" for w t w1 using mongo_server.now_docs [OF s that] .
  show "docs w1 = docs w" if "sv_uuid srv w = (u, w1)" for w u w1 using mongo_server.uuid_docs [OF s that] .
  show "rely (docs w) (docs w1) \<and>
      (case r1 of Inl e \<Rightarrow> True | Inr None \<Rightarrow> no_match qmatch f (docs w1)
       | Inr (Some d) \<Rightarrow> \<exists>i. docs w1 i = Some d \<and> qmatch f d)"
    if "sv_find_one srv f w = (r1, w1)" for f w r1 w1
    using mongo_server.find_one_docs [OF s that] refl by simp
  show "rely (docs w) (docs w1) \<and>
      (case r2 of Inl e \<Rightarrow> True
       | Inr xs \<Rightarrow>
           (\<forall>d. Inr d \<in> set xs \<longrightarrow>
              (\<exists>D1 i. rely (docs w) D1 \<and> rely D1 (docs w1) \<and> D1 i = Some d \<and> qmatch f d)) \<and>
           ((\<forall>x\<in>set xs. isl x = False) \<longrightarrow>
              (\<forall>i d. (\<forall>D1. rely (docs w) D1 \<and> rely D1 (docs w1) \<longrightarrow> D1 i = Some d) \<and> qmatch f d \<longrightarrow>
                 Inr d \<in> set xs)))"
    if "sv_find srv f w = (r2, w1)" for f w r2 w1
  proof -
    note found = mongo_server.find_docs [OF s that]
    have same: "docs w1 = docs w" using found by simp
    note found = conjunct2 [OF found]
    show ?thesis
    proof (cases r2)
      case (Inr xs)
      have some: "\<exists>i. docs w i = Some d \<and> qmatch f d" if "Inr d \<in> set xs" for d
        using conjunct1 [OF found [unfolded same Inr sum.case], THEN spec, THEN mp, OF that] by blast
      have every: "Inr d \<in> set xs" if "\<forall>x\<in>set xs. isl x = False" "docs w i = Some d" "qmatch f d" for i d
        using conjunct2 [OF found [unfolded same Inr sum.case], THEN mp, OF that(1)] that(2,3) by blast
      show ?thesis unfolding same Inr using some every refl [of "docs w"] by (simp, blast)
    qed (simp add: same refl)
  qed
  have from_now: "\<exists>D. rely (docs w) D \<and> P D" if "\<exists>D. docs w = D \<and> P D" for w P using that refl by blast
  show "\<exists>D. rely (docs w) D \<and>
        (case r3 of
           Inl e \<Rightarrow> docs w1 = D \<or> (\<exists>i d. updates_one qmatch upd f u D i d (docs w1))
         | Inr res \<Rightarrow> upserted_id res = None \<and>
             (if matched_count res = 0 then docs w1 = D \<and> no_match qmatch f D
              else \<exists>i d. updates_one qmatch upd f u D i d (docs w1)))"
    if "sv_update_one srv f u False w = (r3, w1)" for f u w r3 w1
    by (rule from_now [OF mongo_server.update_docs [OF s that]])
  show "\<exists>D. rely (docs w) D \<and>
        (case r1 of
           Inl e \<Rightarrow> docs w1 = D \<or> (\<exists>i d. updates_one qmatch upd f u D i d (docs w1))
         | Inr None \<Rightarrow> docs w1 = D \<and> no_match qmatch f D
         | Inr (Some d1) \<Rightarrow>
             (\<exists>i d. updates_one qmatch upd f u D i d (docs w1) \<and> d1 = upd u d \<and>
                first_in_order le so qmatch f D d))"
    if "sv_find_one_and_update srv f u so w = (r1, w1)" for f u so w r1 w1
    by (rule from_now [OF mongo_server.find_and_update_docs [OF s that]])
  show "      (\<exists>D. rely (docs w) D \<and>
        (case r3 of
           Inl e \<Rightarrow>
             (if \<exists>m. e = WriteError 11000 m
              then no_match qmatch f D \<and> rely D (docs w1) \<and>
                (\<exists>i d. docs w1 i = Some d \<and> (\<exists>v. (''task_id'', v) \<in> set (update_fields u ''$set'') \<and>
                   doc_get d ''task_id'' = Some v))
              else docs w1 = D \<or> (\<exists>i d. updates_one qmatch upd f u D i d (docs w1)) \<or>
                (no_match qmatch f D \<and> (\<exists>i. D i = None \<and> docs w1 = D(i \<mapsto> ins f u i) \<and>
                  (uniq \<longrightarrow> (\<forall>j e. D j = Some e \<longrightarrow> doc_get e ''task_id'' \<noteq> doc_get (ins f u i) ''task_id'')))))
         | Inr res \<Rightarrow>
             (case upserted_id res of
                None \<Rightarrow> 0 < matched_count res \<and> (\<exists>i d. updates_one qmatch upd f u D i d (docs w1))
              | Some v \<Rightarrow> matched_count res = 0 \<and> no_match qmatch f D \<and>
                  (\<exists>i. v = BObjectId i \<and> D i = None \<and> docs w1 = D(i \<mapsto> ins f u i) \<and>
                    (uniq \<longrightarrow> (\<forall>j e. D j = Some e \<longrightarrow> doc_get e ''task_id'' \<noteq> doc_get (ins f u i) ''task_id''))))))"
    if "sv_update_one srv f u True w = (r3, w1)" for f u w r3 w1
  proof (cases r3)
    case (Inl e)
    note up = mongo_server.upsert_docs [OF s that, unfolded Inl sum.case]
    show ?thesis
    proof (cases "\<exists>m. e = WriteError 11000 m")
      case True
      then show ?thesis unfolding Inl sum.case using up refl by auto blast
    next
      case False
      then show ?thesis unfolding Inl sum.case using up from_now by (simp only: if_False)
    qed
  next
    case (Inr res)
    show ?thesis
      unfolding Inr sum.case by (rule from_now [OF mongo_server.upsert_docs [OF s that, unfolded Inr sum.case]])
  qed
qed



interpretation shared: mongo_server ref_match ref_agg ref_upd ref_ins ref_server ref_docs "follows (\<lambda>a. True)" ref_le True
  by (rule mongo_server_shared [OF ref.mongo_server_axioms follows_refl follows_trans follows_ok])

text \<open>Waiting for a result that was recorded.\<close>

context mongo_server
begin

text \<open>A recorded result is what a waiting caller gets.\<close>

lemma finished_read:
  assumes ok: "coll_ok (docs w)" and unique: "ids_unique (docs w)"
    and doc: "docs w i = Some e" "task_id_of e = Some tid" "status_of e = Some ''succeeded''" "doc_get e ''task_output'' = Some v"
    and others: "\<And>D D'. rely D D' \<Longrightarrow> follows (\<lambda>a. a \<noteq> ResetTask i) D D'" and others_unique: "unique_kept rely"
  shows "case fst (await_response srv open_stream de tid w) of
       None \<Rightarrow> False
     | Some (Inr x) \<Rightarrow> de v = Some x
     | Some (Inl e) \<Rightarrow> (\<exists>m. e = Database m) \<or> e = PayloadFormat ''task_output'' \<and> de v = None"
proof -
  obtain r w3 where insp: "inspect_task srv de tid w = (r, w3)" by fastforce
  have read: "rely (docs w) (docs w3)" using inspect_rely [OF insp] .
  obtain bs where bs: "task_run (docs w) bs (docs w3)" "ResetTask i \<notin> set bs"
    using others [OF read] by (auto simp: follows_def list_all_iff)
  have "docs w3 i = Some e" using task_document_stable [OF bs(1) doc(1)] bs(2) doc(3) by auto
  then have "(\<exists>m. r = Inl (Database m)) \<or> r = evaluate_document de e"
    using inspect_only [OF insp ok _ doc(2)] unique_keptD [OF others_unique read unique] doc(1) by blast
  then show ?thesis
    using insp doc(3,4)
    by (auto simp: await_response_def wait_for_result_def evaluate_document_def status_of_def split: option.splits)
qed

text \<open>What a completion that succeeds leaves behind.\<close>

lemma finish_records:
  assumes ok: "coll_ok (docs w)" and unique: "ids_unique (docs w)" and kept: "unique_kept rely"
    and others: "\<And>D D'. rely D D' \<Longrightarrow> follows (\<lambda>a. a \<noteq> ResetTask i) D D'"
    and task: "docs w i = Some d0" "task_id_of d0 = Some tid"
    and finish: "finish_task srv ser tid wid tok (Inr out) w = (Inr (), w1)"
  shows "\<exists>v e. ser out = Some v \<and> docs w1 i = Some e \<and> status_of e = Some ''succeeded'' \<and>
    doc_get e ''task_output'' = Some v \<and> task_id_of e = Some tid"
proof -
  obtain D v where D: "rely (docs w) D" and v: "ser out = Some v"
    and "rewrites_held (finished_as ''succeeded'' ''task_output'' v) tid wid tok D (docs w1)"
    using finish_spec [OF ok finish] by (auto split: option.splits)
  then obtain j d e where e: "D j = Some d" "task_id_of d = Some tid" "docs w1 = D(j \<mapsto> e)"
    "finished_as ''succeeded'' ''task_output'' v d e"
    by (auto simp: rewrites_held_def)
  obtain as where as: "task_run (docs w) as D" using others [OF D] by (auto simp: follows_def)
  obtain d1 where "D i = Some d1" "task_id_of d1 = Some tid"
    using task_document_stable [OF as(1) task(1)] task(2) by (auto simp: same_task_def)
  then have "j = i" using unique_keptD [OF kept D unique] e(1,2) unfolding ids_unique_def by blast
  then show ?thesis using v e by (auto simp: finished_as_def task_id_of_def get_str_def split_paths)
qed

lemma recorded_result_read:
  assumes uniq and ok: "coll_ok (docs w)"
    and unique: "ids_unique (docs w)" and task: "docs w i = Some d0" "task_id_of d0 = Some tid"
    and others: "\<And>D D'. rely D D' \<Longrightarrow> follows (\<lambda>a. a \<noteq> ResetTask i) D D'"
    and others_unique: "unique_kept rely"
    and finish: "finish_task srv ser tid wid tok (Inr out) w = (Inr (), w1)"
    and calls: "calls_within (\<lambda>a. a \<noteq> ResetTask i) srv ser cs w1"
  shows "\<exists>v. ser out = Some v \<and>
    (case fst (await_response srv open_stream de tid (fold (exec_call srv ser) cs w1)) of
       None \<Rightarrow> False
     | Some (Inr x) \<Rightarrow> de v = Some x
     | Some (Inl e) \<Rightarrow> (\<exists>m. e = Database m) \<or> e = PayloadFormat ''task_output'' \<and> de v = None)"
proof -
  obtain v e where v: "ser out = Some v" and e1: "docs w1 i = Some e" "status_of e = Some ''succeeded''"
    "doc_get e ''task_output'' = Some v" "task_id_of e = Some tid"
    using finish_records [OF ok unique others_unique others task finish] by blast
  let ?w = "fold (exec_call srv ser) cs w1"
  have ok1: "coll_ok (docs w1)" and unique1: "ids_unique (docs w1)"
    using calls_unique [OF others_unique assms(1) ok unique, of ser "[Complete tid wid tok (Inr out)]"]
      finish by simp_all
  have run: "follows (\<lambda>a. a \<noteq> ResetTask i) (docs w1) (docs ?w)"
    by (rule calls_follow [OF others ok1 calls])
  have ok2: "coll_ok (docs ?w)" and unique2: "ids_unique (docs ?w)"
    using calls_unique [OF others_unique assms(1) ok1 unique1, of ser cs] by simp_all
  obtain bs where bs: "task_run (docs w1) bs (docs ?w)" "ResetTask i \<notin> set bs"
    using run by (auto simp: follows_def list_all_iff)
  have "docs ?w i = Some e" using task_document_stable [OF bs(1) e1(1)] bs(2) e1(2) by auto
  then show ?thesis using finished_read [OF ok2 unique2 _ e1(4,2,3) others others_unique] v by blast
qed

end

section \<open>Properties\<close>

text \<open>A step changes the document that its action names and no other.\<close>

lemma step_only_target: "task_step D a D' \<Longrightarrow> j \<noteq> target a \<Longrightarrow> D' j = D j"
  by (erule task_stepE) auto

text \<open>
  C7: the program implements the protocol. Whatever callers and workers do, and whatever each of their calls
  returns: besides what other clients do before and after, each single call takes one step of the protocol
  or none. The step is of the call's own kind, under its own worker id and token, and changes the one document
  that it names. All documents keep their ids and field types, and a restriction that every call and the other
  clients obey holds of everything that happens to the collection.
\<close>

theorem every_call_follows_protocol:
  assumes "mongo_server qmatch agg upd ins srv docs rely le uniq" and "coll_ok (docs w)"
    and "\<And>D D'. rely D D' \<Longrightarrow> follows P D D'" and "calls_within P srv ser cs w"
  shows "(\<forall>n<length cs. \<exists>w0 D D1. w0 = fold (exec_call srv ser) (take n cs) w \<and> rely (docs w0) D \<and>
      (D1 = D \<or> (\<exists>a. may_take srv (cs ! n) w0 a \<and> task_step D a D1 \<and> (\<forall>j. j \<noteq> target a \<longrightarrow> D1 j = D j))) \<and>
      rely D1 (docs (exec_call srv ser (cs ! n) w0))) \<and>
    follows P (docs w) (docs (fold (exec_call srv ser) cs w)) \<and>
    coll_ok (docs (fold (exec_call srv ser) cs w))"
proof (intro conjI allI impI)
  show run: "follows P (docs w) (docs (fold (exec_call srv ser) cs w))"
    by (rule mongo_server.calls_follow [OF assms(1,3,2,4)])
  then show "coll_ok (docs (fold (exec_call srv ser) cs w))" by (rule follows_ok [OF _ assms(2)])
  fix n assume "n < length cs"
  let ?w = "fold (exec_call srv ser) (take n cs) w"
  have "coll_ok (docs ?w)" by (rule mongo_server.calls_ok [OF assms(1,2)])
  from mongo_server.call_step [OF assms(1) this, of "cs ! n" ser] obtain D D1 where "rely (docs ?w) D"
    "D1 = D \<or> (\<exists>a. may_take srv (cs ! n) ?w a \<and> task_step D a D1)" "rely D1 (docs (exec_call srv ser (cs ! n) ?w))"
    by blast
  moreover from this step_only_target
  have "D1 = D \<or> (\<exists>a. may_take srv (cs ! n) ?w a \<and> task_step D a D1 \<and> (\<forall>j. j \<noteq> target a \<longrightarrow> D1 j = D j))" by blast
  ultimately show "\<exists>w0 D D1. w0 = ?w \<and> rely (docs w0) D \<and>
      (D1 = D \<or> (\<exists>a. may_take srv (cs ! n) w0 a \<and> task_step D a D1 \<and> (\<forall>j. j \<noteq> target a \<longrightarrow> D1 j = D j))) \<and>
      rely D1 (docs (exec_call srv ser (cs ! n) w0))"
    by blast
qed

definition demo_calls :: "bson call list" where
  "demo_calls =
     [Enqueue (demo_request ''c''), ClaimNext ''w1'' (from_secs 10) [] Ready None,
      Heartbeat ''b'' ''w2'' ''tok-b'', Complete ''b'' ''w2'' ''tok-b'' (Inr (BInt32 9)), Inspect ''b'']"

text \<open>In the sample run nothing else happens, and only the holder of \<open>''b''\<close> finishes a task.\<close>

definition demo_rule :: "action \<Rightarrow> bool" where
  "demo_rule a \<longleftrightarrow> (\<forall>i wid tok st. a = Finish i wid tok st \<longrightarrow> wid = ''w2'' \<and> tok = ''tok-b'')"

theorem every_call_follows_protocol_witness:
  "follows demo_rule (ref_docs (demo_world 5000))
     (ref_docs (fold (exec_call ref_server Some) demo_calls (demo_world 5000))) \<and>
   (let w0 = fold (exec_call ref_server Some) (take 3 demo_calls) (demo_world 5000) in
    \<exists>D1. (D1 = ref_docs w0 \<or>
        (\<exists>a. may_take ref_server (demo_calls ! 3) w0 a \<and> task_step (ref_docs w0) a D1 \<and> (\<forall>j. j \<noteq> target a \<longrightarrow> D1 j = ref_docs w0 j))) \<and>
      ref_docs (exec_call ref_server Some (demo_calls ! 3) w0) = D1)"
proof -
  have within: "calls_within demo_rule ref_server Some demo_calls (demo_world 5000)"
    by (auto simp: demo_calls_def demo_rule_def)
  have rely: "follows demo_rule D D'" if "D = D'" for D D' unfolding that by (rule follows_refl)
  let ?w0 = "fold (exec_call ref_server Some) (take 3 demo_calls) (demo_world 5000)"
  have last: "3 < length demo_calls" by (simp add: demo_calls_def)
  note fact = every_call_follows_protocol [OF ref.mongo_server_axioms demo_ok rely within]
  have run: "follows demo_rule (ref_docs (demo_world 5000))
      (ref_docs (fold (exec_call ref_server Some) demo_calls (demo_world 5000)))"
    by (rule fact [THEN conjunct2, THEN conjunct1])
  have "\<exists>w0 D D1. w0 = ?w0 \<and> ref_docs w0 = D \<and>
      (D1 = D \<or> (\<exists>a. may_take ref_server (demo_calls ! 3) w0 a \<and> task_step D a D1 \<and> (\<forall>j. j \<noteq> target a \<longrightarrow> D1 j = D j))) \<and>
      D1 = ref_docs (exec_call ref_server Some (demo_calls ! 3) w0)"
    by (rule fact [THEN conjunct1, THEN spec, THEN mp, OF _ last])
  then show ?thesis unfolding Let_def by (elim exE conjE) (hypsubst, intro conjI exI, rule run, assumption, rule refl)
qed

text \<open>
  An idempotency key names one task. With the recommended unique index, and other clients that keep
  it, no sequence of calls ever gives two documents the same task id.
\<close>

theorem one_document_per_task:
  assumes "mongo_server qmatch agg upd ins srv docs rely le True" and "coll_ok (docs w)" and "ids_unique (docs w)"
    and "unique_kept rely"
  shows "ids_unique (docs (fold (exec_call srv ser) cs w))"
  using mongo_server.calls_unique [OF assms(1,4) TrueI assms(2,3)] by blast

lemma demo_unique: "ids_unique (ref_docs (demo_world t))"
  by (auto simp: ids_unique_def ref_docs_def demo_world_def ref_world_of_def demo_docs_def demo_task_def
      demo_state_def task_id_of_def doc_get_def accessor_defs split: if_splits)

theorem one_document_per_task_witness:
  "ids_unique (ref_docs (fold (exec_call ref_server Some) demo_calls (demo_world 5000)))"
proof -
  have rely: "unique_kept (=)" by (simp add: unique_kept_def)
  show ?thesis by (rule one_document_per_task [OF ref.mongo_server_axioms demo_ok demo_unique rely])
qed

text \<open>What a worker does to get a task: one of the two claims, which returned the document \<open>d\<close>.\<close>

definition claims_task :: "'w server \<Rightarrow> string \<Rightarrow> 'w \<Rightarrow> document \<Rightarrow> 'w \<Rightarrow> bool" where
  "claims_task srv wid w d w1 \<longleftrightarrow>
     (\<exists>T ex mode so. claim_next_task srv wid T ex mode so w = (Inr (Some d), w1)) \<or>
     (\<exists>i T tid ex. claim_expired_task_by_id srv i wid T tid ex w = (Inr (Some d), w1))"

text \<open>
  C6: a recorded result is the result of an uninterrupted claim. If a worker claims a task, any calls of
  any clients follow, and the worker's completion then reports success, then between claim and completion
  nobody claimed, completed, failed or reset that task: all that happened to it were this claim's own
  heartbeats. The recorded output is the handler's, and the recorded input is the one the worker was
  given. The token drawn by the claim is new and not drawn again.
\<close>

theorem result_of_uninterrupted_claim:
  assumes server: "mongo_server qmatch agg upd ins srv docs rely le uniq" and ok: "coll_ok (docs w)"
    and "tok = token_drawn srv w" and new: "\<And>i. \<not> held i wid tok (docs w)"
    and others: "\<And>D D'. rely D D' \<Longrightarrow> follows (spares tok) D D'"
    and claim: "claims_task srv wid w d w1"
    and calls: "calls_within (spares tok) srv ser cs w1"
    and finish: "finish_task srv ser tid wid tok (Inr out) (fold (exec_call srv ser) cs w1) = (Inr (), w2)"
  shows "\<exists>i as D e v. docs w1 i = Some d \<and> task_run (docs w1) as D \<and>
    (\<forall>a\<in>set as. target a = i \<longrightarrow> a = Beat i wid tok) \<and>
    docs w2 = D(i \<mapsto> e) \<and> ser out = Some v \<and> doc_get e ''task_output'' = Some v \<and>
    status_of e = Some ''succeeded'' \<and> doc_get e ''task_input'' = doc_get d ''task_input''"
proof -
  obtain D0 i where D0: "rely (docs w) D0" and d: "docs w1 i = Some d" "holds wid tok d"
    and rest: "\<forall>j. j \<noteq> i \<longrightarrow> docs w1 j = D0 j"
    using claim mongo_server.claim_next_holds [OF server ok] mongo_server.claim_by_id_holds [OF server ok]
    unfolding assms(3) claims_task_def by metis
  have only: "j = i" if "held j wid tok (docs w1)" for j
    using that new held_before [OF others [OF D0]] rest by (metis held_def)
  have ok1: "coll_ok (docs w1)"
    using claim mongo_server.call_ok [OF server ok, of Some "ClaimNext wid _ _ _ _"]
      mongo_server.call_ok [OF server ok, of Some "ClaimById _ wid _ _ _"]
    unfolding claims_task_def exec_call.simps by (metis snd_conv)
  let ?w = "fold (exec_call srv ser) cs w1"
  have run1: "follows (spares tok) (docs w1) (docs ?w)"
    by (rule mongo_server.calls_follow [OF server others ok1 calls])
  obtain D v where D: "rely (docs ?w) D" and v: "ser out = Some v"
    and written: "rewrites_held (finished_as ''succeeded'' ''task_output'' v) tid wid tok D (docs w2)"
    using mongo_server.finish_spec [OF server follows_ok [OF run1 ok1] finish] by (auto split: option.splits)
  obtain j d2 e where e: "D j = Some d2" "holds wid tok d2" "finished_as ''succeeded'' ''task_output'' v d2 e"
    "docs w2 = D(j \<mapsto> e)"
    using written by (auto simp: rewrites_held_def)
  obtain as where as: "task_run (docs w1) as D" "tok \<notin> set (claimed_tokens as)"
    using follows_trans [OF run1 others [OF D]] by (auto simp: follows_def spares_tokens)
  have held: "held j wid tok D" using e by (auto simp: held_def)
  then have ji: "j = i" using only held_run_back [OF as] by blast
  have beats: "\<forall>a\<in>set as. target a = i \<longrightarrow> a = Beat i wid tok"
    using held_throughout [OF as(1) _ _ as(2)] held d unfolding ji by (auto simp: held_def)
  then have "ResetTask i \<notin> set as" by force
  then have "doc_get d2 ''task_input'' = doc_get d ''task_input''"
    using task_document_stable [OF as(1) d(1)] e(1) ji by auto
  then have "doc_get e ''task_input'' = doc_get d ''task_input''" "status_of e = Some ''succeeded''"
    "doc_get e ''task_output'' = Some v"
    using e(3) by (simp_all add: finished_as_def split_paths)
  then show ?thesis using d(1) as(1) beats e(4) [unfolded ji] v by blast
qed

lemma demo_new_token: "\<not> held i wid (token_drawn ref_server (demo_world 5000)) (ref_docs (demo_world 5000))"
  by (simp add: held_def holds_def token_drawn_def token_of_def state_field_def status_of_def ref_eval demo_defs)

lemma demo_claim_then_finish:
  "\<exists>d w1 w2. claim_next_task ref_server ''w1'' (from_secs 10) [] Ready None (demo_world 5000) = (Inr (Some d), w1) \<and>
     task_id_of d = Some ''a'' \<and>
     finish_task ref_server Some ''a'' ''w1'' (token_drawn ref_server (demo_world 5000)) (Inr (BInt32 9))
       (fold (exec_call ref_server Some) [Heartbeat ''a'' ''w1'' (token_drawn ref_server (demo_world 5000))] w1) =
       (Inr (), w2)"
  by (simp add: claim_next_task_def ready_filters_def claim_with_filter_def claim_update_def finish_task_def
      held_filter_def heartbeat_def token_drawn_def task_id_of_def ref_eval demo_defs)

theorem result_of_uninterrupted_claim_witness:
  "\<exists>d w1 w2 i e. claim_next_task ref_server ''w1'' (from_secs 10) [] Ready None (demo_world 5000) = (Inr (Some d), w1) \<and>
     ref_docs w1 i = Some d \<and> ref_docs w2 i = Some e \<and> status_of e = Some ''succeeded'' \<and>
     doc_get e ''task_output'' = Some (BInt32 9) \<and> doc_get e ''task_input'' = doc_get d ''task_input''"
proof -
  let ?tok = "token_drawn ref_server (demo_world 5000)"
  obtain d w1 w2 where claim: "claim_next_task ref_server ''w1'' (from_secs 10) [] Ready None (demo_world 5000) = (Inr (Some d), w1)"
    and finish: "finish_task ref_server Some ''a'' ''w1'' ?tok (Inr (BInt32 9))
      (fold (exec_call ref_server Some) [Heartbeat ''a'' ''w1'' ?tok] w1) = (Inr (), w2)"
    using demo_claim_then_finish by blast
  have rely: "follows (spares ?tok) D D'" if "D = D'" for D D' using that follows_refl by simp
  have claimed: "claims_task ref_server ''w1'' (demo_world 5000) d w1" using claim by (auto simp: claims_task_def)
  have within: "calls_within (spares ?tok) ref_server Some [Heartbeat ''a'' ''w1'' ?tok] w1"
    by (simp add: spares_def) (metis drawn.simps(2) empty_iff empty_set)
  from result_of_uninterrupted_claim [OF ref.mongo_server_axioms demo_ok refl demo_new_token rely claimed within finish]
  obtain i e where "ref_docs w1 i = Some d" "ref_docs w2 i = Some e" "status_of e = Some ''succeeded''"
    "doc_get e ''task_output'' = Some (BInt32 9)" "doc_get e ''task_input'' = doc_get d ''task_input''"
    by fastforce
  then show ?thesis using claim by blast
qed

text \<open>
  A recorded result reaches its caller. After a completion that reported success, and any calls of any
  clients that do not reset this task, waiting for the task returns at once: with the recorded output, or
  with the error that it is not of the caller's type, or with the server's error. With the unique index it
  cannot be another task's result.
\<close>

theorem recorded_result_reaches_caller:
  assumes server: "mongo_server qmatch agg upd ins srv docs rely le True" and ok: "coll_ok (docs w)"
    and unique: "ids_unique (docs w)" and task: "docs w i = Some d0" "task_id_of d0 = Some tid"
    and others: "\<And>D D'. rely D D' \<Longrightarrow> follows (\<lambda>a. a \<noteq> ResetTask i) D D'"
    and others_unique: "unique_kept rely"
    and finish: "finish_task srv ser tid wid tok (Inr out) w = (Inr (), w1)"
    and calls: "calls_within (\<lambda>a. a \<noteq> ResetTask i) srv ser cs w1"
  shows "\<exists>v. ser out = Some v \<and>
    (case fst (await_response srv open_stream de tid (fold (exec_call srv ser) cs w1)) of
       None \<Rightarrow> False
     | Some (Inr x) \<Rightarrow> de v = Some x
     | Some (Inl e) \<Rightarrow> (\<exists>m. e = Database m) \<or> e = PayloadFormat ''task_output'' \<and> de v = None)"
  by (rule mongo_server.recorded_result_read [OF server TrueI ok unique task others others_unique finish calls])

lemma demo_finish_then_wait:
  "\<exists>w1. finish_task ref_server Some ''b'' ''w2'' ''tok-b'' (Inr (BInt32 9)) (demo_world 5000) = (Inr (), w1) \<and>
     fst (await_response ref_server (\<lambda>p. Inr \<lparr>rs_events = [], rs_closed = False\<rparr>) Some ''b''
       (fold (exec_call ref_server Some) [Inspect ''b''] w1)) = Some (Inr (BInt32 9))"
  by (simp add: finish_task_def held_filter_def await_response_def wait_for_result_def inspect_task_def
      evaluate_document_def ref_eval demo_defs)

theorem recorded_result_reaches_caller_witness:
  "\<exists>w1 v. finish_task ref_server Some ''b'' ''w2'' ''tok-b'' (Inr (BInt32 9)) (demo_world 5000) = (Inr (), w1) \<and>
     fst (await_response ref_server (\<lambda>p. Inr \<lparr>rs_events = [], rs_closed = False\<rparr>) Some ''b''
       (fold (exec_call ref_server Some) [Inspect ''b''] w1)) = Some (Inr v) \<and> Some v = Some (BInt32 9)"
proof -
  obtain w1 where finish: "finish_task ref_server Some ''b'' ''w2'' ''tok-b'' (Inr (BInt32 9)) (demo_world 5000) = (Inr (), w1)"
    and waited: "fst (await_response ref_server (\<lambda>p. Inr \<lparr>rs_events = [], rs_closed = False\<rparr>) Some ''b''
      (fold (exec_call ref_server Some) [Inspect ''b''] w1)) = Some (Inr (BInt32 9))"
    using demo_finish_then_wait by blast
  have rely: "follows (\<lambda>a. a \<noteq> ResetTask (ObjectId 2)) D D'" if "D = D'" for D D' using that follows_refl by simp
  have kept: "unique_kept (=)" by (simp add: unique_kept_def)
  have within: "calls_within (\<lambda>a. a \<noteq> ResetTask (ObjectId 2)) ref_server Some [Inspect ''b''] w1" by simp
  have task: "task_id_of (demo_task ''running'' ''b'' (demo_state ''w2'' ''tok-b'' 1000) 2) = Some ''b''"
    by (simp add: task_id_of_def demo_task_def accessor_defs doc_get_def)
  note fact = recorded_result_reaches_caller [OF ref.mongo_server_axioms demo_ok demo_unique demo_docs_at(2) task rely
      kept finish within, where de = Some and open_stream = "\<lambda>p. Inr \<lparr>rs_events = [], rs_closed = False\<rparr>"]
  show ?thesis using fact finish waited by auto
qed

end
