(* ===== verification/EndToEnd.thy ===== *)
theory EndToEnd
  imports System
begin

text \<open>
  The stations of a request on its way to the answer: what an enqueueing, a claim, the start of a job and a
  completion leave behind when they succeed.
\<close>

lemma begin_task_ok:
  assumes "begin_task srv de ot d wid T w = (Inr (job, tok, lease), w1)"
  shows "get_str d ''task_id'' = Some (wj_task_id job) \<and>
    Option.bind (doc_get d ''task_input'') de = Some (wj_payload job) \<and>
    w1 = snd (heartbeat srv (wj_task_id job) wid tok w)"
  using assms
  by (auto simp: begin_task_def setup_task_def Let_def
      split: option.splits prod.splits sum.splits bool.splits if_splits)

lemma finish_ok_handler:
  assumes "finish_task srv ser tid wid tok hr w = (Inr (), w1)"
  shows "\<exists>out. hr = Inr out"
  using assms by (cases hr) (auto simp: finish_task_def)

context mongo_server
begin

lemma enqueued_doc:
  assumes "enqueue_only srv b w = (Inr oc, w1)" and "coll_ok (docs w)"
  shows "\<exists>p j d. sb_payload b = Some p \<and> docs w1 j = Some d \<and> task_id_of d = Some (eo_task_id oc) \<and>
    doc_get d ''task_input'' = Some p \<and> status_of d = Some ''pending''"
proof -
  obtain p where p: "sb_payload b = Some p"
    and u: "upsert_task srv p (switch_timeout_for b) (sb_idempotency_key b)
      (effective_reset_predicate (sb_reset_when b) (sb_config b)) (sb_trace_context b) w = (Inr oc, w1)"
    using assms(1) by (auto simp: enqueue_only_def split: option.splits)
  obtain D where "upsert_outcome uniq (resettable qmatch (effective_reset_predicate (sb_reset_when b) (sb_config b)))
      rely (request_id srv (sb_idempotency_key b) w) p (switch_timeout_for b) (sb_trace_context b) (Inr oc) D (docs w1)"
    using upsert_spec [OF assms(2) u] by blast
  then have "\<exists>j d. docs w1 j = Some d \<and>
      enqueued_as (eo_task_id oc) p (switch_timeout_for b) (sb_trace_context b) d"
    by (cases "eo_action oc") (auto simp: upsert_outcome_def enqueue_inserts_def enqueue_resets_def)
  then show ?thesis using p by (auto simp: enqueued_as_def fresh_pending_def)
qed

text \<open>A claim is one of the calls.\<close>

lemma claims_task_call:
  assumes "claims_task srv wid w d w1"
  shows "\<exists>c :: 'o call. exec_call srv ser c w = w1 \<and> (\<forall>i. calls_within (\<lambda>a. a \<noteq> ResetTask i) srv ser [c] w)"
  using assms unfolding claims_task_def
proof (elim disjE exE)
  fix T ex mode so assume "claim_next_task srv wid T ex mode so w = (Inr (Some d), w1)"
  then have "exec_call srv ser (ClaimNext wid T ex mode so) w = w1"
    "\<forall>i. calls_within (\<lambda>a. a \<noteq> ResetTask i) srv ser [ClaimNext wid T ex mode so] w"
    by auto
  then show ?thesis by blast
next
  fix j T tid ex assume "claim_expired_task_by_id srv j wid T tid ex w = (Inr (Some d), w1)"
  then have "exec_call srv ser (ClaimById j wid T tid ex) w = w1"
    "\<forall>i. calls_within (\<lambda>a. a \<noteq> ResetTask i) srv ser [ClaimById j wid T tid ex] w"
    by auto
  then show ?thesis by blast
qed

end

lemma demo_empty_unique: "ids_unique (ref_docs (ref_world_of [] t))"
  by (simp add: ids_unique_def ref_docs_def ref_world_of_def)

end
