(* ===== verification/Moves.thy ===== *)
theory Moves
  imports EndToEnd
begin

text \<open>
  What a worker does to the world outside its process between two of its events: a sequence of its calls,
  with the documents that its claims returned. Every operation of the loop and of a job is shown to be such a
  sequence once; what the calls keep, the operations keep.
\<close>

section \<open>Sequences of calls\<close>

text \<open>The calls of a worker; the completion of a task carries the result of a handler and stands alone.\<close>

fun made_by :: "string \<Rightarrow> 'o call \<Rightarrow> bool" where
  "made_by wid (ClaimNext wid1 T ex mode so) \<longleftrightarrow> wid1 = wid"
| "made_by wid (ClaimById i wid1 T tid ex) \<longleftrightarrow> wid1 = wid"
| "made_by wid (Heartbeat tid wid1 tok) \<longleftrightarrow> wid1 = wid"
| "made_by wid (ReportFailure tid wid1 tok reason) \<longleftrightarrow> wid1 = wid"
| "made_by wid (ScanRunning T t) \<longleftrightarrow> True"
| "made_by wid (ScanPending t) \<longleftrightarrow> True"
| "made_by wid c \<longleftrightarrow> False"

inductive moves :: "'w loop_env \<Rightarrow> 'w \<Rightarrow> document list \<Rightarrow> 'w \<Rightarrow> bool" for env :: "'w loop_env" where
  stays: "moves env w [] w"
| calls: "made_by (le_worker_id env) (c :: bson call) \<Longrightarrow> moves env (exec_call (le_srv env) Some c w) ds w1 \<Longrightarrow>
    moves env w ds w1"
| claims: "claims_task (le_srv env) (le_worker_id env) w d w1 \<Longrightarrow> moves env w1 ds w2 \<Longrightarrow> moves env w (d # ds) w2"
| looks: "sv_now (le_srv env) w = (t, w1) \<Longrightarrow> moves env w1 ds w2 \<Longrightarrow> moves env w ds w2"
| opens: "le_watch env stages w = (r, w1) \<Longrightarrow> moves env w1 ds w2 \<Longrightarrow> moves env w ds w2"

lemma moves_trans: "moves env w ds w1 \<Longrightarrow> moves env w1 ds1 w2 \<Longrightarrow> moves env w (ds @ ds1) w2"
  by (induction rule: moves.induct) (auto intro: moves.intros)

lemma moves_call:
  "made_by (le_worker_id env) (c :: bson call) \<Longrightarrow> exec_call (le_srv env) Some c w = w1 \<Longrightarrow> moves env w [] w1"
  by (auto intro: moves.intros)

text \<open>The tasks that a phase of the loop has started, and where new ones come from.\<close>

fun started :: "loop_phase \<Rightarrow> (string \<times> document) list" where
  "started (Looping s) = join_set (lp_pool s)"
| "started (Claiming mode s) = join_set (lp_pool s)"
| "started (Reclaiming due s) = join_set (lp_pool s)"
| "started (Draining p n) = join_set p"
| "started (Exited r) = []"

definition takes_up :: "(string \<times> document) list \<Rightarrow> document list \<Rightarrow> (string \<times> document) list \<Rightarrow> bool" where
  "takes_up js ds js' \<longleftrightarrow> snd ` set js' \<subseteq> snd ` set js \<union> set ds"

lemma takes_up_refl [simp]: "takes_up js ds js"
  by (auto simp: takes_up_def)

lemma takes_up_trans: "takes_up a ds b \<Longrightarrow> takes_up b ds' c \<Longrightarrow> takes_up a (ds @ ds') c"
  unfolding takes_up_def set_append by blast

lemma takes_up_spawn: "takes_up (join_set p) [task] (join_set (spawn_claimed_task task tid p))"
  by (auto simp: takes_up_def spawn_claimed_task_def registry_insert_def release_def)

definition moved ::
  "'w loop_env \<Rightarrow> (string \<times> document) list \<Rightarrow> 'w \<Rightarrow> (string \<times> document) list \<Rightarrow> 'w \<Rightarrow> bool" where
  "moved env js w js' w' \<longleftrightarrow> (\<exists>ds. moves env w ds w' \<and> takes_up js ds js')"

lemma movedI: "moves env w ds w' \<Longrightarrow> moved env js w js w'"
  unfolding moved_def using takes_up_refl by blast

lemma moved_trans: "moved env a w b w1 \<Longrightarrow> moved env b w1 c w2 \<Longrightarrow> moved env a w c w2"
  unfolding moved_def by (elim exE conjE, intro exI conjI, rule moves_trans, assumption+, rule takes_up_trans)

lemma moved_stays: "moved env js w js w"
  by (rule movedI [OF stays])

text \<open>A shorter list of started tasks is no matter.\<close>

lemma moved_less: "moved env a w b w1 \<Longrightarrow> set c \<subseteq> set b \<Longrightarrow> moved env a w c w1"
  unfolding moved_def takes_up_def by (meson image_mono order_trans)

section \<open>The operations of a worker\<close>

lemma begin_moves:
  assumes "begin_task (le_srv env) de ot doc (le_worker_id env) T w = (r, w1)"
  shows "moves env w [] w1"
proof (cases "get_str doc ''task_id''")
  case None
  then show ?thesis using assms stays by (auto simp: begin_task_def)
next
  case (Some tid)
  let ?wid = "le_worker_id env" and ?tok = "claim_token_in doc"
  obtain r1 wa where s: "setup_task (le_srv env) de ot doc tid ?wid ?tok w = (r1, wa)" by fastforce
  have "wa = w \<or> wa = snd (heartbeat (le_srv env) tid ?wid ?tok w)"
    using s by (auto simp: setup_task_def Let_def split: option.splits prod.splits sum.splits bool.splits)
  then have a: "moves env w [] wa" using stays moves_call [of env "Heartbeat tid ?wid ?tok"] by auto
  have "w1 = wa \<or> (\<exists>reason. w1 = mark_task_failed (le_srv env) tid ?wid ?tok reason wa)"
    using assms s Some by (auto simp: begin_task_def Let_def split: sum.splits prod.splits if_splits)
  then have "moves env wa [] w1" using stays moves_call [of env "ReportFailure tid ?wid ?tok _"] by auto
  then show ?thesis using moves_trans [OF a] by simp
qed

lemma job_moves:
  assumes "job_step (le_srv env) ser tid (le_worker_id env) tok ev (s, w) = Some (s1, w1)"
  shows "moves env w [] w1 \<or> (\<exists>hr. ev = HandlerReturns hr \<and> js_phase s = HandlerRunning \<and>
    w1 = snd (finish_task (le_srv env) ser tid (le_worker_id env) tok hr w))"
proof (cases "\<exists>hr. ev = HandlerReturns hr")
  case True
  then show ?thesis using assms by (auto simp: job_step_def split: if_splits prod.splits)
next
  case False
  then have "w1 = w \<or> w1 = snd (heartbeat (le_srv env) tid (le_worker_id env) tok w)"
    using assms
    by (cases ev) (auto simp: job_step_def beat_step_def Let_def split: if_splits prod.splits heartbeat_outcome.splits)
  then show ?thesis using stays moves_call [of env "Heartbeat tid (le_worker_id env) tok"] by auto
qed

lemma claimed_moved:
  assumes "claims_task (le_srv env) (le_worker_id env) w task w1" and "try_acquire p = Some p2"
  shows "moved env (join_set p) w (join_set (spawn_claimed_task task tid p2)) w1"
  unfolding moved_def using claims [OF assms(1) stays] takes_up_spawn [of p2] acquired [OF assms(2)] by auto

lemma round_moved:
  assumes "claim_round (le_srv env) snap (le_worker_id env) T mode so p t w = (g, p1, t1, w1)"
  shows "moved env (join_set p) w (join_set p1) w1"
  using assms
proof (rule claim_roundE)
  fix p2 task
  assume p2: "try_acquire p = Some p2" "p1 = spawn_claimed_task task (task_id_or_default task) p2"
    and "claim_next_task (le_srv env) (le_worker_id env) T (snap (in_flight p)) mode so w = (Inr (Some task), w1)"
  then have "claims_task (le_srv env) (le_worker_id env) w task w1" by (auto simp: claims_task_def)
  then show ?thesis using claimed_moved p2 by simp
qed (use moved_stays movedI [OF moves_call [of env "ClaimNext (le_worker_id env) T (snap (in_flight p)) mode so"]] in auto)

lemma expired_round_moved:
  assumes "expired_round (le_srv env) snap (le_worker_id env) T x p t w = (g, p1, t1, w1)"
  shows "moved env (join_set p) w (join_set p1) w1"
proof -
  obtain i e where x: "x = (i, e)" by fastforce
  show ?thesis using assms [unfolded x]
  proof (rule expired_roundE)
    fix p2 task
    assume p2: "try_acquire p = Some p2" "p1 = spawn_claimed_task task (task_id_or_default task) p2"
      and "claim_expired_task_by_id (le_srv env) i (le_worker_id env) T (et_task_id e) (snap (in_flight p)) w = (Inr (Some task), w1)"
    then have "claims_task (le_srv env) (le_worker_id env) w task w1" by (auto simp: claims_task_def)
    then show ?thesis using claimed_moved p2 by simp
  qed (use moved_stays movedI [OF looks [OF _ stays]]
      movedI [OF moves_call [of env "ClaimById i (le_worker_id env) T (et_task_id e) (snap (in_flight p))"]] in auto)
qed

lemma resync_moved:
  assumes "resync env mode s w = (ph, w1)"
  shows "moved env (join_set (lp_pool s)) w (started ph) w1"
proof -
  let ?T = "le_switch_timeout env" and ?js = "join_set (lp_pool s)"
  obtain t1 wa where a: "refresh_running_expirations (le_srv env) ?T (lp_tracker s) w = (t1, wa)" by fastforce
  obtain t2 wb where b: "refresh_pending_tasks (le_srv env) t1 wa = (t2, wb)" by fastforce
  have scans: "moved env ?js w ?js wa" "moved env ?js wa ?js wb"
    using movedI [OF moves_call [of env "ScanRunning ?T (lp_tracker s)"]]
      movedI [OF moves_call [of env "ScanPending t1"]] a b by simp_all
  then show ?thesis using moved_trans [OF scans] assms a b by (auto simp: resync_def)
qed

lemma open_moves: "open_change_stream (le_watch env) w = (r, w1) \<Longrightarrow> moves env w [] w1"
  using opens [OF _ stays, of env expiry_change_stream_pipeline w]
  by (auto simp: open_change_stream_def Let_def split: prod.splits sum.splits if_splits)

lemma connect_moved:
  assumes "connect_stream env s w = (ph, w1)"
  shows "moved env (join_set (lp_pool s)) w (started ph) w1"
proof -
  let ?js = "join_set (lp_pool s)"
  obtain r wa where a: "open_change_stream (le_watch env) w = (r, wa)" by fastforce
  have wa: "moved env ?js w ?js wa" by (rule movedI [OF open_moves [OF a]])
  show ?thesis
  proof (cases r)
    case (Inl e)
    then show ?thesis using assms a moved_less [OF wa] by (auto simp: connect_stream_def)
  next
    case (Inr b)
    then have "resync env Ready (s\<lparr>lp_stream := b\<rparr>) wa = (ph, w1)" using assms a by (simp add: connect_stream_def)
    from resync_moved [OF this] show ?thesis using moved_trans [OF wa] by simp
  qed
qed

lemma branch_moved:
  assumes "select_branch env ev s w = Some (ph, w1)"
  shows "moved env (join_set (lp_pool s)) w (started ph) w1"
proof (cases ev)
  case ExpiryTimer
  obtain now wa where now: "sv_now (le_srv env) w = (now, wa)" by fastforce
  have "w1 = wa" "started ph = join_set (lp_pool s)"
    using assms ExpiryTimer now by (auto simp: reclaiming_def split: if_splits prod.splits)
  then show ?thesis using movedI [OF looks [OF now stays]] by simp
next
  case RecoveryTick
  then show ?thesis using assms resync_moved by simp
next
  case (StreamEvent e)
  then show ?thesis using assms moved_stays by (auto simp: Let_def split: prod.splits if_splits)
qed (use assms moved_stays in \<open>auto split: if_splits\<close>)

lemma claim_step_moved:
  assumes "claim_step env mode s w = (ph, w1)"
  shows "moved env (join_set (lp_pool s)) w (started ph) w1"
proof -
  obtain g p t wa where r: "claim_round (le_srv env) (le_snap env) (le_worker_id env) (le_switch_timeout env)
      mode (sort_of env mode) (lp_pool s) (lp_tracker s) w = (g, p, t, wa)" using prod_cases4 by blast
  then have "w1 = wa" "started ph = join_set p" using assms by (auto simp: claim_step_def Let_def)
  then show ?thesis using round_moved [OF r] by simp
qed

lemma reclaim_step_moved:
  assumes "reclaim_step env x rest s w = (ph, w1)"
  shows "moved env (join_set (lp_pool s)) w (started ph) w1"
proof -
  obtain g p t wa where r: "expired_round (le_srv env) (le_snap env) (le_worker_id env) (le_switch_timeout env)
      x (lp_pool s) (lp_tracker s) w = (g, p, t, wa)" using prod_cases4 by blast
  then have "w1 = wa" "started ph = join_set p" using assms by (auto simp: reclaim_step_def reclaiming_def Let_def)
  then show ?thesis using expired_round_moved [OF r] by simp
qed

lemma ended_fewer: "set (join_set (task_ended k p)) \<subseteq> set (join_set p)"
  by (auto simp: task_ended_def release_def registry_remove_def dest: in_set_takeD in_set_dropD)

lemma loop_ended_fewer: "loop_task_ended k s = Some s1 \<Longrightarrow> set (join_set (lp_pool s1)) \<subseteq> set (join_set (lp_pool s))"
  using ended_fewer [of k "lp_pool s"] by (simp add: loop_task_ended_def split: if_splits) force

lemma step_moved:
  assumes "loop_step env ev (ph, w) = Some (ph1, w1)"
  shows "moved env (started ph) w (started ph1) w1"
proof (cases "\<exists>k. ev = TaskEnds k")
  case True
  then have "w1 = w" "set (started ph1) \<subseteq> set (started ph)"
    using assms loop_ended_fewer ended_fewer by (cases ph; fastforce split: if_splits)+
  then show ?thesis using moved_less [OF moved_stays] by simp
next
  case False
  show ?thesis
  proof (cases ph)
    case (Looping s)
    then show ?thesis
      using assms False branch_moved [of env ev s w ph1 w1] connect_moved [of env s w ph1 w1] moved_stays
      by (cases ev) (auto simp del: select_branch.simps split: if_splits)
  next
    case (Claiming mode s)
    then show ?thesis using assms False claim_step_moved [of env mode s w ph1 w1] by (cases ev) auto
  next
    case (Reclaiming due s)
    then show ?thesis using assms False reclaim_step_moved [of env _ _ s w ph1 w1] by (cases ev; cases due) auto
  next
    case (Draining p n)
    then show ?thesis
      using assms False moved_stays moved_less [OF moved_stays, of "[]"] by (cases ev) (auto split: if_splits)
  qed (use assms in simp)
qed

section \<open>What a worker does to the collection\<close>

text \<open>The protocol steps of one worker: claims, heartbeats and completions under its own id.\<close>

fun by_worker :: "string \<Rightarrow> action \<Rightarrow> bool" where
  "by_worker wid (ClaimTask i wid1 tok) \<longleftrightarrow> wid1 = wid"
| "by_worker wid (Beat i wid1 tok) \<longleftrightarrow> wid1 = wid"
| "by_worker wid (Finish i wid1 tok st) \<longleftrightarrow> wid1 = wid"
| "by_worker wid a \<longleftrightarrow> False"

text \<open>
  A relation between collections that the steps \<open>A\<close> and the other clients keep holds between any two moments
  of a run of them.
\<close>

definition kept_by ::
  "(action \<Rightarrow> bool) \<Rightarrow> (collection \<Rightarrow> collection \<Rightarrow> bool) \<Rightarrow> (collection \<Rightarrow> collection \<Rightarrow> bool) \<Rightarrow> bool" where
  "kept_by A rely R \<longleftrightarrow>
     (\<forall>D. R D D) \<and> (\<forall>D D1 D2. R D D1 \<longrightarrow> R D1 D2 \<longrightarrow> R D D2) \<and> (\<forall>D D'. rely D D' \<longrightarrow> R D D') \<and>
     (\<forall>D a D'. A a \<longrightarrow> task_step D a D' \<longrightarrow> R D D')"

abbreviation guaranteed :: "string \<Rightarrow> (collection \<Rightarrow> collection \<Rightarrow> bool) \<Rightarrow> (collection \<Rightarrow> collection \<Rightarrow> bool) \<Rightarrow> bool" where
  "guaranteed wid \<equiv> kept_by (by_worker wid)"

text \<open>The steps that no handler's output is in.\<close>

definition quiet :: "string \<Rightarrow> action \<Rightarrow> bool" where
  "quiet wid a \<longleftrightarrow> by_worker wid a \<and> (\<forall>i wid1 tok. a \<noteq> Finish i wid1 tok ''succeeded'')"

lemma guaranteed_quiet: "guaranteed wid rely R \<Longrightarrow> kept_by (quiet wid) rely R"
  unfolding kept_by_def quiet_def by blast

lemma guaranteed_follows:
  assumes "\<And>D D'. rely D D' \<Longrightarrow> follows P D D'" and "\<And>a. by_worker wid a \<Longrightarrow> P a"
  shows "guaranteed wid rely (follows P)"
  unfolding kept_by_def
proof (intro conjI allI impI)
  show "follows P D D" for D by (rule follows_refl)
  show "follows P D D2" if "follows P D D1" "follows P D1 D2" for D D1 D2 using that by (rule follows_trans)
  show "follows P D D'" if "rely D D'" for D D' using assms(1) [OF that] .
  show "follows P D D'" if "by_worker wid a" "task_step D a D'" for D a D'
    using follows_step [OF that(2)] assms(2) [OF that(1)] .
qed

lemma kept_trans: "kept_by A rely R \<Longrightarrow> R D D1 \<Longrightarrow> R D1 D2 \<Longrightarrow> R D D2"
  unfolding kept_by_def by blast

lemma kept_refl: "kept_by A rely R \<Longrightarrow> R D D"
  by (simp add: kept_by_def)

context mongo_server
begin

lemma call_kept:
  assumes R: "kept_by A rely R" and ok: "coll_ok (docs w)" and own: "\<And>a. may_take srv c w a \<Longrightarrow> A a"
  shows "R (docs w) (docs (exec_call srv ser c w)) \<and> coll_ok (docs (exec_call srv ser c w))"
proof -
  obtain D D1 where "rely (docs w) D" "D1 = D \<or> (\<exists>a. may_take srv c w a \<and> task_step D a D1)"
    "rely D1 (docs (exec_call srv ser c w))"
    using call_step [OF ok] by blast
  then have "R (docs w) D" "R D D1" "R D1 (docs (exec_call srv ser c w))"
    using R own unfolding kept_by_def by blast+
  then have "R (docs w) (docs (exec_call srv ser c w))" using kept_trans [OF R] by blast
  then show ?thesis using call_ok [OF ok] by blast
qed

lemma own_call:
  assumes "kept_by (quiet wid) rely R" and "coll_ok (docs w)" and "made_by wid c"
  shows "R (docs w) (docs (exec_call srv ser c w)) \<and> coll_ok (docs (exec_call srv ser c w))"
proof (rule call_kept [OF assms(1,2)])
  show "quiet wid a" if "may_take srv c w a" for a using that assms(3) by (cases c; cases a) (auto simp: quiet_def)
qed

lemma own_claims:
  assumes R: "kept_by (quiet wid) rely R" and ok: "coll_ok (docs w)" and claim: "claims_task srv wid w d w1"
  shows "R (docs w) (docs w1) \<and> coll_ok (docs w1)"
  using claim own_call [OF R ok, of "ClaimNext wid _ _ _ _" Some] own_call [OF R ok, of "ClaimById _ wid _ _ _" Some]
  unfolding claims_task_def exec_call.simps made_by.simps by (metis snd_conv)

lemma own_completion:
  assumes R: "guaranteed wid rely R" and ok: "coll_ok (docs w)"
  shows "R (docs w) (docs (snd (finish_task srv ser tid wid tok hr w))) \<and>
    coll_ok (docs (snd (finish_task srv ser tid wid tok hr w)))"
proof -
  have "by_worker wid a" if "may_take srv (Complete tid wid tok hr) w a" for a using that by (cases a) auto
  then show ?thesis using call_kept [OF R ok, of "Complete tid wid tok hr" ser] by simp
qed

end

context worker_server
begin

lemma moves_kept:
  assumes R: "kept_by (quiet (le_worker_id env)) rely R"
  shows "moves env w ds w1 \<Longrightarrow> coll_ok (docs w) \<Longrightarrow> R (docs w) (docs w1) \<and> coll_ok (docs w1)"
proof (induction rule: moves.induct)
  case (stays w)
  then show ?case using kept_refl [OF R] by simp
next
  case (calls c w ds w1)
  then show ?case using own_call [OF R calls.prems calls.hyps(1)] kept_trans [OF R] by blast
next
  case (claims w d w1 ds w2)
  then show ?case using own_claims [OF R claims.prems claims.hyps(1)] kept_trans [OF R] by blast
next
  case (looks w t w1 ds w2)
  then show ?case using now_docs by metis
next
  case (opens stages w r w1 ds w2)
  have rely: "rely (docs w) (docs w1)" by (rule watch_docs [OF opens.hyps(1)])
  then have "R (docs w) (docs w1)" using R by (simp add: kept_by_def)
  then show ?case using opens.IH [OF rely_ok [OF rely opens.prems]] kept_trans [OF R] by blast
qed

lemma moves_guaranteed:
  assumes "guaranteed (le_worker_id env) rely R" and "moves env w ds w1" and "coll_ok (docs w)"
  shows "R (docs w) (docs w1) \<and> coll_ok (docs w1)"
  using moves_kept [OF guaranteed_quiet [OF assms(1)] assms(2,3)] .

lemma moved_guaranteed:
  assumes "guaranteed (le_worker_id env) rely R" and "coll_ok (docs w)" and "moved env js w js1 w1"
  shows "R (docs w) (docs w1) \<and> coll_ok (docs w1)"
  using assms(3) moves_guaranteed [OF assms(1) _ assms(2)] unfolding moved_def by blast

lemma job_guaranteed:
  assumes R: "guaranteed (le_worker_id env) rely R" and ok: "coll_ok (docs w)"
    and step: "job_step (le_srv env) ser tid (le_worker_id env) tok ev (s, w) = Some (s1, w1)"
  shows "R (docs w) (docs w1) \<and> coll_ok (docs w1)"
  using job_moves [OF step] moves_guaranteed [OF R _ ok] own_completion [OF R ok, where ser = ser] by blast

end

end
