(* ===== verification/Crew.thy ===== *)
theory Crew
  imports Moves
begin

text \<open>
  A worker as a whole: its control loop together with the jobs it has started (\<open>process_task\<close> in the join
  set, each with its heartbeat loop) on the shared collection. A step is one event of any of them, in any
  order that the runtime may choose.
\<close>

section \<open>State\<close>

text \<open>
  What a spawned \<open>process_task\<close> is doing: it has not been polled yet; its handler runs, for a job under a
  claim token; or it has returned and waits for its guard and permit to be dropped.
\<close>

datatype 'i job_status =
    Waiting
  | Handling "'i worker_job" string job_state
  | Returned "request_error + unit"

text \<open>
  The jobs stand in the order of the join set. A heartbeat loop is a task of its own: when its
  \<open>process_task\<close> is over, it goes on until it sees the stop channel.
\<close>

record 'i crew =
  cw_loop :: loop_phase
  cw_jobs :: "'i job_status list"
  cw_strays :: "(string \<times> string \<times> job_state) list"

datatype 'o crew_event =
    LoopEvent loop_event
  | JobBegins nat
  | JobGoesOn nat "'o job_event"
  | JobEnds nat
  | StrayGoesOn nat "'o job_event"

section \<open>Steps\<close>

text \<open>
  When \<open>worker_loop\<close> returns with an error, its join set is dropped, which aborts the tasks in it: their
  handlers are cancelled, and their stop channels lose their senders.
\<close>

definition abort_job :: "'i job_status \<Rightarrow> (string \<times> string \<times> job_state) list" where
  "abort_job st =
     (case st of
        Handling job tok s \<Rightarrow>
          [(wj_task_id job, tok, s\<lparr>js_phase := Finished (Inl WorkerGone), js_stop := Dropped\<rparr>)]
      | _ \<Rightarrow> [])"

definition adopt :: "'i crew \<Rightarrow> loop_phase \<Rightarrow> 'i crew" where
  "adopt c ph =
     (case ph of
        Exited r \<Rightarrow> c\<lparr>cw_loop := ph, cw_jobs := [], cw_strays := cw_strays c @ concat (map abort_job (cw_jobs c))\<rparr>
      | _ \<Rightarrow> c\<lparr>cw_loop := ph,
               cw_jobs := cw_jobs c @ replicate (length (started ph) - length (cw_jobs c)) Waiting\<rparr>)"

text \<open>The job's next state; when \<open>process_task\<close> returns, its heartbeat loop is left behind.\<close>

definition go_on :: "nat \<Rightarrow> 'i worker_job \<Rightarrow> string \<Rightarrow> job_state \<Rightarrow> 'i crew \<Rightarrow> 'i crew" where
  "go_on k job tok s c =
     (case js_phase s of
        HandlerRunning \<Rightarrow> c\<lparr>cw_jobs := (cw_jobs c)[k := Handling job tok s]\<rparr>
      | Finished r \<Rightarrow>
          c\<lparr>cw_jobs := (cw_jobs c)[k := Returned r], cw_strays := cw_strays c @ [(wj_task_id job, tok, s)]\<rparr>)"

definition begun :: "request_error + 'i worker_job \<times> string \<times> duration \<Rightarrow> 'i job_status" where
  "begun r =
     (case r of
        Inl err \<Rightarrow> Returned (Inl err)
      | Inr (job, tok, lease) \<Rightarrow> Handling job tok (start_heartbeat_loop lease))"

fun is_task_end :: "loop_event \<Rightarrow> bool" where
  "is_task_end (TaskEnds k) = True"
| "is_task_end _ = False"

fun crew_step ::
  "'w loop_env \<Rightarrow> (bson \<Rightarrow> 'i option) \<Rightarrow> ('t, 's, 'st) otel \<Rightarrow> ('o \<Rightarrow> bson option) \<Rightarrow> 'o crew_event \<Rightarrow>
   'i crew \<times> 'w \<Rightarrow> ('i crew \<times> 'w) option" where
  "crew_step env de ot ser (LoopEvent ev) (c, w) =
     (if is_task_end ev then None
      else map_option (\<lambda>(ph, w1). (adopt c ph, w1)) (loop_step env ev (cw_loop c, w)))"
| "crew_step env de ot ser (JobBegins k) (c, w) =
     (if k < length (cw_jobs c) \<and> cw_jobs c ! k = Waiting
      then (let (r, w1) = begin_task (le_srv env) de ot (snd (started (cw_loop c) ! k)) (le_worker_id env)
                   (le_switch_timeout env) w
            in Some (c\<lparr>cw_jobs := (cw_jobs c)[k := begun r]\<rparr>, w1))
      else None)"
| "crew_step env de ot ser (JobGoesOn k ev) (c, w) =
     (if k < length (cw_jobs c)
      then (case cw_jobs c ! k of
              Handling job tok s \<Rightarrow>
                map_option (\<lambda>(s1, w1). (go_on k job tok s1 c, w1))
                  (job_step (le_srv env) ser (wj_task_id job) (le_worker_id env) tok ev (s, w))
            | _ \<Rightarrow> None)
      else None)"
| "crew_step env de ot ser (JobEnds k) (c, w) =
     (if k < length (cw_jobs c) \<and> (\<exists>r. cw_jobs c ! k = Returned r)
      then map_option (\<lambda>(ph, w1).
               (c\<lparr>cw_loop := ph, cw_jobs := take k (cw_jobs c) @ drop (Suc k) (cw_jobs c)\<rparr>, w1))
             (loop_step env (TaskEnds k) (cw_loop c, w))
      else None)"
| "crew_step env de ot ser (StrayGoesOn k ev) (c, w) =
     (if k < length (cw_strays c)
      then (let (tid, tok, s) = cw_strays c ! k
            in map_option (\<lambda>(s1, w1). (c\<lparr>cw_strays := (cw_strays c)[k := (tid, tok, s1)]\<rparr>, w1))
                 (job_step (le_srv env) ser tid (le_worker_id env) tok ev (s, w)))
      else None)"

fun crew_run ::
  "'w loop_env \<Rightarrow> (bson \<Rightarrow> 'i option) \<Rightarrow> ('t, 's, 'st) otel \<Rightarrow> ('o \<Rightarrow> bson option) \<Rightarrow> 'o crew_event list \<Rightarrow>
   'i crew \<times> 'w \<Rightarrow> ('i crew \<times> 'w) option" where
  "crew_run env de ot ser [] cw = Some cw"
| "crew_run env de ot ser (ev # evs) cw =
     Option.bind (crew_step env de ot ser ev cw) (crew_run env de ot ser evs)"

text \<open>The start of a worker: the code of \<open>worker_loop\<close> before its loop.\<close>

definition crew_start :: "'w loop_env \<Rightarrow> nat \<Rightarrow> 'w \<Rightarrow> 'i crew \<times> 'w" where
  "crew_start env max_inflight w =
     (let (ph, w1) = worker_loop_start env max_inflight w
      in (\<lparr>cw_loop = ph, cw_jobs = replicate (length (started ph)) Waiting, cw_strays = []\<rparr>, w1))"

section \<open>How the loop changes the join set\<close>

text \<open>Only at its end, and each task with the id that its document names.\<close>

definition grows :: "(string \<times> document) list \<Rightarrow> (string \<times> document) list \<Rightarrow> bool" where
  "grows js js' \<longleftrightarrow> (\<exists>new. js' = js @ new \<and> (\<forall>(tid, d)\<in>set new. tid = task_id_or_default d))"

lemma grows_refl [simp]: "grows js js"
  by (simp add: grows_def)

lemma grows_trans: "grows a b \<Longrightarrow> grows b c \<Longrightarrow> grows a c"
  by (force simp: grows_def)

lemma grows_spawn: "grows (join_set p) (join_set (spawn_claimed_task d (task_id_or_default d) p))"
  by (simp add: grows_def spawn_claimed_task_def registry_insert_def release_def)

lemma grows_round:
  assumes "claim_round srv snap wid T mode so p t w = (g, p1, t1, w1)"
  shows "grows (join_set p) (join_set p1)"
  using assms by (rule claim_roundE) (use grows_spawn acquired in \<open>auto, metis+\<close>)

lemma grows_expired_round:
  assumes "expired_round srv snap wid T x p t w = (g, p1, t1, w1)"
  shows "grows (join_set p) (join_set p1)"
proof -
  obtain i e where x: "x = (i, e)" by fastforce
  show ?thesis using assms [unfolded x] by (rule expired_roundE) (use grows_spawn acquired in \<open>auto, metis+\<close>)
qed

lemma grows_resync: "resync env mode s w = (ph, w1) \<Longrightarrow> started ph = join_set (lp_pool s) \<and> (\<forall>r. ph \<noteq> Exited r)"
  by (auto simp: resync_def split: prod.splits)

lemma grows_connect:
  "connect_stream env s w = (ph, w1) \<Longrightarrow>
    (\<exists>err. ph = Exited (Inl err)) \<or> started ph = join_set (lp_pool s) \<and> (\<forall>r. ph \<noteq> Exited r)"
  using grows_resync by (fastforce simp: connect_stream_def split: prod.splits sum.splits)

lemma grows_branch:
  assumes "select_branch env ev s w = Some (ph, w1)"
  shows "started ph = join_set (lp_pool s) \<and> (\<forall>r. ph \<noteq> Exited r)"
  using assms grows_resync [of env StaleRecovery s w ph w1]
  by (cases ev) (auto simp: reclaiming_def Let_def split: prod.splits if_splits)

lemma grows_claim_step:
  assumes "claim_step env mode s w = (ph, w1)"
  shows "grows (join_set (lp_pool s)) (started ph) \<and> (\<forall>r. ph \<noteq> Exited r)"
proof -
  obtain g p t wa where r: "claim_round (le_srv env) (le_snap env) (le_worker_id env) (le_switch_timeout env)
      mode (sort_of env mode) (lp_pool s) (lp_tracker s) w = (g, p, t, wa)" using prod_cases4 by blast
  then show ?thesis using assms grows_round [OF r] by (auto simp: claim_step_def Let_def split: if_splits)
qed

lemma grows_reclaim_step:
  assumes "reclaim_step env x rest s w = (ph, w1)"
  shows "grows (join_set (lp_pool s)) (started ph) \<and> (\<forall>r. ph \<noteq> Exited r)"
proof -
  obtain g p t wa where r: "expired_round (le_srv env) (le_snap env) (le_worker_id env) (le_switch_timeout env)
      x (lp_pool s) (lp_tracker s) w = (g, p, t, wa)" using prod_cases4 by blast
  then show ?thesis
    using assms grows_expired_round [OF r] by (auto simp: reclaim_step_def reclaiming_def Let_def split: if_splits)
qed

lemma grows_step:
  assumes "loop_step env ev (ph, w) = Some (ph1, w1)" and "\<not> is_task_end ev"
  shows "(\<exists>err. ph1 = Exited err) \<or> (\<forall>r. ph1 \<noteq> Exited r) \<and> grows (started ph) (started ph1)"
proof (cases ph)
  case (Looping s)
  then show ?thesis
    using assms grows_branch [of env ev s w ph1 w1] grows_connect [of env s w ph1 w1]
    by (cases ev) (auto simp del: select_branch.simps split: if_splits)
next
  case (Claiming mode s)
  then show ?thesis using assms grows_claim_step [of env mode s w ph1 w1] by (cases ev) auto
next
  case (Reclaiming due s)
  then show ?thesis using assms grows_reclaim_step [of env _ _ s w ph1 w1] by (cases ev; cases due) auto
next
  case (Draining p n)
  then show ?thesis using assms by (cases ev) (auto split: if_splits)
qed (use assms in simp)

section \<open>The worker's invariant\<close>

text \<open>
  A running handler belongs to the task of its place in the join set: it has the task's id, the token that
  the claim wrote into the document, and the payload that the document carries.
\<close>

definition job_ok :: "(bson \<Rightarrow> 'i option) \<Rightarrow> string \<times> document \<Rightarrow> 'i job_status \<Rightarrow> bool" where
  "job_ok de x st \<longleftrightarrow>
     (case st of
        Handling job tok s \<Rightarrow>
          js_phase s = HandlerRunning \<and> wj_task_id job = fst x \<and> tok = claim_token_in (snd x) \<and>
          Option.bind (doc_get (snd x) ''task_input'') de = Some (wj_payload job)
      | _ \<Rightarrow> True)"

definition stray_ok :: "string \<times> string \<times> job_state \<Rightarrow> bool" where
  "stray_ok x \<longleftrightarrow> js_phase (snd (snd x)) \<noteq> HandlerRunning"

definition crew_ok :: "nat \<Rightarrow> (bson \<Rightarrow> 'i option) \<Rightarrow> 'i crew \<Rightarrow> bool" where
  "crew_ok m de c \<longleftrightarrow>
     loop_inv m (cw_loop c) \<and>
     (\<forall>(tid, d)\<in>set (started (cw_loop c)). tid = task_id_or_default d) \<and>
     list_all2 (job_ok de) (started (cw_loop c)) (cw_jobs c) \<and>
     list_all stray_ok (cw_strays c)"

lemma job_ok_simps [simp]: "job_ok de x Waiting" "job_ok de x (Returned r)"
  by (simp_all add: job_ok_def)

lemma list_all2_replicate: "(\<And>x. x \<in> set xs \<Longrightarrow> P x y) \<Longrightarrow> list_all2 P xs (replicate (length xs) y)"
  by (simp add: list_all2_conv_all_nth)

lemma list_all2_set_at:
  "list_all2 P xs ys \<Longrightarrow> k < length ys \<Longrightarrow> P (xs ! k) y \<Longrightarrow> list_all2 P xs (ys[k := y])"
  by (auto simp: list_all2_conv_all_nth nth_list_update)

lemma list_all2_drop_at:
  "list_all2 P xs ys \<Longrightarrow> list_all2 P (take k xs @ drop (Suc k) xs) (take k ys @ drop (Suc k) ys)"
  by (rule list_all2_appendI) simp_all

lemma adopt_ok:
  assumes ok: "crew_ok m de c" and inv: "loop_inv m ph"
    and g: "(\<exists>r. ph = Exited r) \<or> (\<forall>r. ph \<noteq> Exited r) \<and> grows (started (cw_loop c)) (started ph)"
  shows "crew_ok m de (adopt c ph)"
proof (cases "\<exists>r. ph = Exited r")
  case True
  have "list_all stray_ok (abort_job st)" for st :: "'a job_status"
    by (cases st) (simp_all add: abort_job_def stray_ok_def)
  then have "list_all stray_ok (concat (map abort_job (cw_jobs c)))"
    by (induction "cw_jobs c" rule: list.induct) (auto simp: list_all_iff)
  then show ?thesis using ok True by (auto simp: crew_ok_def adopt_def loop_inv_def)
next
  case False
  then obtain new where new: "started ph = started (cw_loop c) @ new" "\<forall>(tid, d)\<in>set new. tid = task_id_or_default d"
    using g by (auto simp: grows_def)
  have len: "length (cw_jobs c) = length (started (cw_loop c))"
    using ok unfolding crew_ok_def by (metis list_all2_lengthD)
  have "adopt c ph = c\<lparr>cw_loop := ph, cw_jobs := cw_jobs c @ replicate (length new) Waiting\<rparr>"
    using False new(1) len by (cases ph) (simp_all add: adopt_def)
  then show ?thesis
    using ok inv new
    by (auto simp: crew_ok_def intro!: list_all2_appendI list_all2_replicate)
qed

lemma started_ended:
  assumes "loop_step env (TaskEnds k) (ph, w) = Some (ph1, w1)"
  shows "k < length (started ph) \<and> started ph1 = take k (started ph) @ drop (Suc k) (started ph) \<and> w1 = w"
  using assms
  by (cases ph) (auto simp: loop_task_ended_def task_ended_def release_def registry_remove_def split: if_splits)

lemma go_on_ok:
  assumes ok: "crew_ok m de c" and k: "k < length (cw_jobs c)" and job: "cw_jobs c ! k = Handling job tok s"
  shows "crew_ok m de (go_on k job tok s1 c)"
proof -
  have len: "length (cw_jobs c) = length (started (cw_loop c))"
    using ok unfolding crew_ok_def by (metis list_all2_lengthD)
  have "job_ok de (started (cw_loop c) ! k) (Handling job tok s)"
    using ok k job len unfolding crew_ok_def by (metis list_all2_nthD2)
  then show ?thesis
    using ok k
    by (cases "js_phase s1")
       (auto simp: go_on_def crew_ok_def job_ok_def stray_ok_def intro!: list_all2_set_at)
qed

lemma begun_ok:
  assumes "begin_task srv de ot (snd x) wid T w = (r, w1)" and "fst x = task_id_or_default (snd x)"
  shows "job_ok de x (begun r)"
proof (cases r)
  case (Inr jr)
  obtain job tok lease where jr: "jr = (job, tok, lease)" using prod_cases3 by blast
  note b = begin_task_ok [OF assms(1) [unfolded Inr jr]]
  have "tok = claim_token_in (snd x)"
    using assms(1) unfolding Inr jr
    by (auto simp: begin_task_def Let_def split: option.splits prod.splits sum.splits if_splits)
  moreover have "js_phase (start_heartbeat_loop lease) = HandlerRunning"
    by (simp add: start_heartbeat_loop_def leave_loop_def job_start_def)
  ultimately show ?thesis using b assms(2) by (simp add: Inr jr begun_def job_ok_def task_id_or_default_def)
qed (simp add: begun_def)

context worker_server
begin

lemma crew_step_ok:
  assumes R: "guaranteed (le_worker_id env) rely R"
    and step: "crew_step env de ot ser ev (c, w) = Some (c1, w1)"
    and ok: "crew_ok m de c" and docs: "coll_ok (docs w)"
  shows "crew_ok m de c1 \<and> coll_ok (docs w1) \<and> R (docs w) (docs w1)"
proof -
  have inv: "loop_inv m (cw_loop c)" using ok by (simp add: crew_ok_def)
  have len: "length (cw_jobs c) = length (started (cw_loop c))"
    using ok unfolding crew_ok_def by (metis list_all2_lengthD)
  show ?thesis
  proof (cases ev)
    case (LoopEvent e)
    then obtain ph where l: "loop_step env e (cw_loop c, w) = Some (ph, w1)" "\<not> is_task_end e" "c1 = adopt c ph"
      using step by (auto split: if_splits)
    show ?thesis
      using adopt_ok [OF ok _ grows_step [OF l(1,2)]] step_inv [OF l(1) inv docs]
        moved_guaranteed [OF R docs step_moved [OF l(1)]] l(3) by simp
  next
    case (JobBegins k)
    then obtain r where k: "k < length (cw_jobs c)" and c1: "c1 = c\<lparr>cw_jobs := (cw_jobs c)[k := begun r]\<rparr>"
      and b: "begin_task (le_srv env) de ot (snd (started (cw_loop c) ! k)) (le_worker_id env)
        (le_switch_timeout env) w = (r, w1)"
      using step by (auto split: if_splits prod.splits)
    have "fst (started (cw_loop c) ! k) = task_id_or_default (snd (started (cw_loop c) ! k))"
      using ok k len nth_mem [of k "started (cw_loop c)"] by (fastforce simp: crew_ok_def)
    then have "crew_ok m de c1"
      using ok k begun_ok [OF b] unfolding c1 by (simp add: crew_ok_def list_all2_set_at)
    then show ?thesis using moves_guaranteed [OF R begin_moves [OF b] docs] by simp
  next
    case (JobGoesOn k e)
    then obtain job tok s s1 where k: "k < length (cw_jobs c)" "cw_jobs c ! k = Handling job tok s"
      and j: "job_step (le_srv env) ser (wj_task_id job) (le_worker_id env) tok e (s, w) = Some (s1, w1)"
      and c1: "c1 = go_on k job tok s1 c"
      using step by (auto split: if_splits job_status.splits)
    show ?thesis using go_on_ok [OF ok k, of s1] job_guaranteed [OF R docs j] c1 by simp
  next
    case (JobEnds k)
    then obtain ph where l: "loop_step env (TaskEnds k) (cw_loop c, w) = Some (ph, w1)"
      and c1: "c1 = c\<lparr>cw_loop := ph, cw_jobs := take k (cw_jobs c) @ drop (Suc k) (cw_jobs c)\<rparr>"
      using step by (auto simp del: loop_step.simps split: if_splits)
    note e = started_ended [OF l]
    have "crew_ok m de c1"
      using ok step_inv [OF l inv docs] e list_all2_drop_at [of "job_ok de" "started (cw_loop c)" "cw_jobs c" k]
      unfolding c1 by (auto simp: crew_ok_def dest!: in_set_takeD in_set_dropD)
    then show ?thesis using e docs kept_refl [OF R] by simp
  next
    case (StrayGoesOn k e)
    then obtain tid tok s s1 where k: "k < length (cw_strays c)" "cw_strays c ! k = (tid, tok, s)"
      and j: "job_step (le_srv env) ser tid (le_worker_id env) tok e (s, w) = Some (s1, w1)"
      and c1: "c1 = c\<lparr>cw_strays := (cw_strays c)[k := (tid, tok, s1)]\<rparr>"
      using step by (auto split: if_splits prod.splits)
    have "stray_ok (tid, tok, s)" using ok k nth_mem by (fastforce simp: crew_ok_def list_all_iff)
    then have "js_phase s1 \<noteq> HandlerRunning" using job_step_phase [OF j] by (auto simp: stray_ok_def split: if_splits)
    then have "crew_ok m de c1"
      using ok set_update_subset_insert [of "cw_strays c" k "(tid, tok, s1)"]
      by (auto simp: c1 crew_ok_def list_all_iff stray_ok_def)
    then show ?thesis using job_guaranteed [OF R docs j] by simp
  qed
qed

lemma crew_run_ok:
  assumes R: "guaranteed (le_worker_id env) rely R"
  shows "crew_run env de ot ser evs (c, w) = Some (c1, w1) \<Longrightarrow> crew_ok m de c \<Longrightarrow> coll_ok (docs w) \<Longrightarrow>
    crew_ok m de c1 \<and> coll_ok (docs w1) \<and> R (docs w) (docs w1)"
proof (induction evs arbitrary: c w)
  case Nil
  then show ?case using kept_refl [OF R] by simp
next
  case (Cons ev evs)
  obtain c2 w2 where s: "crew_step env de ot ser ev (c, w) = Some (c2, w2)"
    and r: "crew_run env de ot ser evs (c2, w2) = Some (c1, w1)"
    using Cons.prems(1) by (auto simp: bind_eq_Some_conv simp del: crew_step.simps)
  note st = crew_step_ok [OF R s Cons.prems(2,3)]
  show ?case using Cons.IH [OF r] st kept_trans [OF R] by blast
qed

lemma crew_start_ok:
  assumes R: "guaranteed (le_worker_id env) rely R" and start: "crew_start env m w = (c, w1)"
    and docs: "coll_ok (docs w)"
  shows "crew_ok m de c \<and> coll_ok (docs w1) \<and> R (docs w) (docs w1)"
proof -
  obtain ph where l: "worker_loop_start env m w = (ph, w1)"
    and c: "c = \<lparr>cw_loop = ph, cw_jobs = replicate (length (started ph)) Waiting, cw_strays = []\<rparr>"
    using start by (auto simp: crew_start_def split: prod.splits)
  have "\<forall>(tid, d)\<in>set (started ph). tid = task_id_or_default d"
    using grows_connect [OF l [unfolded worker_loop_start_def]] by (auto simp: pool_new_def)
  then have "crew_ok m de c"
    using start_inv [OF l docs] by (auto simp: c crew_ok_def intro!: list_all2_replicate)
  then show ?thesis
    using start_inv [OF l docs] moved_guaranteed [OF R docs connect_moved [OF l [unfolded worker_loop_start_def]]] by blast
qed

end

section \<open>Shutdown\<close>

text \<open>Heartbeats may go on for ever; all other events of a worker that shuts down are numbered.\<close>

fun progresses :: "'o crew_event \<Rightarrow> bool" where
  "progresses (JobGoesOn k ev) \<longleftrightarrow> ends_task ev"
| "progresses (StrayGoesOn k ev) \<longleftrightarrow> False"
| "progresses ev \<longleftrightarrow> True"

fun job_left :: "'i job_status \<Rightarrow> nat" where
  "job_left Waiting = 4"
| "job_left (Handling job tok s) = 3"
| "job_left (Returned r) = 2"

definition crew_left :: "'i crew \<Rightarrow> nat" where
  "crew_left c =
     (case cw_loop c of
        Draining p n \<Rightarrow> sum_list (map job_left (cw_jobs c)) + n + 1
      | _ \<Rightarrow> 0)"

definition shutting_down :: "'i crew \<Rightarrow> bool" where
  "shutting_down c \<longleftrightarrow> (\<exists>p n. cw_loop c = Draining p n) \<or> cw_loop c = Exited (Inr ())"

lemma job_left_set:
  "k < length js \<Longrightarrow> sum_list (map job_left (js[k := st])) + job_left (js ! k) = sum_list (map job_left js) + job_left st"
  by (induction js arbitrary: k) (auto split: nat.split simp: nth_Cons less_Suc_eq_0_disj)

lemma job_left_drop:
  "k < length js \<Longrightarrow>
    sum_list (map job_left (take k js @ drop (Suc k) js)) + job_left (js ! k) = sum_list (map job_left js)"
  using arg_cong [OF id_take_nth_drop [of k js], of "\<lambda>js. sum_list (map job_left js)"] by simp

lemma shutdown_step:
  assumes step: "crew_step env de ot ser ev (c, w) = Some (c1, w1)" and ok: "crew_ok m de c" and "shutting_down c"
  shows "shutting_down c1 \<and> crew_left c1 + (if progresses ev then 1 else 0) \<le> crew_left c \<and>
    length (cw_jobs c1) \<le> length (cw_jobs c)"
proof (cases "cw_loop c")
  case (Exited r)
  then have "cw_jobs c = []" using ok by (simp add: crew_ok_def)
  then show ?thesis
    using step assms(3) Exited by (cases ev) (auto simp: shutting_down_def crew_left_def split: if_splits prod.splits)
next
  case (Draining p n)
  have len: "length (cw_jobs c) = length (join_set p)"
    using ok Draining unfolding crew_ok_def by (metis list_all2_lengthD started.simps(4))
  show ?thesis
  proof (cases ev)
    case (LoopEvent e)
    then show ?thesis
      using step Draining len
      by (cases e) (auto simp: adopt_def shutting_down_def crew_left_def split: if_splits)
  next
    case (JobBegins k)
    then obtain r where k: "k < length (cw_jobs c)" "cw_jobs c ! k = Waiting"
      and c1: "c1 = c\<lparr>cw_jobs := (cw_jobs c)[k := begun r]\<rparr>"
      using step by (auto split: if_splits prod.splits)
    have "job_left (begun r) \<le> 3" by (auto simp: begun_def split: sum.split prod.split)
    then show ?thesis
      using job_left_set [OF k(1), of "begun r"] Draining JobBegins k(2) by (simp add: c1 shutting_down_def crew_left_def)
  next
    case (JobGoesOn k e)
    then obtain job tok s s1 where k: "k < length (cw_jobs c)" "cw_jobs c ! k = Handling job tok s"
      and j: "job_step (le_srv env) ser (wj_task_id job) (le_worker_id env) tok e (s, w) = Some (s1, w1)"
      and c1: "c1 = go_on k job tok s1 c"
      using step by (auto split: if_splits job_status.splits)
    show ?thesis
    proof (cases "js_phase s1")
      case HandlerRunning
      then show ?thesis
        using job_left_set [OF k(1), of "Handling job tok s1"] Draining JobGoesOn k(2) job_step_phase [OF j]
        by (auto simp: c1 go_on_def shutting_down_def crew_left_def split: if_splits)
    next
      case (Finished r)
      then show ?thesis
        using job_left_set [OF k(1), of "Returned r"] Draining JobGoesOn k(2)
        by (auto simp: c1 go_on_def shutting_down_def crew_left_def)
    qed
  next
    case (JobEnds k)
    then obtain ph r where l: "loop_step env (TaskEnds k) (cw_loop c, w) = Some (ph, w1)"
      and k: "k < length (cw_jobs c)" "cw_jobs c ! k = Returned r"
      and c1: "c1 = c\<lparr>cw_loop := ph, cw_jobs := take k (cw_jobs c) @ drop (Suc k) (cw_jobs c)\<rparr>"
      using step by (auto simp del: loop_step.simps split: if_splits)
    then show ?thesis
      using job_left_drop [OF k(1)] Draining JobEnds k(2)
      by (auto simp: c1 shutting_down_def crew_left_def split: if_splits)
  next
    case (StrayGoesOn k e)
    then show ?thesis
      using step Draining by (auto simp: shutting_down_def crew_left_def split: if_splits prod.splits)
  qed
qed (use assms(3) in \<open>simp_all add: shutting_down_def\<close>)

text \<open>An event that is due during the shutdown; a handler that still runs returns \<open>hr\<close>.\<close>

definition due_event :: "request_error + 'o \<Rightarrow> 'i crew \<Rightarrow> 'o crew_event" where
  "due_event hr c =
     (case cw_jobs c of
        Waiting # rest \<Rightarrow> JobBegins 0
      | Handling job tok s # rest \<Rightarrow> JobGoesOn 0 (HandlerReturns hr)
      | Returned r # rest \<Rightarrow> JobEnds 0
      | [] \<Rightarrow> (case cw_loop c of Draining p (Suc n) \<Rightarrow> LoopEvent TaskJoined | _ \<Rightarrow> LoopEvent JoinSetEmpty))"

lemma shutdown_progress:
  assumes "crew_ok m de c" and "shutting_down c"
  shows "cw_loop c = Exited (Inr ()) \<and> cw_jobs c = [] \<or>
    cw_loop c \<noteq> Exited (Inr ()) \<and> progresses (due_event hr c) \<and>
    crew_step env de ot ser (due_event hr c) (c, w) \<noteq> None"
proof (cases "cw_loop c")
  case (Draining p n)
  have len: "length (cw_jobs c) = length (join_set p)"
    using assms(1) Draining unfolding crew_ok_def by (metis list_all2_lengthD started.simps(4))
  have "progresses (due_event hr c) \<and> crew_step env de ot ser (due_event hr c) (c, w) \<noteq> None"
  proof (cases "cw_jobs c")
    case Nil
    then show ?thesis using Draining len by (cases n) (simp_all add: due_event_def)
  next
    case (Cons st rest)
    show ?thesis
    proof (cases st)
      case Waiting
      then show ?thesis using Cons by (simp add: due_event_def split: prod.split)
    next
      case (Handling job tok s)
      then have "js_phase s = HandlerRunning"
        using assms(1) Cons by (auto simp: crew_ok_def job_ok_def list_all2_Cons2)
      then show ?thesis using Cons Handling by (simp add: due_event_def job_step_def split: prod.split)
    next
      case (Returned r)
      then show ?thesis using Cons Draining len by (auto simp: due_event_def)
    qed
  qed
  then show ?thesis using Draining by simp
next
  case (Exited r)
  then show ?thesis using assms by (simp add: shutting_down_def crew_ok_def)
qed (use assms in \<open>simp_all add: shutting_down_def\<close>)

context worker_server
begin

lemma guaranteed_True: "guaranteed wid rely (\<lambda>D D'. True)"
  by (simp add: kept_by_def)

lemma shutdown_run:
  "crew_run env de ot ser evs (c, w) = Some (c1, w1) \<Longrightarrow> crew_ok m de c \<Longrightarrow> coll_ok (docs w) \<Longrightarrow> shutting_down c \<Longrightarrow>
    shutting_down c1 \<and> crew_ok m de c1 \<and> length (filter progresses evs) + crew_left c1 \<le> crew_left c \<and>
    length (cw_jobs c1) \<le> length (cw_jobs c)"
proof (induction evs arbitrary: c w)
  case (Cons ev evs)
  obtain c2 w2 where s: "crew_step env de ot ser ev (c, w) = Some (c2, w2)"
    and r: "crew_run env de ot ser evs (c2, w2) = Some (c1, w1)"
    using Cons.prems(1) by (auto simp: bind_eq_Some_conv simp del: crew_step.simps)
  note st = crew_step_ok [OF guaranteed_True s Cons.prems(2,3)] and sd = shutdown_step [OF s Cons.prems(2,4)]
  show ?case using Cons.IH [OF r] st sd by (auto split: if_splits)
qed simp

end

section \<open>Properties\<close>

text \<open>
  C20: a worker and its jobs fit together. From its start and after any events of the loop, of the jobs and of
  their heartbeat loops, in any order, at most \<open>max_inflight\<close> tasks are started, all of different task ids;
  there is one job for each; a running handler works for the task of its place, under the claim token that
  the claimed document carries and on this document's payload; and no handler runs that is not one of these
  jobs.
\<close>

theorem crew_stays_consistent:
  assumes server: "worker_server qmatch agg upd ins env docs rely le uniq" and ok: "coll_ok (docs w)"
    and start: "crew_start env m w = (c0, w0)"
    and run: "crew_run env de ot ser evs (c0, w0) = Some (c, w1)"
  shows "loop_inv m (cw_loop c) \<and> length (cw_jobs c) \<le> m \<and> distinct (map fst (started (cw_loop c))) \<and>
    length (cw_jobs c) = length (started (cw_loop c)) \<and>
    (\<forall>k<length (cw_jobs c). \<forall>job tok s. cw_jobs c ! k = Handling job tok s \<longrightarrow>
       wj_task_id job = fst (started (cw_loop c) ! k) \<and> tok = claim_token_in (snd (started (cw_loop c) ! k)) \<and>
       Option.bind (doc_get (snd (started (cw_loop c) ! k)) ''task_input'') de = Some (wj_payload job)) \<and>
    (\<forall>(tid, tok, s)\<in>set (cw_strays c). js_phase s \<noteq> HandlerRunning) \<and> coll_ok (docs w1)"
proof -
  note R = worker_server.guaranteed_True [OF server]
  note s = worker_server.crew_start_ok [OF server R start ok, where de = de]
  have c: "crew_ok m de c" "coll_ok (docs w1)"
    using worker_server.crew_run_ok [OF server R run] s by blast+
  have jobs: "list_all2 (job_ok de) (started (cw_loop c)) (cw_jobs c)" and inv: "loop_inv m (cw_loop c)"
    and strays: "list_all stray_ok (cw_strays c)"
    using c(1) by (simp_all add: crew_ok_def)
  have len: "length (cw_jobs c) = length (started (cw_loop c))" using list_all2_lengthD [OF jobs] by simp
  have "length (started (cw_loop c)) \<le> m \<and> distinct (map fst (started (cw_loop c)))"
    using inv by (cases "cw_loop c") (auto simp: loop_inv_def pool_inv_def)
  moreover have "wj_task_id job = fst (started (cw_loop c) ! k) \<and> tok = claim_token_in (snd (started (cw_loop c) ! k)) \<and>
      Option.bind (doc_get (snd (started (cw_loop c) ! k)) ''task_input'') de = Some (wj_payload job)"
    if "k < length (cw_jobs c)" and "cw_jobs c ! k = Handling job tok s" for k job tok s
    using list_all2_nthD2 [OF jobs that(1)] that(2) by (simp add: job_ok_def)
  moreover have "\<forall>(tid, tok, s)\<in>set (cw_strays c). js_phase s \<noteq> HandlerRunning"
    using strays by (auto simp: list_all_iff stray_ok_def)
  ultimately show ?thesis using inv len c(2) by simp
qed

lemma demo_pump:
  "\<exists>d w1 tok lease w2 d2 w3.
     (\<forall>t. claim_round ref_server sorted_list_of_fset ''w1'' (from_secs 10) Ready None (pool_new 1) t (demo_world 5000) =
      (True, \<lparr>in_flight = {|''a''|}, permits = 0, join_set = [(''a'', d)]\<rparr>,
        schedule_expiration_from_task d (from_secs 10) t, w1)) \<and>
     begin_task ref_server Some demo_otel d ''w1'' (from_secs 10) w1 =
       (Inr (\<lparr>wj_task_id = ''a'', wj_trace_context = None, wj_payload = BInt32 7\<rparr>, tok, lease), w2) \<and>
     ref_docs w2 (ObjectId 1) = Some d2 \<and> task_id_of d2 = Some ''a'' \<and>
     finish_task ref_server Some ''a'' ''w1'' tok (Inr (BInt32 9)) w2 = (Inr (), w3)"
  by (simp add: demo_defs finish_task_def claim_round_def pool_new_def try_acquire_def spawn_claimed_task_def
      registry_snapshot_def registry_insert_def task_id_or_default_def task_id_of_def
      claim_next_task_def ready_filters_def claim_with_filter_def claim_update_def
      begin_task_def setup_task_def claim_token_in_def held_filter_def heartbeat_def Let_def ref_eval)

text \<open>
  The demonstration worker, which may run one task, starts the one that the first round of its pump claims; the
  next round finds no permit.
\<close>

definition demo_begins :: "'o crew_event list" where
  "demo_begins = [LoopEvent NextRound, JobBegins 0, LoopEvent NextRound]"

lemma demo_crew_start:
  assumes scans: "\<And>t. \<exists>t1. refresh_running_expirations ref_server (from_secs 10) t w = (t1, w)"
      "\<And>t. \<exists>t1. refresh_pending_tasks ref_server t w = (t1, w)"
    and pump: "\<And>t. claim_round ref_server sorted_list_of_fset ''w1'' (from_secs 10) Ready None (pool_new 1) t w =
      (True, \<lparr>in_flight = {|tid|}, permits = 0, join_set = [(tid, d)]\<rparr>, schedule_expiration_from_task d (from_secs 10) t, w1)"
    and start: "begin_task ref_server de demo_otel d ''w1'' (from_secs 10) w1 = (Inr (job, tok, lease), w2)"
  shows "\<exists>c0 c p s. crew_start demo_env 1 w = (c0, w) \<and>
    crew_run demo_env de demo_otel ser demo_begins (c0, w) = Some (c, w2) \<and>
    cw_loop c = Looping p \<and> lp_stream p \<and> js_phase s = HandlerRunning \<and> cw_jobs c = [Handling job tok s]"
proof -
  obtain t t1 where t: "refresh_running_expirations ref_server (from_secs 10) tracker_new w = (t, w)"
    "refresh_pending_tasks ref_server t w = (t1, w)"
    using scans by metis
  let ?p = "\<lparr>in_flight = {|tid|}, permits = 0, join_set = [(tid, d)]\<rparr>"
  let ?idle = "\<lparr>lp_pool = pool_new 1, lp_tracker = t1, lp_stream = True, lp_ended = 0\<rparr>"
  let ?s = "\<lparr>lp_pool = ?p, lp_tracker = schedule_expiration_from_task d (from_secs 10) t1, lp_stream = True, lp_ended = 0\<rparr>"
  let ?c = "\<lambda>ph js. \<lparr>cw_loop = ph, cw_jobs = js, cw_strays = []\<rparr>" and ?job = "Handling job tok (start_heartbeat_loop lease)"
  have "crew_start demo_env 1 w = (?c (Claiming Ready ?idle) [], w)"
    by (simp add: crew_start_def worker_loop_start_def connect_stream_def open_change_stream_def resync_def
        demo_env_sel t pool_new_def)
  moreover have "crew_step demo_env de demo_otel ser (LoopEvent NextRound) (?c (Claiming Ready ?idle) [], w) =
      Some (?c (Claiming Ready ?s) [Waiting], w1)"
    by (simp add: claim_step_def demo_env_sel pump [simplified] adopt_def)
  moreover have "crew_step demo_env de demo_otel ser (JobBegins 0) (?c (Claiming Ready ?s) [Waiting], w1) =
      Some (?c (Claiming Ready ?s) [?job], w2)"
    using start by (simp add: demo_env_sel begun_def)
  moreover have "crew_step demo_env de demo_otel ser (LoopEvent NextRound) (?c (Claiming Ready ?s) [?job], w2) =
      Some (?c (Looping ?s) [?job], w2)"
    by (simp add: claim_step_def claim_round_def try_acquire_def adopt_def)
  ultimately have "crew_start demo_env 1 w = (?c (Claiming Ready ?idle) [], w)"
    "crew_run demo_env de demo_otel ser demo_begins (?c (Claiming Ready ?idle) [], w) = Some (?c (Looping ?s) [?job], w2)"
    by (simp_all add: demo_begins_def del: crew_step.simps)
  moreover have "lp_stream ?s" "js_phase (start_heartbeat_loop lease) = HandlerRunning"
    by (simp_all add: start_heartbeat_loop_def leave_loop_def job_start_def)
  ultimately show ?thesis by - (intro exI conjI, (assumption | rule crew.select_convs)+)
qed

text \<open>It starts the task \<open>a\<close> of the sample collection.\<close>

lemma demo_crew:
  "\<exists>c0 w0 c w tok s p d w3. crew_start demo_env 1 (demo_world 5000) = (c0, w0) \<and>
     crew_run demo_env Some demo_otel Some demo_begins (c0, w0) = Some (c, w) \<and>
     ref_docs w (ObjectId 1) = Some d \<and> task_id_of d = Some ''a'' \<and>
     finish_task ref_server Some ''a'' ''w1'' tok (Inr (BInt32 9)) w = (Inr (), w3) \<and>
     cw_loop c = Looping p \<and> lp_stream p \<and> js_phase s = HandlerRunning \<and>
     cw_jobs c = [Handling \<lparr>wj_task_id = ''a'', wj_trace_context = None, wj_payload = BInt32 7\<rparr> tok s]"
proof -
  let ?w = "demo_world 5000"
  obtain d w1 tok lease w2 d2 w3 where pump: "\<And>t. claim_round ref_server sorted_list_of_fset ''w1'' (from_secs 10)
      Ready None (pool_new 1) t ?w =
      (True, \<lparr>in_flight = {|''a''|}, permits = 0, join_set = [(''a'', d)]\<rparr>,
        schedule_expiration_from_task d (from_secs 10) t, w1)"
    and begin1: "begin_task ref_server Some demo_otel d ''w1'' (from_secs 10) w1 =
      (Inr (\<lparr>wj_task_id = ''a'', wj_trace_context = None, wj_payload = BInt32 7\<rparr>, tok, lease), w2)"
    and d2: "ref_docs w2 (ObjectId 1) = Some d2" "task_id_of d2 = Some ''a''"
    and finish: "finish_task ref_server Some ''a'' ''w1'' tok (Inr (BInt32 9)) w2 = (Inr (), w3)"
    using demo_pump by blast
  have scans: "\<exists>t1. refresh_running_expirations ref_server (from_secs 10) t ?w = (t1, ?w)"
    "\<exists>t1. refresh_pending_tasks ref_server t ?w = (t1, ?w)" for t
    by (simp_all add: demo_defs refresh_running_expirations_def refresh_pending_tasks_def ref_eval)
  show ?thesis using demo_crew_start [OF scans pump begin1, where ser = Some] d2 finish by (fastforce simp del: crew_step.simps)
qed

theorem crew_stays_consistent_witness:
  "\<exists>c0 w0 c w tok s. crew_start demo_env 1 (demo_world 5000) = (c0, w0) \<and>
     crew_run demo_env Some demo_otel Some demo_begins (c0, w0) = Some (c, w) \<and>
     cw_jobs c = [Handling \<lparr>wj_task_id = ''a'', wj_trace_context = None, wj_payload = BInt32 7\<rparr> tok s] \<and>
     map fst (started (cw_loop c)) = [''a'']"
proof -
  obtain c0 w0 c w tok s where start: "crew_start demo_env 1 (demo_world 5000) = (c0, w0)"
    and run: "crew_run demo_env Some demo_otel Some demo_begins (c0, w0) = Some (c, w)"
    and jobs: "cw_jobs c = [Handling \<lparr>wj_task_id = ''a'', wj_trace_context = None, wj_payload = BInt32 7\<rparr> tok s]"
    using demo_crew by blast
  note fact = crew_stays_consistent [OF demo_worker.worker_server_axioms demo_ok start run]
  have "length (started (cw_loop c)) = 1" using fact jobs by simp
  moreover have "fst (started (cw_loop c) ! 0) = ''a''" using fact jobs by simp
  ultimately have "map fst (started (cw_loop c)) = [''a'']" by (cases "started (cw_loop c)") auto
  then show ?thesis using start run jobs by - (intro exI conjI)
qed

text \<open>
  What a worker does to the collection, in all its claims, setups, heartbeats and completions, is a run of
  the protocol in which every step is a claim, a heartbeat or a completion under its own worker id, or a step
  of the other clients.
\<close>

theorem crew_acts_as_itself:
  assumes server: "worker_server qmatch agg upd ins env docs rely le uniq" and ok: "coll_ok (docs w)"
    and others: "\<And>D D'. rely D D' \<Longrightarrow> follows others D D'"
    and start: "crew_start env m w = (c0, w0)"
    and run: "crew_run env de ot ser evs (c0, w0) = Some (c, w1)"
  shows "follows (\<lambda>a. by_worker (le_worker_id env) a \<or> others a) (docs w) (docs w1)"
proof -
  let ?P = "\<lambda>a. by_worker (le_worker_id env) a \<or> others a"
  have R: "guaranteed (le_worker_id env) rely (follows ?P)"
  proof (rule guaranteed_follows)
    show "follows ?P D D'" if "rely D D'" for D D'
      using others [OF that] by (auto simp: follows_def list_all_iff)
  qed simp
  note s = worker_server.crew_start_ok [OF server R start ok, where de = de]
  have "follows ?P (docs w0) (docs w1)" using worker_server.crew_run_ok [OF server R run] s by blast
  then show ?thesis using s follows_trans by blast
qed

theorem crew_acts_as_itself_witness:
  "\<exists>c0 w0 c w. crew_start demo_env 1 (demo_world 5000) = (c0, w0) \<and>
     crew_run demo_env Some demo_otel Some demo_begins (c0, w0) = Some (c, w) \<and>
     follows (\<lambda>a. by_worker ''w1'' a \<or> False) (ref_docs (demo_world 5000)) (ref_docs w)"
proof -
  obtain c0 w0 c w where start: "crew_start demo_env 1 (demo_world 5000) = (c0, w0)"
    and run: "crew_run demo_env Some demo_otel Some demo_begins (c0, w0) = Some (c, w)"
    using demo_crew by blast
  have "follows (\<lambda>a. False) D D'" if "D = D'" for D D' using that follows_refl by simp
  from crew_acts_as_itself [OF demo_worker.worker_server_axioms demo_ok this start run, unfolded demo_env_sel]
  show ?thesis using start run by blast
qed

lemma go_on_loop [simp]: "cw_loop (go_on k job tok s c) = cw_loop c"
  by (simp add: go_on_def split: phase.split)

lemma shutdown_shrinks:
  assumes "crew_step env de ot ser ev (c, w) = Some (c1, w1)" and "shutting_down c"
  shows "set (started (cw_loop c1)) \<subseteq> set (started (cw_loop c))"
proof (cases ev)
  case (LoopEvent e)
  then show ?thesis
    using assms by (cases e) (auto simp: shutting_down_def adopt_def split: if_splits)
next
  case (JobEnds k)
  then show ?thesis
    using assms(1) started_ended
    by (fastforce simp del: loop_step.simps split: if_splits dest!: in_set_takeD in_set_dropD)
next
  case (JobGoesOn k e)
  then show ?thesis using assms JobGoesOn by (auto split: if_splits job_status.splits)
qed (use assms in \<open>auto split: if_splits prod.splits\<close>)

lemma crew_left_bound: "crew_left c \<le> (case cw_loop c of Draining p n \<Rightarrow> 4 * length (cw_jobs c) + n + 1 | _ \<Rightarrow> 0)"
proof -
  have "sum_list (map job_left js) \<le> 4 * length js" for js :: "'a job_status list"
  proof (induction js)
    case (Cons st js)
    then show ?case by (cases st) simp_all
  qed simp
  then show ?thesis by (simp add: crew_left_def split: loop_phase.split)
qed

context worker_server
begin

lemma shutdown_shrinks_run:
  "crew_run env de ot ser evs (c, w) = Some (c1, w1) \<Longrightarrow> crew_ok m de c \<Longrightarrow> coll_ok (docs w) \<Longrightarrow> shutting_down c \<Longrightarrow>
    set (started (cw_loop c1)) \<subseteq> set (started (cw_loop c))"
proof (induction evs arbitrary: c w)
  case (Cons ev evs)
  obtain c2 w2 where s: "crew_step env de ot ser ev (c, w) = Some (c2, w2)"
    and r: "crew_run env de ot ser evs (c2, w2) = Some (c1, w1)"
    using Cons.prems(1) by (auto simp: bind_eq_Some_conv simp del: crew_step.simps)
  show ?case
    using Cons.IH [OF r] crew_step_ok [OF guaranteed_True s Cons.prems(2,3)] shutdown_step [OF s Cons.prems(2,4)]
      shutdown_shrinks [OF s Cons.prems(4)] by blast
qed simp

end

text \<open>
  C22: a worker that is asked to stop, stops. Once the loop has taken the stop signal no task is claimed; the
  events of the loop and of the jobs, except heartbeats, that can still happen are bounded by a number known at
  the signal (four for each started task, one for each ended one and the last); as long as the loop has not
  returned with success one of them can happen, whatever the handlers return; and when it has returned no job
  is left. Nothing else is done to the tasks that run: the documentation says that they are marked as failed
  for the shutdown, but the code waits for their handlers, whose results are recorded as usual.
\<close>

theorem worker_shuts_down:
  assumes server: "worker_server qmatch agg upd ins env docs rely le uniq" and ok: "coll_ok (docs w)"
    and start: "crew_start env m w = (c0, w0)"
    and before: "crew_run env de ot ser evs0 (c0, w0) = Some (c1, w1)"
    and looping: "cw_loop c1 = Looping s"
    and stop: "crew_step env de ot ser (LoopEvent StopSignal) (c1, w1) = Some (c2, w2)"
    and after: "crew_run env de ot ser evs (c2, w2) = Some (c3, w3)"
  shows "length (filter progresses evs) \<le> 4 * length (cw_jobs c1) + lp_ended s + 1 \<and>
    set (started (cw_loop c3)) \<subseteq> set (started (cw_loop c1)) \<and>
    (cw_loop c3 = Exited (Inr ()) \<and> cw_jobs c3 = [] \<or>
     cw_loop c3 \<noteq> Exited (Inr ()) \<and> progresses (due_event hr c3) \<and>
     crew_step env de ot ser (due_event hr c3) (c3, w3) \<noteq> None)"
proof -
  note R = worker_server.guaranteed_True [OF server]
  have c1: "crew_ok m de c1" "coll_ok (docs w1)"
    using worker_server.crew_run_ok [OF server R before] worker_server.crew_start_ok [OF server R start ok] by blast+
  have c2: "crew_ok m de c2" "coll_ok (docs w2)"
    using worker_server.crew_step_ok [OF server R stop c1] by blast+
  have draining: "cw_loop c2 = Draining (lp_pool s) (lp_ended s)" and jobs: "length (cw_jobs c2) = length (cw_jobs c1)"
    using stop looping c1(1) by (auto simp: adopt_def crew_ok_def dest: list_all2_lengthD split: if_splits)
  then have down: "shutting_down c2" by (simp add: shutting_down_def)
  note sd = worker_server.shutdown_run [OF server after c2 down]
  have "length (filter progresses evs) \<le> 4 * length (cw_jobs c1) + lp_ended s + 1"
    using sd crew_left_bound [of c2] draining jobs by simp
  moreover have "set (started (cw_loop c3)) \<subseteq> set (started (cw_loop c1))"
    using worker_server.shutdown_shrinks_run [OF server after c2 down] draining looping by simp
  moreover have "crew_ok m de c3" "shutting_down c3" using sd by blast+
  then have "cw_loop c3 = Exited (Inr ()) \<and> cw_jobs c3 = [] \<or>
      cw_loop c3 \<noteq> Exited (Inr ()) \<and> progresses (due_event hr c3) \<and>
      crew_step env de ot ser (due_event hr c3) (c3, w3) \<noteq> None"
    by (rule shutdown_progress)
  ultimately show ?thesis by blast
qed

theorem worker_shuts_down_witness:
  "\<exists>c0 w0 c1 w1 c2 w2 c3 w3. crew_start demo_env 1 (demo_world 5000) = (c0, w0) \<and>
     crew_run demo_env Some demo_otel Some demo_begins (c0, w0) = Some (c1, w1) \<and> length (cw_jobs c1) = 1 \<and>
     crew_step demo_env Some demo_otel Some (LoopEvent StopSignal) (c1, w1) = Some (c2, w2) \<and>
     crew_run demo_env Some demo_otel Some [JobGoesOn 0 (HandlerReturns (Inr (BInt32 9)))] (c2, w2) = Some (c3, w3) \<and>
     crew_step demo_env Some demo_otel Some (due_event (Inl WorkerGone) c3) (c3, w3) \<noteq> None"
proof -
  let ?step = "crew_step demo_env Some demo_otel Some" and ?run = "crew_run demo_env Some demo_otel Some"
  let ?ret = "JobGoesOn 0 (HandlerReturns (Inr (BInt32 9)))"
  obtain c0 w0 c1 w1 tok s p where start: "crew_start demo_env 1 (demo_world 5000) = (c0, w0)"
    and before: "?run demo_begins (c0, w0) = Some (c1, w1)"
    and looping: "cw_loop c1 = Looping p" "lp_stream p" and running: "js_phase s = HandlerRunning"
    and jobs: "cw_jobs c1 = [Handling \<lparr>wj_task_id = ''a'', wj_trace_context = None, wj_payload = BInt32 7\<rparr> tok s]"
    using demo_crew by blast
  obtain c2 where stop: "?step (LoopEvent StopSignal) (c1, w1) = Some (c2, w1)" and
    c2: "c2 = adopt c1 (Draining (lp_pool p) (lp_ended p))"
    using looping by simp
  have jobs2: "\<exists>rest. cw_jobs c2 = Handling \<lparr>wj_task_id = ''a'', wj_trace_context = None, wj_payload = BInt32 7\<rparr> tok s # rest"
    by (simp add: c2 adopt_def jobs)
  then have "?run [?ret] (c2, w1) \<noteq> None"
    using running by (auto simp: job_step_def split: prod.splits)
  then obtain c3 w3 where after: "?run [?ret] (c2, w1) = Some (c3, w3)" by force
  have "cw_loop c2 = Draining (lp_pool p) (lp_ended p)" by (simp add: c2 adopt_def)
  then have loop3: "cw_loop c3 = Draining (lp_pool p) (lp_ended p)"
    using after jobs2 running by (auto simp: job_step_def split: prod.splits)
  have "?step (due_event (Inl WorkerGone) c3) (c3, w3) \<noteq> None"
    using worker_shuts_down [where hr = "Inl WorkerGone", OF demo_worker.worker_server_axioms demo_ok start before looping(1) stop after]
      loop_phase.distinct loop3 by (metis (no_types, lifting))
  moreover have "length (cw_jobs c1) = 1" by (simp add: jobs)
  ultimately show ?thesis using start before stop after by - (intro exI conjI, assumption+)
qed

end
