(* ===== verification/Fleet.thy ===== *)
theory Fleet
  imports Crew
begin

text \<open>
  Many workers and callers on one collection. Workers join at any time, each a \<open>crew\<close> with a configuration
  of its own, and may die at any point without a trace; callers enqueue and look. A step is one event of one
  of them.
\<close>

section \<open>State and steps\<close>

record ('w, 'i) member =
  mb_env :: "'w loop_env"
  mb_max :: nat
  mb_crew :: "'i crew"

abbreviation mb_id :: "('w, 'i) member \<Rightarrow> string" where
  "mb_id mb \<equiv> le_worker_id (mb_env mb)"

datatype ('w, 'o) fleet_event =
    Joins "'w loop_env" nat
  | Member nat "'o crew_event"
  | Dies nat
  | Calls "'o call"

fun caller_call :: "'o call \<Rightarrow> bool" where
  "caller_call (Enqueue b) = True"
| "caller_call (Inspect tid) = True"
| "caller_call _ = False"

fun fleet_step ::
  "'w server \<Rightarrow> (bson \<Rightarrow> 'i option) \<Rightarrow> ('t, 's, 'st) otel \<Rightarrow> ('o \<Rightarrow> bson option) \<Rightarrow> ('w, 'o) fleet_event \<Rightarrow>
   ('w, 'i) member list \<times> 'w \<Rightarrow> (('w, 'i) member list \<times> 'w) option" where
  "fleet_step srv de ot ser (Joins env m) (ms, w) =
     (let (c, w1) = crew_start env m w in Some (ms @ [\<lparr>mb_env = env, mb_max = m, mb_crew = c\<rparr>], w1))"
| "fleet_step srv de ot ser (Member k ev) (ms, w) =
     (if k < length ms
      then map_option (\<lambda>(c, w1). (ms[k := (ms ! k)\<lparr>mb_crew := c\<rparr>], w1))
             (crew_step (mb_env (ms ! k)) de ot ser ev (mb_crew (ms ! k), w))
      else None)"
| "fleet_step srv de ot ser (Dies k) (ms, w) =
     (if k < length ms then Some (take k ms @ drop (Suc k) ms, w) else None)"
| "fleet_step srv de ot ser (Calls c) (ms, w) =
     (if caller_call c then Some (ms, exec_call srv ser c w) else None)"

fun fleet_run ::
  "'w server \<Rightarrow> (bson \<Rightarrow> 'i option) \<Rightarrow> ('t, 's, 'st) otel \<Rightarrow> ('o \<Rightarrow> bson option) \<Rightarrow> ('w, 'o) fleet_event list \<Rightarrow>
   ('w, 'i) member list \<times> 'w \<Rightarrow> (('w, 'i) member list \<times> 'w) option" where
  "fleet_run srv de ot ser [] mw = Some mw"
| "fleet_run srv de ot ser (ev # evs) mw =
     Option.bind (fleet_step srv de ot ser ev mw) (fleet_run srv de ot ser evs)"

text \<open>The workers that join in a run.\<close>

fun joined :: "('w, 'o) fleet_event list \<Rightarrow> 'w loop_env list" where
  "joined [] = []"
| "joined (Joins env m # evs) = env # joined evs"
| "joined (ev # evs) = joined evs"

lemma fleet_run_Cons:
  assumes "fleet_run srv de ot ser (ev # evs) (ms, w) = Some (ms1, w1)"
  obtains ms2 w2 where "fleet_step srv de ot ser ev (ms, w) = Some (ms2, w2)"
    "fleet_run srv de ot ser evs (ms2, w2) = Some (ms1, w1)"
  using assms by (auto simp: bind_eq_Some_conv simp del: fleet_step.simps)

lemma fleet_run_append:
  "fleet_run srv de ot ser (as @ bs) mw =
    Option.bind (fleet_run srv de ot ser as mw) (fleet_run srv de ot ser bs)"
  by (induction as arbitrary: mw) (auto intro!: arg_cong2 [where f = Option.bind])

lemma joined_append: "joined (as @ bs) = joined as @ joined bs"
  by (induction as rule: joined.induct) simp_all

section \<open>The fleet's invariant\<close>

text \<open>A running handler, at its place.\<close>

definition runs_handler ::
  "('w, 'i) member list \<Rightarrow> nat \<Rightarrow> nat \<Rightarrow> 'i worker_job \<Rightarrow> string \<Rightarrow> job_state \<Rightarrow> bool" where
  "runs_handler ms k j job tok s \<longleftrightarrow>
     k < length ms \<and> j < length (cw_jobs (mb_crew (ms ! k))) \<and> cw_jobs (mb_crew (ms ! k)) ! j = Handling job tok s"

text \<open>Its claim holds a document of its task.\<close>

definition effective :: "('w, 'i) member list \<Rightarrow> nat \<Rightarrow> 'i worker_job \<Rightarrow> string \<Rightarrow> collection \<Rightarrow> bool" where
  "effective ms k job tok D \<longleftrightarrow> held_task (wj_task_id job) (mb_id (ms ! k)) tok D"

definition by_caller :: "action \<Rightarrow> bool" where
  "by_caller a \<longleftrightarrow> a = InsertTask (target a) \<or> a = ResetTask (target a)"

text \<open>\<open>good\<close> says that the member's environment is one of the shared server.\<close>

definition member_ok :: "('w loop_env \<Rightarrow> bool) \<Rightarrow> (bson \<Rightarrow> 'i option) \<Rightarrow> ('w, 'i) member \<Rightarrow> bool" where
  "member_ok good de mb \<longleftrightarrow> crew_ok (mb_max mb) de (mb_crew mb) \<and> good (mb_env mb)"

text \<open>
  Every event of a run satisfies \<open>P\<close> where it happens; what a run keeps is a relation \<open>R\<close> between its
  collections that the steps of the workers \<open>wids\<close>, the other processes and the allowed calls of the callers keep.
\<close>

fun along ::
  "(('w, 'o) fleet_event \<Rightarrow> ('w, 'i) member list \<times> 'w \<Rightarrow> bool) \<Rightarrow>
   'w server \<Rightarrow> (bson \<Rightarrow> 'i option) \<Rightarrow> ('t, 's, 'st) otel \<Rightarrow> ('o \<Rightarrow> bson option) \<Rightarrow>
   ('w, 'o) fleet_event list \<Rightarrow> ('w, 'i) member list \<times> 'w \<Rightarrow> bool" where
  "along P srv de ot ser [] mw \<longleftrightarrow> True"
| "along P srv de ot ser (ev # evs) mw \<longleftrightarrow>
     P ev mw \<and>
     (case fleet_step srv de ot ser ev mw of
        None \<Rightarrow> True
      | Some mw1 \<Rightarrow> along P srv de ot ser evs mw1)"

definition allows :: "('o call \<Rightarrow> 'w \<Rightarrow> bool) \<Rightarrow> ('w, 'o) fleet_event \<Rightarrow> ('w, 'i) member list \<times> 'w \<Rightarrow> bool" where
  "allows C ev mw \<longleftrightarrow> (case ev of Calls c \<Rightarrow> C c (snd mw) | _ \<Rightarrow> True)"

abbreviation calls_allowed ::
  "('o call \<Rightarrow> 'w \<Rightarrow> bool) \<Rightarrow> 'w server \<Rightarrow> (bson \<Rightarrow> 'i option) \<Rightarrow> ('t, 's, 'st) otel \<Rightarrow> ('o \<Rightarrow> bson option) \<Rightarrow>
   ('w, 'o) fleet_event list \<Rightarrow> ('w, 'i) member list \<times> 'w \<Rightarrow> bool" where
  "calls_allowed C \<equiv> along (allows C)"

lemma calls_allowed_True: "calls_allowed (\<lambda>c w. True) srv de ot ser evs mw"
  by (induction evs arbitrary: mw) (auto simp: allows_def split: option.split fleet_event.split)

context mongo_server
begin

abbreviation shares :: "'w loop_env \<Rightarrow> bool" where
  "shares env \<equiv> worker_server qmatch agg upd ins env docs rely le uniq \<and> le_srv env = srv"

definition respected ::
  "('o \<Rightarrow> bson option) \<Rightarrow> string set \<Rightarrow> ('o call \<Rightarrow> 'w \<Rightarrow> bool) \<Rightarrow> (collection \<Rightarrow> collection \<Rightarrow> bool) \<Rightarrow> bool" where
  "respected ser wids C R \<longleftrightarrow>
     (\<forall>wid\<in>wids. guaranteed wid rely R) \<and> (\<forall>D. R D D) \<and> (\<forall>D D1 D2. R D D1 \<longrightarrow> R D1 D2 \<longrightarrow> R D D2) \<and>
     (\<forall>c w. caller_call c \<longrightarrow> C c w \<longrightarrow> coll_ok (docs w) \<longrightarrow> R (docs w) (docs (exec_call srv ser c w)))"

lemma respectedI:
  assumes "\<And>wid. wid \<in> wids \<Longrightarrow> guaranteed wid rely R" and "\<And>D. R D D"
    and "\<And>D D1 D2. R D D1 \<Longrightarrow> R D1 D2 \<Longrightarrow> R D D2"
    and "\<And>c w. caller_call c \<Longrightarrow> C c w \<Longrightarrow> coll_ok (docs w) \<Longrightarrow> R (docs w) (docs (exec_call srv ser c w))"
  shows "respected ser wids C R"
  using assms unfolding respected_def by blast

lemma fleet_step_ok:
  assumes R: "respected ser wids C R"
    and step: "fleet_step srv de ot ser ev (ms, w) = Some (ms1, w1)"
    and allowed: "allows C ev (ms, w)"
    and joins: "\<forall>env\<in>set (joined [ev]). shares env \<and> le_worker_id env \<in> wids"
    and ok: "list_all (member_ok shares de) ms" "coll_ok (docs w)" and ids: "\<forall>mb\<in>set ms. mb_id mb \<in> wids"
  shows "list_all (member_ok shares de) ms1 \<and> coll_ok (docs w1) \<and> (\<forall>mb\<in>set ms1. mb_id mb \<in> wids) \<and>
    R (docs w) (docs w1)"
proof -
  have rely_env: "guaranteed wid rely R" if "wid \<in> wids" for wid using R that by (simp add: respected_def)
  show ?thesis
  proof (cases ev)
    case (Joins env m)
    then obtain c where c: "crew_start env m w = (c, w1)"
      and ms1: "ms1 = ms @ [\<lparr>mb_env = env, mb_max = m, mb_crew = c\<rparr>]"
      using step by (auto split: prod.splits)
    have env: "worker_server qmatch agg upd ins env docs rely le uniq" "le_srv env = srv" "le_worker_id env \<in> wids"
      using joins Joins by simp_all
    note s = worker_server.crew_start_ok [OF env(1) rely_env [OF env(3)] c ok(2), where de = de]
    then show ?thesis using env ok(1) ids ms1 by (auto simp: member_ok_def)
  next
    case (Member k e)
    then obtain c where k: "k < length ms"
      and c: "crew_step (mb_env (ms ! k)) de ot ser e (mb_crew (ms ! k), w) = Some (c, w1)"
      and ms1: "ms1 = ms[k := (ms ! k)\<lparr>mb_crew := c\<rparr>]"
      using step by (auto split: if_splits)
    have mb: "crew_ok (mb_max (ms ! k)) de (mb_crew (ms ! k))" "shares (mb_env (ms ! k))" "mb_id (ms ! k) \<in> wids"
      using ok(1) ids k by (auto simp: list_all_length member_ok_def)
    note s = worker_server.crew_step_ok [OF conjunct1 [OF mb(2)] rely_env [OF mb(3)] c mb(1) ok(2)]
    have "member_ok shares de ((ms ! k)\<lparr>mb_crew := c\<rparr>)" using mb s by (simp add: member_ok_def)
    moreover have "set ms1 \<subseteq> insert ((ms ! k)\<lparr>mb_crew := c\<rparr>) (set ms)"
      unfolding ms1 by (rule set_update_subset_insert)
    ultimately show ?thesis using s ok(1) ids mb(3) by (fastforce simp: list_all_iff)
  next
    case (Dies k)
    then show ?thesis
      using step ok ids R by (auto simp: list_all_iff respected_def split: if_splits dest!: in_set_takeD in_set_dropD)
  next
    case (Calls c)
    then show ?thesis using step ok ids R allowed call_ok [OF ok(2)] by (auto simp: respected_def allows_def split: if_splits)
  qed
qed

lemma joined_Cons: "joined (ev # evs) = joined [ev] @ joined evs"
  by (cases ev) simp_all

lemma fleet_run_ok:
  assumes R: "respected ser wids C R"
  shows "fleet_run srv de ot ser evs (ms, w) = Some (ms1, w1) \<Longrightarrow>
    calls_allowed C srv de ot ser evs (ms, w) \<Longrightarrow>
    \<forall>env\<in>set (joined evs). shares env \<and> le_worker_id env \<in> wids \<Longrightarrow>
    list_all (member_ok shares de) ms \<Longrightarrow> coll_ok (docs w) \<Longrightarrow> \<forall>mb\<in>set ms. mb_id mb \<in> wids \<Longrightarrow>
    list_all (member_ok shares de) ms1 \<and> coll_ok (docs w1) \<and> (\<forall>mb\<in>set ms1. mb_id mb \<in> wids) \<and>
    R (docs w) (docs w1)"
proof (induction evs arbitrary: ms w)
  case Nil
  then show ?case using R by (simp add: respected_def)
next
  case (Cons ev evs)
  obtain ms2 w2 where s: "fleet_step srv de ot ser ev (ms, w) = Some (ms2, w2)"
    and r: "fleet_run srv de ot ser evs (ms2, w2) = Some (ms1, w1)"
    by (rule fleet_run_Cons [OF Cons.prems(1)])
  have allowed: "allows C ev (ms, w)" "calls_allowed C srv de ot ser evs (ms2, w2)"
    using Cons.prems(2) s by (simp_all del: fleet_step.simps)
  have j: "\<forall>env\<in>set (joined [ev]). shares env \<and> le_worker_id env \<in> wids"
    "\<forall>env\<in>set (joined evs). shares env \<and> le_worker_id env \<in> wids"
    using Cons.prems(3) unfolding joined_Cons [of ev evs] by simp_all
  note st = fleet_step_ok [OF R s allowed(1) j(1) Cons.prems(4,5,6)]
  show ?case using Cons.IH [OF r allowed(2) j(2)] st R unfolding respected_def by blast
qed

text \<open>The fleet keeps one document per task, and acts by the protocol.\<close>

lemma unique_guaranteed:
  assumes "unique_kept rely"
  shows "guaranteed wid rely (\<lambda>D D'. ids_unique D \<longrightarrow> ids_unique D')"
proof -
  have "ids_unique D'" if "by_worker wid a" "task_step D a D'" "ids_unique D" for D a D'
    using that(1) by (intro ids_unique_step [OF that(2) _ that(3)]) (cases a, auto)
  then show ?thesis using assms by (auto simp: kept_by_def unique_kept_def)
qed

lemma caller_follows:
  assumes "\<And>D D'. rely D D' \<Longrightarrow> follows P D D'" and "\<And>a. by_caller a \<Longrightarrow> P a"
    and "caller_call c" and "coll_ok (docs w)"
  shows "follows P (docs w) (docs (exec_call srv ser c w))"
proof -
  have "calls_within P srv ser [c] w" using assms(2,3) by (cases c) (auto simp: by_caller_def)
  then show ?thesis using calls_follow [OF assms(1,4)] by fastforce
qed

end

lemma fleet_ids_distinct:
  "fleet_run srv de ot ser evs (ms, w) = Some (ms1, w1) \<Longrightarrow>
    distinct (map mb_id ms @ map le_worker_id (joined evs)) \<Longrightarrow> distinct (map mb_id ms1)"
proof (induction evs arbitrary: ms w)
  case (Cons ev evs)
  obtain ms2 w2 where s: "fleet_step srv de ot ser ev (ms, w) = Some (ms2, w2)"
    and r: "fleet_run srv de ot ser evs (ms2, w2) = Some (ms1, w1)"
    by (rule fleet_run_Cons [OF Cons.prems(1)])
  have "distinct (map mb_id ms2 @ map le_worker_id (joined evs))"
  proof (cases ev)
    case (Joins env m)
    then have "map mb_id ms2 = map mb_id ms @ [le_worker_id env]" using s by (auto split: prod.splits)
    then show ?thesis using Cons.prems(2) Joins by simp
  next
    case (Member k e)
    then obtain c where "k < length ms" "ms2 = ms[k := (ms ! k)\<lparr>mb_crew := c\<rparr>]" using s by (auto split: if_splits)
    moreover then have "map mb_id ms2 = map mb_id ms" by (simp add: map_update list_update_same_conv)
    ultimately show ?thesis using Cons.prems(2) Member by simp
  next
    case (Dies k)
    then have ms2: "ms2 = take k ms @ drop (Suc k) ms" and k: "k < length ms" using s by (auto split: if_splits)
    have "map mb_id ms = map mb_id (take k ms) @ mb_id (ms ! k) # map mb_id (drop (Suc k) ms)"
      by (metis id_take_nth_drop k list.simps(9) map_append)
    then show ?thesis using Cons.prems(2) Dies ms2 by auto
  next
    case (Calls c)
    then show ?thesis using s Cons.prems(2) by (auto split: if_splits)
  qed
  then show ?case using Cons.IH [OF r] by blast
qed simp

text \<open>What \<open>crew_ok\<close> says of a running handler.\<close>

lemma handler_place:
  assumes "crew_ok m de c" and "j < length (cw_jobs c)" and "cw_jobs c ! j = Handling job tok s"
  shows "js_phase s = HandlerRunning \<and> j < length (started (cw_loop c)) \<and> wj_task_id job = fst (started (cw_loop c) ! j)"
proof -
  have "list_all2 (job_ok de) (started (cw_loop c)) (cw_jobs c)" using assms(1) by (simp add: crew_ok_def)
  then show ?thesis
    using assms(2,3) list_all2_nthD2 [of "job_ok de" _ "cw_jobs c" j] by (auto simp: job_ok_def dest: list_all2_lengthD)
qed

lemma crew_ids_distinct: "crew_ok m de c \<Longrightarrow> distinct (map fst (started (cw_loop c)))"
  by (cases "cw_loop c") (auto simp: crew_ok_def loop_inv_def pool_inv_def)

lemma same_handler:
  assumes "crew_ok m de c" and "j < length (cw_jobs c)" "cw_jobs c ! j = Handling job tok s"
    and "j' < length (cw_jobs c)" "cw_jobs c ! j' = Handling job' tok' s'" and "wj_task_id job = wj_task_id job'"
  shows "j = j'"
  using handler_place [OF assms(1-3)] handler_place [OF assms(1,4,5)] crew_ids_distinct [OF assms(1)] assms(6)
  by (metis length_map nth_eq_iff_index_eq nth_map)

lemma held_by_one:
  assumes "ids_unique D" and "held_task tid wid tok D" and "held_task tid wid' tok' D"
  shows "wid = wid' \<and> tok = tok'"
  using assms unfolding held_task_def ids_unique_def holds_def by (metis option.inject)

text \<open>The step in which a handler returns.\<close>

lemma handler_returns:
  assumes "runs_handler ms k j job tok s" and "js_phase s = HandlerRunning"
    and "fleet_step srv de ot ser (Member k (JobGoesOn j (HandlerReturns hr))) (ms, w) = Some (ms1, w1)"
  shows "\<exists>r. finish_task (le_srv (mb_env (ms ! k))) ser (wj_task_id job) (mb_id (ms ! k)) tok hr w = (r, w1) \<and>
    cw_jobs (mb_crew (ms1 ! k)) ! j = Returned r"
  using assms by (auto simp: runs_handler_def job_step_def go_on_def split: prod.splits if_splits)

lemma member_returns:
  assumes "member_ok (\<lambda>env. P env \<and> le_srv env = srv) de (ms ! k)" and "runs_handler ms k j job tok s"
    and "fleet_step srv de ot ser (Member k (JobGoesOn j (HandlerReturns hr))) (ms, w) = Some (ms1, w1)"
  shows "\<exists>r. finish_task srv ser (wj_task_id job) (mb_id (ms ! k)) tok hr w = (r, w1) \<and>
    cw_jobs (mb_crew (ms1 ! k)) ! j = Returned r"
proof -
  have crew: "crew_ok (mb_max (ms ! k)) de (mb_crew (ms ! k))" "le_srv (mb_env (ms ! k)) = srv"
    using assms(1) by (simp_all add: member_ok_def)
  have "js_phase s = HandlerRunning" using handler_place [OF crew(1)] assms(2) unfolding runs_handler_def by blast
  then show ?thesis using handler_returns [OF assms(2) _ assms(3)] crew(2) by simp
qed

context mongo_server
begin

lemma unique_respected:
  assumes "unique_kept rely" and "uniq"
  shows "respected ser UNIV (\<lambda>c w. True) (\<lambda>D D'. ids_unique D \<longrightarrow> ids_unique D')"
proof (rule respectedI)
  show "guaranteed wid rely (\<lambda>D D'. ids_unique D \<longrightarrow> ids_unique D')" for wid by (rule unique_guaranteed [OF assms(1)])
  show "ids_unique (docs w) \<longrightarrow> ids_unique (docs (exec_call srv ser c w))" if "coll_ok (docs w)" for c w
    using call_unique [OF assms that] by blast
qed blast+

lemma fleet_reaches:
  assumes kept: "unique_kept rely" and "uniq" and ok: "coll_ok (docs w)" "ids_unique (docs w)"
    and joins: "\<forall>env\<in>set (joined evs). shares env"
    and run: "fleet_run srv de ot ser evs ([], w) = Some (ms, w1)"
  shows "list_all (member_ok shares de) ms \<and> coll_ok (docs w1) \<and> ids_unique (docs w1)"
  using fleet_run_ok [OF unique_respected [OF kept assms(2)] run calls_allowed_True] joins ok by simp

lemma lost_handler_returns:
  assumes ok: "coll_ok (docs w)" and mb: "member_ok shares de (ms ! k)" and runs: "runs_handler ms k j job tok s"
    and lost: "\<And>D. rely (docs w) D \<Longrightarrow> \<not> held_task (wj_task_id job) (mb_id (ms ! k)) tok D"
    and step: "fleet_step srv de ot ser (Member k (JobGoesOn j (HandlerReturns hr))) (ms, w) = Some (ms1, w1)"
  shows "rely (docs w) (docs w1) \<and> (\<exists>err. cw_jobs (mb_crew (ms1 ! k)) ! j = Returned (Inl err))"
proof -
  obtain r where f: "finish_task srv ser (wj_task_id job) (mb_id (ms ! k)) tok hr w = (r, w1)"
    and ret: "cw_jobs (mb_crew (ms1 ! k)) ! j = Returned r"
    using member_returns [OF mb runs step] by blast
  note spec = finish_spec [OF ok f]
  have no: "\<not> rewrites_held R (wj_task_id job) (mb_id (ms ! k)) tok D D'" if "rely (docs w) D" for R D D'
    using lost [OF that] by (auto simp: rewrites_held_def held_task_def)
  have "rely (docs w) (docs w1) \<and> r \<noteq> Inr ()"
  proof (cases hr)
    case (Inl err)
    then show ?thesis using spec no by auto
  next
    case (Inr out)
    then show ?thesis
      using spec no rely_refl [of "docs w"] by (cases "ser out"; cases r) auto
  qed
  then show ?thesis using ret by (cases r) auto
qed

end

section \<open>Recorded results stay\<close>

text \<open>An enqueueing that cannot reset the task: of another task id, or without a reset predicate.\<close>

fun spares_task :: "'w server \<Rightarrow> string \<Rightarrow> 'o call \<Rightarrow> 'w \<Rightarrow> bool" where
  "spares_task srv tid (Enqueue b) w \<longleftrightarrow>
     request_id srv (sb_idempotency_key b) w \<noteq> tid \<or> effective_reset_predicate (sb_reset_when b) (sb_config b) = None"
| "spares_task srv tid c w \<longleftrightarrow> True"

lemma finished_task_step:
  assumes "task_step D a D'" and "a \<noteq> ResetTask i" and "D i = Some e" and "is_finished e"
  shows "D' i = Some e"
  using step_on_document [OF assms(1,3)] assms(2,4) by (auto simp: is_finished_def)

lemma finished_follows:
  assumes "follows (\<lambda>a. a \<noteq> ResetTask i) D D'" and "D i = Some e" and "is_finished e"
  shows "D' i = Some e"
proof -
  obtain as where as: "task_run D as D'" "ResetTask i \<notin> set as"
    using assms(1) by (auto simp: follows_def list_all_iff)
  then show ?thesis using task_document_stable [OF as(1) assms(2)] assms(3) by (auto simp: is_finished_def)
qed

context mongo_server
begin

text \<open>Then it leaves every document of the task that has a status as it is.\<close>

lemma enqueue_leaves:
  assumes ok: "coll_ok (docs w)" and spares: "spares_task srv tid (Enqueue b) w"
  shows "\<exists>D D1. rely (docs w) D \<and> rely D1 (docs (snd (enqueue_only srv b w))) \<and>
    (\<forall>i e. D i = Some e \<longrightarrow> task_id_of e = Some tid \<longrightarrow> status_of e \<noteq> None \<longrightarrow> D1 i = Some e)"
proof (cases "sb_payload_err b = None \<and> sb_payload b \<noteq> None")
  case False
  then have "snd (enqueue_only srv b w) = w" by (auto simp: enqueue_only_def split: option.split)
  then show ?thesis using rely_refl by (intro exI [of _ "docs w"]) simp
next
  case True
  then obtain payload where p: "sb_payload b = Some payload" "sb_payload_err b = None" by auto
  let ?pred = "effective_reset_predicate (sb_reset_when b) (sb_config b)" and ?id = "request_id srv (sb_idempotency_key b) w"
  let ?u = "upsert_task srv payload (switch_timeout_for b) (sb_idempotency_key b) ?pred (sb_trace_context b) w"
  let ?D1 = "docs (snd ?u)"
  have u: "enqueue_only srv b w = ?u" using p by (simp add: enqueue_only_def)
  obtain D where D: "rely (docs w) D" and o: "upsert_outcome uniq (resettable qmatch ?pred) rely ?id payload
      (switch_timeout_for b) (sb_trace_context b) (fst ?u) D ?D1"
    using upsert_spec [OF ok surjective_pairing] by blast
  have "rely D ?D1 \<or> ?D1 = D \<or>
      enqueue_inserts uniq ?id payload (switch_timeout_for b) (sb_trace_context b) D ?D1 \<or>
      enqueue_resets (resettable qmatch ?pred) ?id payload (switch_timeout_for b) (sb_trace_context b) D ?D1"
    using o unfolding upsert_outcome_def
    by (cases "fst ?u" rule: sum.exhaust; cases "projl (fst ?u)"; cases "eo_action (projr (fst ?u))") auto
  then have "rely D ?D1 \<or>
      (\<forall>i e. D i = Some e \<longrightarrow> task_id_of e = Some tid \<longrightarrow> status_of e \<noteq> None \<longrightarrow> ?D1 i = Some e)"
    using spares by (auto simp: enqueue_inserts_def enqueue_resets_def resettable_def)
  then show ?thesis unfolding u using D rely_refl by blast
qed

text \<open>What such enqueueings, the workers and the other processes keep of the collection.\<close>

lemma respected_spares:
  assumes others: "\<And>D D'. rely D D' \<Longrightarrow> follows (\<lambda>a. a \<noteq> ResetTask i) D D'"
    and step: "\<And>D a D'. task_step D a D' \<Longrightarrow> a \<noteq> ResetTask i \<Longrightarrow> Q D \<Longrightarrow> Q D'"
    and same: "\<And>D D1. Q D \<Longrightarrow>
      (\<forall>e. D i = Some e \<longrightarrow> task_id_of e = Some tid \<longrightarrow> status_of e \<noteq> None \<longrightarrow> D1 i = Some e) \<Longrightarrow> Q D1"
  shows "respected ser wids (spares_task srv tid) (\<lambda>D D'. Q D \<longrightarrow> Q D')"
proof (rule respectedI)
  have run: "Q D'" if "task_run D as D'" "list_all (\<lambda>a. a \<noteq> ResetTask i) as" "Q D" for D as D'
    using that step by (induction rule: task_run.induct) auto
  have rely: "Q D'" if "rely D D'" "Q D" for D D'
    using others [OF that(1)] run that(2) unfolding follows_def by blast
  show "guaranteed wid rely (\<lambda>D D'. Q D \<longrightarrow> Q D')" for wid
    unfolding kept_by_def
  proof (intro conjI allI impI)
    show "Q D'" if "rely D D'" "Q D" for D D' using rely that .
    show "Q D'" if "by_worker wid a" "task_step D a D'" "Q D" for D a D'
      using that(1) by (intro step [OF that(2) _ that(3)]) (cases a, auto)
  qed blast+
  show "Q (docs w) \<longrightarrow> Q (docs (exec_call srv ser c w))"
    if c: "caller_call c" "spares_task srv tid c w" "coll_ok (docs w)" for c w
  proof (cases c)
    case (Enqueue b)
    obtain D D1 where D: "rely (docs w) D" "rely D1 (docs (snd (enqueue_only srv b w)))"
      "\<forall>i e. D i = Some e \<longrightarrow> task_id_of e = Some tid \<longrightarrow> status_of e \<noteq> None \<longrightarrow> D1 i = Some e"
      using enqueue_leaves [OF c(3) c(2) [unfolded Enqueue]] by blast
    show ?thesis
    proof
      assume "Q (docs w)"
      then have "Q D1" using same [OF rely [OF D(1)]] D(3) by blast
      then show "Q (docs (exec_call srv ser c w))" using rely [OF D(2)] Enqueue by simp
    qed
  next
    case (Inspect id)
    have "rely (docs w) (docs (snd (inspect_task srv Some id w)))" by (rule inspect_rely [OF surjective_pairing])
    then show ?thesis using Inspect rely by simp
  qed (use c(1) in simp_all)
qed blast+

lemma finished_respected:
  assumes others: "\<And>D D'. rely D D' \<Longrightarrow> follows (\<lambda>a. a \<noteq> ResetTask i) D D'"
    and e: "is_finished e" "task_id_of e = Some tid"
  shows "respected ser wids (spares_task srv tid) (\<lambda>D D'. D i = Some e \<longrightarrow> D' i = Some e)"
proof (rule respected_spares [OF others])
  show "D' i = Some e" if "task_step D a D'" "a \<noteq> ResetTask i" "D i = Some e" for D a D'
    using finished_task_step [OF that e(1)] .
qed (use e in \<open>auto simp: is_finished_def\<close>)

lemma finished_refuses:
  assumes ok: "coll_ok (docs w)" and unique: "ids_unique (docs w)" and kept: "unique_kept rely"
    and others: "\<And>D D'. rely D D' \<Longrightarrow> follows (\<lambda>a. a \<noteq> ResetTask i) D D'"
    and e: "docs w i = Some e" "is_finished e" "task_id_of e = Some tid"
  shows "fst (finish_task srv ser tid wid tok hr w) \<noteq> Inr ()"
proof
  assume "fst (finish_task srv ser tid wid tok hr w) = Inr ()"
  then obtain w1 where f: "finish_task srv ser tid wid tok hr w = (Inr (), w1)" by (metis prod.collapse)
  obtain out where hr: "hr = Inr out" using finish_ok_handler [OF f] by blast
  obtain D R where D: "rely (docs w) D" and "rewrites_held R tid wid tok D (docs w1)"
    using finish_spec [OF ok f] unfolding hr by (auto split: option.splits)
  then obtain j d where d: "D j = Some d" "task_id_of d = Some tid" "holds wid tok d"
    by (auto simp: rewrites_held_def)
  have at: "D i = Some e" using finished_follows [OF others [OF D] e(1,2)] .
  have "j = i" using unique_keptD [OF kept D unique] d(1,2) at e(3) unfolding ids_unique_def by blast
  then show False using d at e(2) by (auto simp: holds_def is_finished_def)
qed

end

section \<open>A fleet of one\<close>

text \<open>The demonstration worker joins at the sample collection and starts the handler of the task \<open>a\<close>.\<close>

abbreviation demo_fleet :: "(ref_world, bson) fleet_event list \<Rightarrow> (ref_world, bson) member list \<times> ref_world \<Rightarrow>
    ((ref_world, bson) member list \<times> ref_world) option" where
  "demo_fleet \<equiv> fleet_run ref_server Some demo_otel Some"

definition demo_events :: "(ref_world, bson) fleet_event list" where
  "demo_events = Joins demo_env 1 # map (Member 0) demo_begins"

lemma demo_events_joined [simp]: "joined demo_events = [demo_env]"
  by (simp add: demo_events_def demo_begins_def)

text \<open>The events of one member are a run of its crew.\<close>

lemma member_run:
  "k < length ms \<Longrightarrow> crew_run (mb_env (ms ! k)) de ot ser evs (mb_crew (ms ! k), w) = Some (c, w1) \<Longrightarrow>
    fleet_run srv de ot ser (map (Member k) evs) (ms, w) = Some (ms[k := (ms ! k)\<lparr>mb_crew := c\<rparr>], w1)"
proof (induction evs arbitrary: ms w)
  case (Cons ev evs)
  obtain c2 w2 where step: "crew_step (mb_env (ms ! k)) de ot ser ev (mb_crew (ms ! k), w) = Some (c2, w2)"
    and run: "crew_run (mb_env (ms ! k)) de ot ser evs (c2, w2) = Some (c, w1)"
    using Cons.prems(2) by (auto simp: bind_eq_Some_conv simp del: crew_step.simps)
  let ?ms = "ms[k := (ms ! k)\<lparr>mb_crew := c2\<rparr>]"
  have "fleet_run srv de ot ser (map (Member k) evs) (?ms, w2) = Some (?ms[k := (?ms ! k)\<lparr>mb_crew := c\<rparr>], w1)"
    by (rule Cons.IH) (use Cons.prems(1) run in simp_all)
  then show ?case using Cons.prems(1) step by (simp del: crew_step.simps)
next
  case Nil
  then have "(ms ! k)\<lparr>mb_crew := c\<rparr> = ms ! k" by simp
  then show ?case using Nil by (metis fleet_run.simps(1) list.simps(8) list_update_id crew_run.simps(1) option.inject prod.inject)
qed

lemma demo_fleet_runs:
  "\<exists>ms w1 tok s d w3. demo_fleet demo_events ([], demo_world 5000) = Some (ms, w1) \<and>
     length ms = 1 \<and> mb_env (ms ! 0) = demo_env \<and> js_phase s = HandlerRunning \<and>
     runs_handler ms 0 0 \<lparr>wj_task_id = ''a'', wj_trace_context = None, wj_payload = BInt32 7\<rparr> tok s \<and>
     ref_docs w1 (ObjectId 1) = Some d \<and> task_id_of d = Some ''a'' \<and>
     finish_task ref_server Some ''a'' ''w1'' tok (Inr (BInt32 9)) w1 = (Inr (), w3)"
proof -
  let ?job = "\<lparr>wj_task_id = ''a'', wj_trace_context = None, wj_payload = BInt32 7\<rparr>"
  obtain c0 w0 c w tok s d w3 where start: "crew_start demo_env 1 (demo_world 5000) = (c0, w0)"
    and run: "crew_run demo_env Some demo_otel Some demo_begins (c0, w0) = Some (c, w)"
    and doc: "ref_docs w (ObjectId 1) = Some d" "task_id_of d = Some ''a''"
    and finish: "finish_task ref_server Some ''a'' ''w1'' tok (Inr (BInt32 9)) w = (Inr (), w3)"
    and phase: "js_phase s = HandlerRunning" and jobs: "cw_jobs c = [Handling ?job tok s]"
    using demo_crew by blast
  let ?ms = "[\<lparr>mb_env = demo_env, mb_max = 1, mb_crew = c\<rparr>]"
  have "demo_fleet demo_events ([], demo_world 5000) = Some (?ms, w)"
    using start member_run [of 0 "[\<lparr>mb_env = demo_env, mb_max = 1, mb_crew = c0\<rparr>]"] run by (simp add: demo_events_def)
  moreover have "runs_handler ?ms 0 0 ?job tok s" by (simp add: runs_handler_def jobs)
  moreover have "length ?ms = 1" "mb_env (?ms ! 0) = demo_env" by simp_all
  ultimately show ?thesis using doc finish phase by - (intro exI conjI, assumption+)
qed

lemma demo_shares:
  "\<forall>env\<in>set (joined demo_events).
     worker_server ref_match ref_agg ref_upd ref_ins env ref_docs (=) ref_le True \<and> le_srv env = ref_server"
  using demo_worker.worker_server_axioms by (simp add: demo_env_sel)

lemma unique_alone: "unique_kept (=)"
  by (simp add: unique_kept_def)

section \<open>Properties\<close>

text \<open>
  C19: a fleet stays consistent. Whatever workers join, work and die, and whatever callers enqueue, in any
  order: the invariant of every worker holds, its running handlers work under the claims and on the payloads of
  their documents, the collection has at most one document for a task, and it has changed only by steps of the
  protocol: claims, heartbeats and completions under the ids of workers that joined, requests of callers, and
  what other processes do.
\<close>

theorem fleet_stays_consistent:
  assumes server: "mongo_server qmatch agg upd ins srv docs rely le True" and ok: "coll_ok (docs w)" "ids_unique (docs w)"
    and kept: "unique_kept rely" and others: "\<And>D D'. rely D D' \<Longrightarrow> follows others D D'"
    and joins: "\<forall>env\<in>set (joined evs). worker_server qmatch agg upd ins env docs rely le True \<and> le_srv env = srv"
    and run: "fleet_run srv de ot ser evs ([], w) = Some (ms, w1)"
  shows "(\<forall>mb\<in>set ms. crew_ok (mb_max mb) de (mb_crew mb)) \<and> coll_ok (docs w1) \<and> ids_unique (docs w1) \<and>
    follows (\<lambda>a. (\<exists>env\<in>set (joined evs). by_worker (le_worker_id env) a) \<or> by_caller a \<or> others a) (docs w) (docs w1)"
proof -
  let ?P = "\<lambda>a. (\<exists>env\<in>set (joined evs). by_worker (le_worker_id env) a) \<or> by_caller a \<or> others a"
  let ?wids = "le_worker_id ` set (joined evs)"
  have j: "\<forall>env\<in>set (joined evs). (worker_server qmatch agg upd ins env docs rely le True \<and> le_srv env = srv) \<and>
      le_worker_id env \<in> ?wids"
    using joins by simp
  have rely: "follows ?P D D'" if "rely D D'" for D D'
    using others [OF that] by (auto simp: follows_def list_all_iff)
  have R: "mongo_server.respected srv docs rely ser ?wids (\<lambda>c w. True) (follows ?P)"
  proof (rule mongo_server.respectedI [OF server])
    show "guaranteed wid rely (follows ?P)" if "wid \<in> ?wids" for wid
      using that by (intro guaranteed_follows rely) auto
    show "follows ?P (docs w) (docs (exec_call srv ser c w))" if "caller_call c" "coll_ok (docs w)" for c w
      by (rule mongo_server.caller_follows [OF server rely _ that]) auto
  qed (rule follows_refl, erule (1) follows_trans)
  have "list_all (member_ok (\<lambda>env. worker_server qmatch agg upd ins env docs rely le True \<and> le_srv env = srv) de) ms \<and>
      coll_ok (docs w1) \<and> follows ?P (docs w) (docs w1)"
    using mongo_server.fleet_run_ok [OF server R run calls_allowed_True j] ok(1) by simp
  moreover have "ids_unique (docs w1)"
    using mongo_server.fleet_reaches [OF server kept TrueI ok joins run] by blast
  ultimately show ?thesis by (simp add: list_all_iff member_ok_def)
qed

theorem fleet_stays_consistent_witness:
  "\<exists>ms w1. demo_fleet demo_events ([], demo_world 5000) = Some (ms, w1) \<and>
     length ms = 1 \<and> ids_unique (ref_docs w1)"
proof -
  obtain ms w1 where run: "demo_fleet demo_events ([], demo_world 5000) = Some (ms, w1)"
    and "length ms = 1"
    using demo_fleet_runs by blast
  moreover have "follows (\<lambda>a. False) D D'" if "D = D'" for D D' using that follows_refl by simp
  from fleet_stays_consistent [OF ref.mongo_server_axioms demo_ok demo_unique unique_alone this demo_shares run]
  have "ids_unique (ref_docs w1)" by blast
  ultimately show ?thesis by blast
qed

text \<open>
  C4: at most one effective handler. Among all handlers that run for a task in all workers of a fleet, at most
  one is under a claim that holds the task's document, whatever joins, reclaims and crashes led there; any other
  one, whatever it returns, changes nothing in the collection and ends with an error.
\<close>

theorem one_effective_handler:
  assumes server: "mongo_server qmatch agg upd ins srv docs rely le True" and ok: "coll_ok (docs w)" "ids_unique (docs w)"
    and kept: "unique_kept rely" and ids: "distinct (map le_worker_id (joined evs))"
    and joins: "\<forall>env\<in>set (joined evs). worker_server qmatch agg upd ins env docs rely le True \<and> le_srv env = srv"
    and run: "fleet_run srv de ot ser evs ([], w) = Some (ms, w1)"
    and runs: "runs_handler ms k j job tok s"
  shows "(effective ms k job tok (docs w1) \<longrightarrow>
      (\<forall>k' j' job' tok' s'. runs_handler ms k' j' job' tok' s' \<longrightarrow> wj_task_id job' = wj_task_id job \<longrightarrow>
         effective ms k' job' tok' (docs w1) \<longrightarrow> k' = k \<and> j' = j)) \<and>
    ((\<forall>D. rely (docs w1) D \<longrightarrow> \<not> effective ms k job tok D) \<longrightarrow>
      (\<forall>hr ms2 w2. fleet_step srv de ot ser (Member k (JobGoesOn j (HandlerReturns hr))) (ms, w1) = Some (ms2, w2) \<longrightarrow>
         rely (docs w1) (docs w2) \<and> (\<exists>err. cw_jobs (mb_crew (ms2 ! k)) ! j = Returned (Inl err))))"
proof -
  have reach: "list_all (member_ok (\<lambda>env. worker_server qmatch agg upd ins env docs rely le True \<and> le_srv env = srv) de) ms"
    "coll_ok (docs w1)" "ids_unique (docs w1)"
    using mongo_server.fleet_reaches [OF server kept TrueI ok joins run] by blast+
  have distinct: "distinct (map mb_id ms)" using fleet_ids_distinct [OF run] ids by simp
  have mb: "member_ok (\<lambda>env. worker_server qmatch agg upd ins env docs rely le True \<and> le_srv env = srv) de (ms ! k)"
    using reach(1) runs by (simp add: list_all_length runs_handler_def)
  have one: "k' = k \<and> j' = j" if "effective ms k job tok (docs w1)" and run': "runs_handler ms k' j' job' tok' s'"
    and same: "wj_task_id job' = wj_task_id job" and "effective ms k' job' tok' (docs w1)" for k' j' job' tok' s'
  proof -
    have "mb_id (ms ! k') = mb_id (ms ! k)"
      using held_by_one [OF reach(3)] that(1,4) same unfolding effective_def by metis
    then have k: "k' = k" using distinct runs run' by (auto simp: runs_handler_def distinct_conv_nth)
    then show ?thesis
      using same_handler [OF _ _ _ _ _ same] mb runs run' by (fastforce simp: member_ok_def runs_handler_def)
  qed
  moreover have "rely (docs w1) (docs w2) \<and> (\<exists>err. cw_jobs (mb_crew (ms2 ! k)) ! j = Returned (Inl err))"
    if "\<forall>D. rely (docs w1) D \<longrightarrow> \<not> effective ms k job tok D"
      "fleet_step srv de ot ser (Member k (JobGoesOn j (HandlerReturns hr))) (ms, w1) = Some (ms2, w2)" for hr ms2 w2
    using mongo_server.lost_handler_returns [OF server reach(2) mb runs _ that(2)] that(1) unfolding effective_def by blast
  ultimately show ?thesis by blast
qed

theorem one_effective_handler_witness:
  "\<exists>ms w1 job tok s. demo_fleet demo_events ([], demo_world 5000) = Some (ms, w1) \<and>
     runs_handler ms 0 0 job tok s \<and>
     (effective ms 0 job tok (ref_docs w1) \<longrightarrow>
       (\<forall>k' j' job' tok' s'. runs_handler ms k' j' job' tok' s' \<longrightarrow> wj_task_id job' = wj_task_id job \<longrightarrow>
          effective ms k' job' tok' (ref_docs w1) \<longrightarrow> k' = 0 \<and> j' = 0))"
proof -
  obtain ms w1 job tok s where run: "demo_fleet demo_events ([], demo_world 5000) = Some (ms, w1)"
    and runs: "runs_handler ms 0 0 job tok s"
    using demo_fleet_runs by blast
  have ids: "distinct (map le_worker_id (joined demo_events))" by simp
  from one_effective_handler [OF ref.mongo_server_axioms demo_ok demo_unique unique_alone ids demo_shares run runs]
  show ?thesis using run runs by blast
qed

text \<open>
  C3: a result is recorded once, and stays. When a handler of some worker of a fleet returns an output and its
  job ends with success, the task's document is finished with exactly the serialised output. From then on,
  whatever workers join, claim, crash and return, and whatever callers enqueue, except for a reset of this task:
  the document does not change, no other handler of the task ends with success, and a caller that waits for the
  task gets the output.
\<close>

theorem result_recorded_once:
  assumes server: "mongo_server qmatch agg upd ins srv docs rely le True" and ok: "coll_ok (docs w)" "ids_unique (docs w)"
    and kept: "unique_kept rely" and others: "\<And>D D'. rely D D' \<Longrightarrow> follows (\<lambda>a. a \<noteq> ResetTask i) D D'"
    and joins: "\<forall>env\<in>set (joined (evs @ evs2)).
      worker_server qmatch agg upd ins env docs rely le True \<and> le_srv env = srv"
    and run: "fleet_run srv de ot ser evs ([], w) = Some (ms, w1)" and runs: "runs_handler ms k j job tok s"
    and task: "docs w1 i = Some d0" "task_id_of d0 = Some (wj_task_id job)"
    and returns: "fleet_step srv de ot ser (Member k (JobGoesOn j (HandlerReturns (Inr out)))) (ms, w1) = Some (ms2, w2)"
    and success: "cw_jobs (mb_crew (ms2 ! k)) ! j = Returned (Inr ())"
    and later: "fleet_run srv de ot ser evs2 (ms2, w2) = Some (ms3, w3)"
    and enqueues: "calls_allowed (spares_task srv (wj_task_id job)) srv de ot ser evs2 (ms2, w2)"
  shows "\<exists>v e. ser out = Some v \<and> docs w2 i = Some e \<and> status_of e = Some ''succeeded'' \<and>
    doc_get e ''task_output'' = Some v \<and> docs w3 i = Some e \<and>
    (\<forall>k' j' job' tok' s' hr ms4 w4. runs_handler ms3 k' j' job' tok' s' \<longrightarrow> wj_task_id job' = wj_task_id job \<longrightarrow>
       fleet_step srv de ot ser (Member k' (JobGoesOn j' (HandlerReturns hr))) (ms3, w3) = Some (ms4, w4) \<longrightarrow>
       cw_jobs (mb_crew (ms4 ! k')) ! j' \<noteq> Returned (Inr ())) \<and>
    (case fst (await_response srv open_stream de_out (wj_task_id job) w3) of
       None \<Rightarrow> False
     | Some (Inr x) \<Rightarrow> de_out v = Some x
     | Some (Inl err) \<Rightarrow> (\<exists>m. err = Database m) \<or> err = PayloadFormat ''task_output'' \<and> de_out v = None)"
proof -
  let ?shares = "\<lambda>env. worker_server qmatch agg upd ins env docs rely le True \<and> le_srv env = srv"
  let ?ret = "Member k (JobGoesOn j (HandlerReturns (Inr out)))"
  have joins1: "\<forall>env\<in>set (joined evs). ?shares env" and joins2: "\<forall>env\<in>set (joined evs2). ?shares env"
    using joins by (simp_all add: joined_append)
  have reach: "list_all (member_ok ?shares de) ms" "coll_ok (docs w1)" "ids_unique (docs w1)"
    using mongo_server.fleet_reaches [OF server kept TrueI ok joins1 run] by blast+
  have mb: "member_ok ?shares de (ms ! k)" using reach(1) runs by (simp add: list_all_length runs_handler_def)
  obtain r where f: "finish_task srv ser (wj_task_id job) (mb_id (ms ! k)) tok (Inr out) w1 = (r, w2)"
    and ret: "cw_jobs (mb_crew (ms2 ! k)) ! j = Returned r"
    using member_returns [OF mb runs returns] by blast
  have "r = Inr ()" using ret success by simp
  note recorded = mongo_server.finish_records [OF server reach(2,3) kept others task f [unfolded this]]
  obtain v e where v: "ser out = Some v" and e: "docs w2 i = Some e" "status_of e = Some ''succeeded''"
    "doc_get e ''task_output'' = Some v" "task_id_of e = Some (wj_task_id job)"
    using recorded by blast
  then have fin: "is_finished e" by (simp add: is_finished_def)
  have run2: "fleet_run srv de ot ser (evs @ ?ret # evs2) ([], w) = Some (ms3, w3)"
    using run returns later by (simp add: fleet_run_append del: fleet_step.simps)
  have joins3: "\<forall>env\<in>set (joined (evs @ ?ret # evs2)). ?shares env" using joins by (simp add: joined_append)
  have reach3: "list_all (member_ok ?shares de) ms3" "coll_ok (docs w3)" "ids_unique (docs w3)"
    using mongo_server.fleet_reaches [OF server kept TrueI ok joins3 run2] by blast+
  have run1: "fleet_run srv de ot ser (evs @ [?ret]) ([], w) = Some (ms2, w2)"
    using run returns by (simp add: fleet_run_append del: fleet_step.simps)
  have reach2: "list_all (member_ok ?shares de) ms2" "coll_ok (docs w2)"
    using mongo_server.fleet_reaches [OF server kept TrueI ok _ run1] joins1 by (simp_all add: joined_append)
  have stays: "docs w3 i = Some e"
    using mongo_server.fleet_run_ok [OF server mongo_server.finished_respected [OF server others fin e(4), where wids = UNIV]
        later enqueues _ reach2] joins2 e(1) by simp
  have "cw_jobs (mb_crew (ms4 ! k')) ! j' \<noteq> Returned (Inr ())"
    if r1: "runs_handler ms3 k' j' job' tok' s'" and r2: "wj_task_id job' = wj_task_id job"
      and r3: "fleet_step srv de ot ser (Member k' (JobGoesOn j' (HandlerReturns hr))) (ms3, w3) = Some (ms4, w4)"
    for k' j' job' tok' s' hr ms4 w4
  proof -
    have mb3: "member_ok ?shares de (ms3 ! k')" using reach3(1) r1 by (simp add: list_all_length runs_handler_def)
    obtain r4 where f4: "finish_task srv ser (wj_task_id job) (mb_id (ms3 ! k')) tok' hr w3 = (r4, w4)"
      and ret4: "cw_jobs (mb_crew (ms4 ! k')) ! j' = Returned r4"
      using member_returns [OF mb3 r1 r3] unfolding r2 by blast
    have "r4 \<noteq> Inr ()"
      using mongo_server.finished_refuses [OF server reach3(2,3) kept others stays fin e(4),
          where ser = ser and wid = "mb_id (ms3 ! k')" and tok = tok' and hr = hr] unfolding f4 by simp
    then show ?thesis using ret4 by simp
  qed
  moreover note mongo_server.finished_read [OF server reach3(2,3) stays e(4,2,3) others kept]
  ultimately show ?thesis using v e(1-3) stays by blast
qed

theorem result_recorded_once_witness:
  "\<exists>ms w1 ms2 w2. demo_fleet demo_events ([], demo_world 5000) = Some (ms, w1) \<and>
     fleet_step ref_server Some demo_otel Some (Member 0 (JobGoesOn 0 (HandlerReturns (Inr (BInt32 9))))) (ms, w1) =
       Some (ms2, w2) \<and>
     (\<exists>e. ref_docs w2 (ObjectId 1) = Some e \<and> doc_get e ''task_output'' = Some (BInt32 9))"
proof -
  let ?job = "\<lparr>wj_task_id = ''a'', wj_trace_context = None, wj_payload = BInt32 7\<rparr>"
  let ?ret = "Member 0 (JobGoesOn 0 (HandlerReturns (Inr (BInt32 9))))"
  obtain ms w1 tok s d w3 where run: "demo_fleet demo_events ([], demo_world 5000) = Some (ms, w1)"
    and one: "length ms = 1" "mb_env (ms ! 0) = demo_env" and phase: "js_phase s = HandlerRunning"
    and runs: "runs_handler ms 0 0 ?job tok s"
    and doc: "ref_docs w1 (ObjectId 1) = Some d" "task_id_of d = Some ''a''"
    and finish: "finish_task ref_server Some ''a'' ''w1'' tok (Inr (BInt32 9)) w1 = (Inr (), w3)"
    using demo_fleet_runs by blast
  have "fleet_step ref_server Some demo_otel Some ?ret (ms, w1) \<noteq> None"
    using runs phase one by (auto simp: runs_handler_def job_step_def split: prod.splits)
  then obtain ms2 w2 where step: "fleet_step ref_server Some demo_otel Some ?ret (ms, w1) = Some (ms2, w2)" by fastforce
  obtain r where "finish_task ref_server Some ''a'' ''w1'' tok (Inr (BInt32 9)) w1 = (r, w2)"
    and ret: "cw_jobs (mb_crew (ms2 ! 0)) ! 0 = Returned r"
    using handler_returns [OF runs phase step] by (auto simp: one demo_env_sel)
  then have success: "cw_jobs (mb_crew (ms2 ! 0)) ! 0 = Returned (Inr ())" using finish by simp
  have others: "follows (\<lambda>a. a \<noteq> ResetTask (ObjectId 1)) D D'" if "D = D'" for D D' using that follows_refl by simp
  have joins: "\<forall>env\<in>set (joined (demo_events @ [])).
      worker_server ref_match ref_agg ref_upd ref_ins env ref_docs (=) ref_le True \<and> le_srv env = ref_server"
    using demo_shares by simp
  have task: "task_id_of d = Some (wj_task_id ?job)" using doc(2) by simp
  have later: "demo_fleet [] (ms2, w2) = Some (ms2, w2)" and allowed: "calls_allowed (spares_task ref_server (wj_task_id ?job))
      ref_server Some demo_otel Some [] (ms2, w2)"
    by simp_all
  from result_recorded_once [OF ref.mongo_server_axioms demo_ok demo_unique unique_alone others joins run runs doc(1) task step
      success later allowed]
  have "\<exists>e. ref_docs w2 (ObjectId 1) = Some e \<and> doc_get e ''task_output'' = Some (BInt32 9)" by blast
  then show ?thesis using run step by blast
qed

end
