(* ===== verification/Tokens.thy ===== *)
theory Tokens
  imports Moves
begin

text \<open>
  Claim tokens are UUIDs. Here a source of tokens never repeats one, and what follows for a worker: as long as a
  document is held under the token of one of its claims, it has the input that the claim returned.
\<close>

section \<open>What holds of the documents under a token\<close>

definition no_claim :: "string \<Rightarrow> string \<Rightarrow> action \<Rightarrow> bool" where
  "no_claim wid tok a \<longleftrightarrow> (\<forall>i. a \<noteq> ClaimTask i wid tok)"

definition same_input :: "string \<Rightarrow> string \<Rightarrow> bson option \<Rightarrow> collection \<Rightarrow> bool" where
  "same_input wid tok X D \<longleftrightarrow> (\<forall>i e. D i = Some e \<longrightarrow> holds wid tok e \<longrightarrow> doc_get e ''task_input'' = X)"

lemma held_without_claim:
  assumes "task_step D a D'" and "no_claim wid tok a" and "D' i = Some e'" and "holds wid tok e'"
  shows "\<exists>e. D i = Some e \<and> holds wid tok e \<and> doc_get e ''task_input'' = doc_get e' ''task_input''"
proof -
  have "held i wid tok D'" using assms(3,4) by (auto simp: held_def)
  then have "held i wid tok D"
    using held_step [OF assms(1)] assms(2) by (auto simp: no_claim_def split: action.splits if_splits)
  then obtain e where e: "D i = Some e" "holds wid tok e" by (auto simp: held_def)
  then have "a \<noteq> ResetTask i" using held_running [of i wid tok D] assms(1) by (auto simp: held_def)
  then show ?thesis using step_on_document [OF assms(1) e(1)] e assms(3) by auto
qed

lemma held_back:
  "task_run D as D' \<Longrightarrow> list_all (no_claim wid tok) as \<Longrightarrow> D' i = Some e' \<Longrightarrow> holds wid tok e' \<Longrightarrow>
    \<exists>e. D i = Some e \<and> holds wid tok e \<and> doc_get e ''task_input'' = doc_get e' ''task_input''"
proof (induction rule: task_run.induct)
  case (run_Cons D a D1 as D')
  obtain e1 where "D1 i = Some e1" "holds wid tok e1" "doc_get e1 ''task_input'' = doc_get e' ''task_input''"
    using run_Cons by auto
  then show ?case using held_without_claim [OF run_Cons.hyps(1)] run_Cons.prems(1) by fastforce
qed simp

lemma same_input_run:
  "task_run D as D' \<Longrightarrow> list_all (no_claim wid tok) as \<Longrightarrow> same_input wid tok X D \<Longrightarrow> same_input wid tok X D'"
  unfolding same_input_def using held_back by metis

section \<open>A source of tokens\<close>

text \<open>
  \<open>ours\<close> are the UUIDs that the server hands out here, \<open>issued\<close> those that it has handed out so far. The other
  processes, and whatever goes on beside a call, draw theirs elsewhere.
\<close>

definition claims_within :: "string set \<Rightarrow> string set \<Rightarrow> action \<Rightarrow> bool" where
  "claims_within U T a \<longleftrightarrow> (\<forall>i wid tok. a = ClaimTask i wid tok \<longrightarrow> tok \<in> U \<longrightarrow> tok \<in> T)"

locale token_source = mongo_server qmatch agg upd ins srv docs rely le uniq
  for qmatch :: "document \<Rightarrow> document \<Rightarrow> bool"
    and agg :: "bson \<Rightarrow> document \<Rightarrow> bson option"
    and upd :: "document \<Rightarrow> document \<Rightarrow> document"
    and ins :: "document \<Rightarrow> document \<Rightarrow> object_id \<Rightarrow> document"
    and srv :: "'w server"
    and docs :: "'w \<Rightarrow> collection"
    and rely :: "collection \<Rightarrow> collection \<Rightarrow> bool"
    and le :: "document \<Rightarrow> document \<Rightarrow> document \<Rightarrow> bool"
    and uniq :: bool +
  fixes issued :: "'w \<Rightarrow> string set"
    and ours :: "string set"
  assumes uuid_new: "sv_uuid srv w = (u, w1) \<Longrightarrow> u \<in> ours - issued w \<and> u \<in> issued w1 \<and> issued w \<subseteq> issued w1"
    and now_issued: "sv_now srv w = (t, w1) \<Longrightarrow> issued w1 = issued w"
    and find_one_issued: "sv_find_one srv f w = (r1, w1) \<Longrightarrow> issued w \<subseteq> issued w1"
    and find_issued: "sv_find srv f w = (r2, w1) \<Longrightarrow> issued w \<subseteq> issued w1"
    and update_issued: "sv_update_one srv f chg b w = (r3, w1) \<Longrightarrow> issued w \<subseteq> issued w1"
    and find_and_update_issued: "sv_find_one_and_update srv f chg so w = (r1, w1) \<Longrightarrow> issued w \<subseteq> issued w1"
    and others: "rely D D' \<Longrightarrow> follows (claims_within ours {}) D D'"
begin

lemma attempts_issued: "claim_attempts srv update fs w = (r, w1) \<Longrightarrow> issued w \<subseteq> issued w1"
proof (induction fs arbitrary: w)
  case (Cons x fs)
  obtain flt so where x: "x = (flt, so)" by fastforce
  obtain r0 w0 where c: "sv_find_one_and_update srv flt update so w = (r0, w0)" by fastforce
  then have "issued w \<subseteq> issued w0" by (rule find_and_update_issued)
  moreover have "w1 = w0 \<or> claim_attempts srv update fs w0 = (r, w1)"
    using Cons.prems c by (auto simp: x claim_with_filter_def split: sum.splits option.splits)
  ultimately show ?case using Cons.IH by blast
qed simp

text \<open>The token of a claim is new, and it counts as issued afterwards.\<close>

lemma token_new: "token_drawn srv w \<in> ours - issued w"
proof -
  obtain t wa where "sv_now srv w = (t, wa)" by fastforce
  moreover obtain u wb where "sv_uuid srv wa = (u, wb)" by fastforce
  ultimately show ?thesis using uuid_new now_issued by (fastforce simp: token_drawn_def)
qed

lemma claim_next_issued:
  assumes "claim_next_task srv wid T ex mode so w = (r, w1)"
  shows "insert (token_drawn srv w) (issued w) \<subseteq> issued w1"
proof -
  obtain t wa where a: "sv_now srv w = (t, wa)" by fastforce
  obtain u wb where b: "sv_uuid srv wa = (u, wb)" by fastforce
  obtain s wc where c: "sv_now srv wb = (s, wc)" by fastforce
  have "\<exists>update fs. claim_attempts srv update fs wc = (r, w1)"
    using assms by (auto simp: claim_next_task_def a b c Let_def)
  then show ?thesis
    using attempts_issued uuid_new [OF b] now_issued [OF a] now_issued [OF c] by (fastforce simp: token_drawn_def a b)
qed

lemma claim_by_id_issued:
  assumes "claim_expired_task_by_id srv i wid T tid ex w = (r, w1)"
  shows "w1 = w \<and> r = Inr None \<or> insert (token_drawn srv w) (issued w) \<subseteq> issued w1"
proof (cases "case tid of None \<Rightarrow> False | Some t \<Rightarrow> t \<in> set ex")
  case True
  then show ?thesis using assms by (simp add: claim_expired_task_by_id_def)
next
  case False
  obtain t wa where a: "sv_now srv w = (t, wa)" by fastforce
  obtain u wb where b: "sv_uuid srv wa = (u, wb)" by fastforce
  obtain s wc where c: "sv_now srv wb = (s, wc)" by fastforce
  have "\<exists>flt update. claim_with_filter srv flt update None wc = (r, w1)"
    using assms False by (auto simp: claim_expired_task_by_id_def a b c Let_def split: option.splits)
  then have "issued wc \<subseteq> issued w1"
    using find_and_update_issued by (fastforce simp: claim_with_filter_def split: prod.splits sum.splits)
  then show ?thesis using uuid_new [OF b] now_issued [OF a] now_issued [OF c] by (auto simp: token_drawn_def a b)
qed

lemma update_issued_snd: "issued w \<subseteq> issued (snd (sv_update_one srv f chg b w))"
  by (rule update_issued [OF surjective_pairing])

lemma writes_issued:
  "issued w \<subseteq> issued (snd (heartbeat srv tid wid tok w))"
  "issued w \<subseteq> issued (mark_task_failed srv tid wid tok reason w)"
  "issued w \<subseteq> issued (snd (finish_task srv ser tid wid tok hr w))"
proof -
  obtain t wa where a: "sv_now srv w = (t, wa)" by fastforce
  obtain s wb where b: "sv_now srv wa = (s, wb)" by fastforce
  have same: "issued wa = issued w" "issued wb = issued w" using now_issued [OF a] now_issued [OF b] by simp_all
  have "issued wa \<subseteq> issued (snd (heartbeat srv tid wid tok w))"
    using update_issued_snd by (simp add: heartbeat_def a Let_def case_prod_beta split: sum.split)
  then show "issued w \<subseteq> issued (snd (heartbeat srv tid wid tok w))" using same(1) by simp
  have "issued wb \<subseteq> issued (mark_task_failed srv tid wid tok reason w)" for reason
    using update_issued_snd by (simp add: mark_task_failed_def a b Let_def)
  then show fail: "issued w \<subseteq> issued (mark_task_failed srv tid wid tok reason w)" for reason
    using same(2) by simp
  show "issued w \<subseteq> issued (snd (finish_task srv ser tid wid tok hr w))"
  proof (cases "\<exists>out v. hr = Inr out \<and> ser out = Some v")
    case True
    then obtain out v where "hr = Inr out" "ser out = Some v" by blast
    then have "issued wb \<subseteq> issued (snd (finish_task srv ser tid wid tok hr w))"
      using update_issued_snd by (simp add: finish_task_def a b Let_def case_prod_beta split: sum.split)
    then show ?thesis using same(2) by simp
  next
    case False
    then show ?thesis using fail by (cases hr) (auto simp: finish_task_def split: option.split)
  qed
qed

lemma scans_issued:
  "issued w \<subseteq> issued (snd (refresh_running_expirations srv T t w))"
  "issued w \<subseteq> issued (snd (refresh_pending_tasks srv t w))"
  "issued w \<subseteq> issued (snd (inspect_task srv de tid w))"
  using find_issued find_one_issued
  by (auto simp: refresh_running_expirations_def refresh_pending_tasks_def inspect_task_def
      split: prod.splits sum.splits option.splits)

lemma enqueue_issued: "issued w \<subseteq> issued (snd (enqueue_only srv b w))"
proof -
  have upsert: "issued w \<subseteq> issued (snd (upsert_task srv p T key pred tr w))" for p T key pred tr
  proof -
    obtain i wa where a: "(case key of Some k \<Rightarrow> (k, w) | None \<Rightarrow> sv_uuid srv w) = (i, wa)" by fastforce
    then have "issued w \<subseteq> issued wa" using uuid_new by (auto split: option.splits)
    moreover obtain t wb where b: "sv_now srv wa = (t, wb)" by fastforce
    moreover obtain r wc where c: "sv_update_one srv (enqueue_filter i pred) (enqueue_update i p t T tr) True wb = (r, wc)"
      by fastforce
    moreover have "snd (upsert_task srv p T key pred tr w) = wc"
      by (auto simp: upsert_task_def a b c Let_def split: sum.split mongo_error.split)
    ultimately show ?thesis using now_issued [OF b] update_issued [OF c] by auto
  qed
  then show ?thesis by (auto simp: enqueue_only_def split: option.splits)
qed

section \<open>Runs with fresh tokens\<close>

text \<open>
  From \<open>w\<close> to \<open>w'\<close> the collection has followed the protocol, and every claim with one of our tokens drew one
  that is issued in \<open>w'\<close> and was not in \<open>w\<close>.
\<close>

definition fresh_run :: "'w \<Rightarrow> 'w \<Rightarrow> bool" where
  "fresh_run w w' \<longleftrightarrow> issued w \<subseteq> issued w' \<and>
     follows (claims_within ours (issued w' - issued w)) (docs w) (docs w')"

lemma follows_mono: "follows P D D' \<Longrightarrow> (\<And>a. P a \<Longrightarrow> Q a) \<Longrightarrow> follows Q D D'"
  unfolding follows_def by (metis list.pred_mono_strong)

lemma fresh_run_refl: "fresh_run w w"
  by (simp add: fresh_run_def follows_refl)

lemma claims_within_mono: "claims_within U S a \<Longrightarrow> S \<subseteq> T \<Longrightarrow> claims_within U T a"
  by (auto simp: claims_within_def)

lemma fresh_run_trans: "fresh_run w w1 \<Longrightarrow> fresh_run w1 w2 \<Longrightarrow> fresh_run w w2"
  unfolding fresh_run_def
  by (intro conjI, blast) (rule follows_trans; (erule conjE)+; erule follows_mono; erule claims_within_mono; blast)

lemma fresh_run_others: "follows (claims_within ours {}) (docs w) (docs w1) \<Longrightarrow> issued w \<subseteq> issued w1 \<Longrightarrow> fresh_run w w1"
  unfolding fresh_run_def by (auto elim!: follows_mono claims_within_mono)

lemma fresh_run_step:
  assumes "rely (docs w) D" "D1 = D \<or> (\<exists>a. P a \<and> task_step D a D1)" "rely D1 (docs w1)"
    and "issued w \<subseteq> issued w1" and "\<And>i wid tok. P (ClaimTask i wid tok) \<Longrightarrow> tok \<in> issued w1 - issued w"
  shows "fresh_run w w1"
proof -
  let ?Q = "claims_within ours (issued w1 - issued w)"
  have rely: "follows ?Q D D'" if "rely D D'" for D D'
    using others [OF that] by (rule follows_mono) (auto simp: claims_within_def)
  have "follows ?Q D D1" if "P a" "task_step D a D1" for a
    using follows_step [OF that(2), of ?Q] that(1) assms(5) unfolding claims_within_def by blast
  then have "follows ?Q D D1" using assms(2) follows_refl [of ?Q] by blast
  then have "follows ?Q (docs w) (docs w1)" using follows_trans rely [OF assms(1)] rely [OF assms(3)] by blast
  then show ?thesis using assms(4) by (simp add: fresh_run_def)
qed

text \<open>Every call of the program is such a run.\<close>

lemma call_issued: "issued w \<subseteq> issued (exec_call srv ser c w)"
proof (cases c)
  case (ClaimNext wid T ex mode so)
  then show ?thesis using claim_next_issued [OF surjective_pairing] by fastforce
next
  case (ClaimById i wid T tid ex)
  then show ?thesis using claim_by_id_issued [OF surjective_pairing, of i wid T tid ex w] by auto
qed (simp_all add: enqueue_issued writes_issued scans_issued)

lemma call_fresh:
  assumes ok: "coll_ok (docs w)"
  shows "fresh_run w (exec_call srv ser c w)"
proof (cases "exec_call srv ser c w = w")
  case False
  obtain D D1 where s: "rely (docs w) D" "D1 = D \<or> (\<exists>a. may_take srv c w a \<and> task_step D a D1)"
    "rely D1 (docs (exec_call srv ser c w))"
    using call_step [OF ok] by blast
  have "tok \<in> issued (exec_call srv ser c w) - issued w" if "may_take srv c w (ClaimTask i wid tok)" for i wid tok
  proof (cases c)
    case (ClaimNext wid1 T ex mode so)
    then show ?thesis using that token_new claim_next_issued [OF surjective_pairing] by fastforce
  next
    case (ClaimById j wid1 T tid ex)
    then show ?thesis
      using that token_new claim_by_id_issued [OF surjective_pairing, of j wid1 T tid ex w] False by auto
  qed (use that in auto)
  then show ?thesis using fresh_run_step [OF s call_issued] by blast
qed (simp add: fresh_run_refl)

section \<open>What a claim returned stays true\<close>

text \<open>
  Of our tokens only issued ones are in use; and a document that is held under the token of the
  claim that returned \<open>d\<close> has the input of \<open>d\<close>.
\<close>

definition tokens_issued :: "'w \<Rightarrow> bool" where
  "tokens_issued w \<longleftrightarrow> (\<forall>i wid tok. tok \<in> ours \<longrightarrow> held i wid tok (docs w) \<longrightarrow> tok \<in> issued w)"

definition claim_true :: "string \<Rightarrow> document \<Rightarrow> 'w \<Rightarrow> bool" where
  "claim_true wid d w \<longleftrightarrow>
     claim_token_in d \<in> ours \<inter> issued w \<and> same_input wid (claim_token_in d) (doc_get d ''task_input'') (docs w)"

lemma fresh_run_as:
  assumes "fresh_run w w1"
  obtains as where "task_run (docs w) as (docs w1)" and "list_all (claims_within ours (issued w1 - issued w)) as"
  using assms by (auto simp: fresh_run_def follows_def)

lemma no_claim_within:
  "list_all (claims_within ours T) as \<Longrightarrow> tok \<in> ours \<Longrightarrow> tok \<notin> T \<Longrightarrow> list_all (no_claim wid tok) as"
  by (auto simp: list_all_iff claims_within_def no_claim_def)

lemma claim_true_run:
  assumes run: "fresh_run w w1" and claim: "claim_true wid d w"
  shows "claim_true wid d w1"
proof -
  obtain as where as: "task_run (docs w) as (docs w1)" "list_all (claims_within ours (issued w1 - issued w)) as"
    by (rule fresh_run_as [OF run])
  have "list_all (no_claim wid (claim_token_in d)) as"
    using claim by (intro no_claim_within [OF as(2)]) (auto simp: claim_true_def)
  then show ?thesis using claim run same_input_run [OF as(1)] by (auto simp: claim_true_def fresh_run_def)
qed

lemma tokens_issued_run:
  assumes run: "fresh_run w w1" and issued: "tokens_issued w"
  shows "tokens_issued w1"
  unfolding tokens_issued_def
proof (intro allI impI)
  fix i wid tok
  assume tok: "tok \<in> ours" and "held i wid tok (docs w1)"
  then obtain e where e: "docs w1 i = Some e" "holds wid tok e" by (auto simp: held_def)
  obtain as where as: "task_run (docs w) as (docs w1)" "list_all (claims_within ours (issued w1 - issued w)) as"
    by (rule fresh_run_as [OF run])
  show "tok \<in> issued w1"
  proof (cases "list_all (no_claim wid tok) as")
    case True
    then show ?thesis
      using held_back [OF as(1) _ e] issued tok run by (auto simp: tokens_issued_def held_def fresh_run_def)
  next
    case False
    then show ?thesis using no_claim_within [OF as(2) tok] by blast
  qed
qed

lemma claim_makes_true:
  assumes ok: "coll_ok (docs w)" and issued: "tokens_issued w" and claim: "claims_task srv wid w d w1"
  shows "claim_true wid d w1"
proof -
  let ?tok = "token_drawn srv w"
  obtain D i where D: "rely (docs w) D" "docs w1 i = Some d" "holds wid ?tok d" "\<forall>j. j \<noteq> i \<longrightarrow> docs w1 j = D j"
    using claim claim_next_holds [OF ok] claim_by_id_holds [OF ok] unfolding claims_task_def by metis
  have "token_of d = Some ?tok" using D(3) by (simp add: holds_def)
  then have tok: "claim_token_in d = ?tok"
    by (auto simp: token_of_def state_field_def claim_token_in_def get_str_def bind_eq_Some_conv)
  have drawn: "?tok \<in> issued w1"
    using claim claim_next_issued claim_by_id_issued unfolding claims_task_def by fastforce
  obtain as where as: "task_run (docs w) as D" "list_all (claims_within ours {}) as"
    using others [OF D(1)] by (auto simp: follows_def)
  have none: "list_all (no_claim wid ?tok) as" using no_claim_within [OF as(2)] token_new by blast
  have "j = i" if "docs w1 j = Some e" "holds wid ?tok e" for j e
  proof (rule ccontr)
    assume "j \<noteq> i"
    then have "D j = Some e" using D(4) that(1) by simp
    then have "held j wid ?tok (docs w)" using held_back [OF as(1) none _ that(2)] by (auto simp: held_def)
    then show False using issued token_new by (auto simp: tokens_issued_def)
  qed
  then show ?thesis using drawn token_new D(2) unfolding claim_true_def same_input_def tok by fastforce
qed

section \<open>Workers\<close>

definition token_worker :: "'w loop_env \<Rightarrow> bool" where
  "token_worker env \<longleftrightarrow>
     worker_server qmatch agg upd ins env docs rely le uniq \<and> le_srv env = srv \<and>
     (\<forall>stages w. issued w \<subseteq> issued (snd (le_watch env stages w)))"

lemma claims_fresh:
  assumes ok: "coll_ok (docs w)" and claim: "claims_task srv wid w d w1"
  shows "fresh_run w w1 \<and> coll_ok (docs w1)"
proof -
  obtain c :: "bson call" where "exec_call srv Some c w = w1" using claims_task_call [OF claim] by blast
  then show ?thesis using call_fresh [OF ok, of Some c] call_ok [OF ok, of Some c] by simp
qed

lemma moves_fresh:
  assumes env: "token_worker env"
  shows "moves env w ds w1 \<Longrightarrow> coll_ok (docs w) \<Longrightarrow> tokens_issued w \<Longrightarrow>
    fresh_run w w1 \<and> (\<forall>d\<in>set ds. claim_true (le_worker_id env) d w1)"
proof (induction rule: moves.induct)
  case (stays w)
  then show ?case by (simp add: fresh_run_refl)
next
  case (calls c w ds w1)
  have srv: "le_srv env = srv" using env by (simp add: token_worker_def)
  have f: "fresh_run w (exec_call srv Some c w)" by (rule call_fresh [OF calls.prems(1)])
  then show ?case
    using calls.IH call_ok [OF calls.prems(1)] tokens_issued_run [OF f calls.prems(2)] fresh_run_trans [OF f]
    unfolding srv by blast
next
  case (claims w d w1 ds w2)
  have srv: "le_srv env = srv" using env by (simp add: token_worker_def)
  note claim = claims.hyps(1) [unfolded srv]
  note f = claims_fresh [OF claims.prems(1) claim]
  have new: "claim_true (le_worker_id env) d w1"
    by (rule claim_makes_true [OF claims.prems claim])
  have rest: "fresh_run w1 w2" "\<forall>d\<in>set ds. claim_true (le_worker_id env) d w2"
    using claims.IH f tokens_issued_run claims.prems(2) by blast+
  then show ?case using f fresh_run_trans claim_true_run [OF rest(1) new] by auto
next
  case (looks w t w1 ds w2)
  have now: "sv_now srv w = (t, w1)" using looks.hyps(1) env by (simp add: token_worker_def)
  have "fresh_run w w1" using now_issued [OF now] now_docs [OF now] by (simp add: fresh_run_def follows_refl)
  then show ?case
    using looks.IH looks.prems now_docs [OF now] tokens_issued_run fresh_run_trans by metis
next
  case (opens stages w r w1 ds w2)
  have ws: "worker_server qmatch agg upd ins env docs rely le uniq" and "issued w \<subseteq> issued w1"
    using env opens.hyps(1) unfolding token_worker_def by (blast, metis snd_conv)
  moreover have rely: "rely (docs w) (docs w1)" by (rule worker_server.watch_docs [OF ws opens.hyps(1)])
  ultimately have f: "fresh_run w w1" using fresh_run_others others by blast
  then show ?case
    using opens.IH [OF rely_ok [OF rely opens.prems(1)] tokens_issued_run [OF f opens.prems(2)]] fresh_run_trans by blast
qed

end

section \<open>The tokens of the reference server\<close>

definition ref_token :: "nat \<Rightarrow> string" where
  "ref_token n = ''uuid-'' @ replicate n CHR ''i''"

definition ref_issued :: "ref_world \<Rightarrow> string set" where
  "ref_issued w = ref_token ` {..< rw_uuids w}"

lemma ref_issued_new:
  "ref_uuid w = (u, w1) \<Longrightarrow> u \<in> range ref_token - ref_issued w \<and> u \<in> ref_issued w1 \<and> ref_issued w \<subseteq> ref_issued w1"
  by (auto simp: ref_uuid_def ref_issued_def ref_token_def)

lemma ref_uuids_kept:
  "ref_now w = (t, w1) \<Longrightarrow> rw_uuids w1 = rw_uuids w"
  "ref_find_one f w = (r1, w1) \<Longrightarrow> rw_uuids w1 = rw_uuids w"
  "ref_find f w = (r2, w1) \<Longrightarrow> rw_uuids w1 = rw_uuids w"
  "ref_update_one f chg b w = (r3, w1) \<Longrightarrow> rw_uuids w1 = rw_uuids w"
  "ref_find_one_and_update f chg so w = (r1, w1) \<Longrightarrow> rw_uuids w1 = rw_uuids w"
  by (auto simp: ref_now_def ref_find_one_def ref_find_def ref_update_one_def ref_find_one_and_update_def
      ref_insert_def drop_fault_def put_doc_def Let_def split: fault.splits option.splits if_splits prod.splits)

interpretation ref_tokens: token_source ref_match ref_agg ref_upd ref_ins ref_server ref_docs "(=)" ref_le True
  ref_issued "range ref_token"
proof unfold_locales
  show "follows (claims_within (range ref_token) {}) D D'" if "D = D'" for D D'
    using that follows_refl by simp
qed (use ref_issued_new ref_uuids_kept in \<open>auto simp: ref_issued_def\<close>)

end
