(* ===== verification/StringLength.thy ===== *)
theory StringLength
  imports Enqueue WorkerLoop
begin

text \<open>
  \<open>src/examples/string_length.rs\<close>: a caller sends a text, a worker answers with its length. A text is a list
  of characters. Tracing is set up and the collection emptied by other libraries; their outcomes are inputs.
\<close>

record length_request =
  lq_text :: string

record length_response =
  lr_length :: nat

definition length_handler :: "length_request worker_job \<Rightarrow> request_error + length_response" where
  "length_handler job = Inr \<lparr>lr_length = length (lq_text (wj_payload job))\<rparr>"

definition example_config :: "config option" where
  "example_config =
     build (set_collection ''getitdone_example'' (set_database ''Test''
       (set_mongo_uri ''mongodb://localhost:27017'' builder)))"

definition example_request :: length_request where
  "example_request = \<lparr>lq_text = ''hello from example''\<rparr>"

text \<open>How far \<open>main\<close> gets. What it returns is an error only when tracing could not be set up.\<close>

datatype example_end =
    NoTracing
  | NotCleaned
  | NoCaller
  | NoWorker
  | NoAnswer request_error
  | Answered length_response

definition example_main ::
  "'e + unit \<Rightarrow> 'e + unit \<Rightarrow> request_error + 'c caller \<Rightarrow> request_error + worker_handle \<Rightarrow>
   request_error + length_response \<Rightarrow> ('e + unit) \<times> example_end \<times> handle_effect list" where
  "example_main tracing cleaned connected running response =
     (case tracing of
        Inl e \<Rightarrow> (Inl e, NoTracing, [])
      | Inr _ \<Rightarrow>
          (Inr (),
           (case cleaned of
              Inl _ \<Rightarrow> (NotCleaned, [])
            | Inr _ \<Rightarrow>
                (case connected of
                   Inl _ \<Rightarrow> (NoCaller, [])
                 | Inr caller \<Rightarrow>
                     (case running of
                        Inl _ \<Rightarrow> (NoWorker, [])
                      | Inr worker_handle \<Rightarrow>
                          (case response of
                             Inl e \<Rightarrow> (NoAnswer e, handle_shutdown worker_handle)
                           | Inr resp \<Rightarrow> (Answered resp, handle_shutdown worker_handle)))))))"

text \<open>A worker that was started is asked to stop and awaited, and never aborted.\<close>

lemma example_stops_worker:
  assumes "snd (worker_run srv watch iter snap wk w) = h"
  shows "\<exists>stage. example_main (Inr ()) (Inr ()) (Inr c) (Inr h) response = (Inr (), stage, [SendStop, AwaitTask])"
  using assms
  by (auto simp: example_main_def worker_run_def handle_shutdown_def handle_drop_def Let_def split: sum.split)

definition has_length :: "length_request \<Rightarrow> length_response \<Rightarrow> bool" where
  "has_length x y \<longleftrightarrow> lr_length y = length (lq_text x)"

lemma length_handler_has_length: "length_handler job = Inr y \<Longrightarrow> has_length (wj_payload job) y"
  by (auto simp: length_handler_def has_length_def)

text \<open>Conversions of requests and responses, as \<open>serde\<close> derives them, for the sample run.\<close>

definition demo_ser_request :: "length_request \<Rightarrow> bson option" where
  "demo_ser_request r = Some (BDocument [(''text'', BString (lq_text r))])"

definition demo_de_request :: "bson \<Rightarrow> length_request option" where
  "demo_de_request b = (case b of BDocument d \<Rightarrow> map_option (\<lambda>t. \<lparr>lq_text = t\<rparr>) (get_str d ''text'') | _ \<Rightarrow> None)"

definition demo_ser_response :: "length_response \<Rightarrow> bson option" where
  "demo_ser_response r =
     (if lr_length r < 2 ^ 63 then Some (BDocument [(''length'', BInt64 (int (lr_length r)))]) else None)"

definition demo_de_response :: "bson \<Rightarrow> length_response option" where
  "demo_de_response b =
     (case b of BDocument d \<Rightarrow> map_option (\<lambda>n. \<lparr>lr_length = nat n\<rparr>) (get_i64 d ''length'') | _ \<Rightarrow> None)"

lemma demo_serde:
  "demo_ser_request r = Some p \<Longrightarrow> demo_de_request p = Some r"
  "demo_ser_response y = Some v \<Longrightarrow> demo_de_response v = Some y"
  by (auto simp: demo_ser_request_def demo_de_request_def demo_ser_response_def demo_de_response_def
      get_str_def get_i64_def doc_get_def split: if_splits)

text \<open>The configuration of the example.\<close>

definition example_cfg :: config where
  "example_cfg = \<lparr>cfg_mongo_uri = ''mongodb://localhost:27017'', cfg_database = ''Test'',
     cfg_collection = ''getitdone_example'', cfg_request_timeout = None, cfg_worker_switch_timeout = from_secs 10,
     cfg_allow_reset_finished_tasks = False, cfg_worker_id = None, cfg_enable_metrics = False,
     cfg_claim_sort = None, cfg_stale_recovery_sort = None\<rparr>"

lemma example_config_built: "example_config = Some example_cfg"
  by (simp add: example_config_def example_cfg_def build_def finalize_def builder_def set_collection_def
      set_database_def set_mongo_uri_def)

end
