(* ===== verification/Answers.thy ===== *)
theory Answers
  imports Fleet Tokens StringLength
begin

text \<open>
  What a fleet of workers computes. A handler is described by a relation \<open>post\<close> between payloads and outputs.
  If every handler that returns an output keeps to it, every recorded output does, for the input of its own
  document, and so does every answer to a caller.
\<close>

section \<open>Results that meet a specification\<close>

definition recorded :: "(bson \<Rightarrow> 'i option) \<Rightarrow> ('o \<Rightarrow> bson option) \<Rightarrow> ('i \<Rightarrow> 'o \<Rightarrow> bool) \<Rightarrow> document \<Rightarrow> bool" where
  "recorded de ser post d \<longleftrightarrow>
     (\<exists>x y v. Option.bind (doc_get d ''task_input'') de = Some x \<and> post x y \<and> ser y = Some v \<and>
        doc_get d ''task_output'' = Some v)"

definition results_meet :: "(bson \<Rightarrow> 'i option) \<Rightarrow> ('o \<Rightarrow> bson option) \<Rightarrow> ('i \<Rightarrow> 'o \<Rightarrow> bool) \<Rightarrow> collection \<Rightarrow> bool" where
  "results_meet de ser post D \<longleftrightarrow>
     (\<forall>i d. D i = Some d \<longrightarrow> status_of d = Some ''succeeded'' \<longrightarrow> recorded de ser post d)"

text \<open>Only a completion with an output can break it.\<close>

definition no_result :: "action \<Rightarrow> bool" where
  "no_result a \<longleftrightarrow> (\<forall>i wid tok. a \<noteq> Finish i wid tok ''succeeded'')"

lemma results_meet_step:
  assumes "task_step D a D'" and "no_result a" and "results_meet de ser post D"
  shows "results_meet de ser post D'"
proof -
  have "recorded de ser post d'" if "D' i = Some d'" "status_of d' = Some ''succeeded''" for i d'
    using assms(1)
  proof cases
    case (finish j d wid tok d1 st)
    then show ?thesis using that assms(2,3) by (auto simp: no_result_def results_meet_def split: if_splits)
  qed (use that assms(3) in \<open>auto simp: results_meet_def holds_def fresh_pending_def split: if_splits\<close>)
  then show ?thesis by (simp add: results_meet_def)
qed

definition results_kept ::
  "(bson \<Rightarrow> 'i option) \<Rightarrow> ('o \<Rightarrow> bson option) \<Rightarrow> ('i \<Rightarrow> 'o \<Rightarrow> bool) \<Rightarrow> (collection \<Rightarrow> collection \<Rightarrow> bool) \<Rightarrow> bool" where
  "results_kept de ser post rely \<longleftrightarrow> (\<forall>D D'. rely D D' \<longrightarrow> results_meet de ser post D \<longrightarrow> results_meet de ser post D')"

lemma results_meet_kept:
  assumes "results_kept de ser post rely"
  shows "kept_by no_result rely (\<lambda>D D'. results_meet de ser post D \<longrightarrow> results_meet de ser post D')"
  using assms results_meet_step unfolding kept_by_def results_kept_def by blast

lemma results_meet_quiet:
  assumes "results_kept de ser post rely"
  shows "kept_by (quiet wid) rely (\<lambda>D D'. results_meet de ser post D \<longrightarrow> results_meet de ser post D')"
  using results_meet_kept [OF assms] unfolding kept_by_def quiet_def no_result_def by blast

context token_source
begin

text \<open>A completion under a claim whose document has the input that the handler was given.\<close>

lemma completion_meets:
  assumes ok: "coll_ok (docs w)" and kept: "results_kept de ser post rely" and meets: "results_meet de ser post (docs w)"
    and claim: "claim_true wid d w"
    and payload: "Option.bind (doc_get d ''task_input'') de = Some x" and good: "\<And>out. hr = Inr out \<Longrightarrow> post x out"
    and finish: "finish_task srv ser tid wid (claim_token_in d) hr w = (r, w1)"
  shows "results_meet de ser post (docs w1)"
proof -
  let ?tok = "claim_token_in d"
  have rely: "results_meet de ser post D" "same_input wid ?tok (doc_get d ''task_input'') D" if D: "rely (docs w) D" for D
  proof -
    show "results_meet de ser post D" using kept meets D unfolding results_kept_def by blast
    obtain as where as: "task_run (docs w) as D" "list_all (claims_within ours {}) as"
      using others [OF D] by (auto simp: follows_def)
    have "list_all (no_claim wid ?tok) as"
      using claim by (intro no_claim_within [OF as(2)]) (auto simp: claim_true_def)
    then show "same_input wid ?tok (doc_get d ''task_input'') D"
      using same_input_run [OF as(1)] claim by (simp add: claim_true_def)
  qed
  obtain D where D: "rely (docs w) D" and spec: "docs w1 = D \<or> w1 = w \<or>
      (\<exists>out v. hr = Inr out \<and> ser out = Some v \<and>
         rewrites_held (finished_as ''succeeded'' ''task_output'' v) tid wid ?tok D (docs w1)) \<or>
      (\<exists>v. rewrites_held (finished_as ''failed'' ''error_reason'' v) tid wid ?tok D (docs w1))"
    using finish_spec [OF ok finish] by (cases hr; cases r) (auto split: option.splits)
  have written: ?thesis
    if w: "rewrites_held (finished_as st field v) tid wid ?tok D (docs w1)"
      and st: "st = ''succeeded'' \<longrightarrow> field = ''task_output'' \<and> (\<exists>out. hr = Inr out \<and> ser out = Some v)" for st field v
  proof -
    obtain i d1 e where e: "D i = Some d1" "holds wid ?tok d1" "finished_as st field v d1 e" "docs w1 = D(i \<mapsto> e)"
      using w unfolding rewrites_held_def by blast
    have "recorded de ser post e" if s: "status_of e = Some ''succeeded''"
    proof -
      have f: "st = ''succeeded''" "field = ''task_output''" "doc_get e ''task_output'' = Some v"
        using e(3) s st by (auto simp: finished_as_def)
      moreover have "doc_get e ''task_input'' = doc_get d1 ''task_input''"
        using e(3) f(2) by (simp add: finished_as_def split_paths)
      moreover have "doc_get d1 ''task_input'' = doc_get d ''task_input''"
        using rely(2) [OF D] e(1,2) by (simp add: same_input_def)
      ultimately show ?thesis using payload st good unfolding recorded_def by auto
    qed
    then show ?thesis using rely(1) [OF D] e(4) by (auto simp: results_meet_def)
  qed
  show ?thesis using spec meets rely(1) [OF D] written by blast
qed

end

section \<open>The steps of a worker\<close>

text \<open>A step of a worker is a sequence of its calls, or the completion of a handler that returned.\<close>

lemma crew_moved:
  assumes step: "crew_step env de ot ser ev (c, w) = Some (c1, w1)" and ok: "crew_ok m de c"
  shows "moved env (started (cw_loop c)) w (started (cw_loop c1)) w1 \<or>
    (started (cw_loop c1) = started (cw_loop c) \<and>
      (\<exists>k job tok s hr. ev = JobGoesOn k (HandlerReturns hr) \<and> k < length (cw_jobs c) \<and> cw_jobs c ! k = Handling job tok s \<and>
        w1 = snd (finish_task (le_srv env) ser (wj_task_id job) (le_worker_id env) tok hr w)))"
proof (cases ev)
  case (LoopEvent e)
  then obtain ph where l: "loop_step env e (cw_loop c, w) = Some (ph, w1)" "c1 = adopt c ph"
    using step by (auto split: if_splits)
  then have "cw_loop c1 = ph" by (cases ph) (simp_all add: adopt_def)
  then show ?thesis using step_moved [OF l(1)] by simp
next
  case (JobBegins k)
  then obtain r where b: "begin_task (le_srv env) de ot (snd (started (cw_loop c) ! k)) (le_worker_id env)
      (le_switch_timeout env) w = (r, w1)" and "cw_loop c1 = cw_loop c"
    using step by (auto split: if_splits prod.splits)
  then show ?thesis using movedI [OF begin_moves [OF b]] by simp
next
  case (JobGoesOn k e)
  then obtain job tok s s1 where k: "k < length (cw_jobs c)" "cw_jobs c ! k = Handling job tok s"
    and j: "job_step (le_srv env) ser (wj_task_id job) (le_worker_id env) tok e (s, w) = Some (s1, w1)"
    and c1: "c1 = go_on k job tok s1 c"
    using step by (auto split: if_splits job_status.splits)
  have "cw_loop c1 = cw_loop c" by (cases "js_phase s1") (simp_all add: c1 go_on_def)
  then show ?thesis
    using job_moves [OF j] movedI [of env w "[]" w1 "started (cw_loop c)"] k JobGoesOn by auto
next
  case (JobEnds k)
  then have "loop_step env (TaskEnds k) (cw_loop c, w) = Some (cw_loop c1, w1)"
    using step by (auto simp del: loop_step.simps split: if_splits)
  from step_moved [OF this] show ?thesis by simp
next
  case (StrayGoesOn k e)
  then obtain tid tok s s1 where k: "k < length (cw_strays c)" "cw_strays c ! k = (tid, tok, s)"
    and j: "job_step (le_srv env) ser tid (le_worker_id env) tok e (s, w) = Some (s1, w1)"
    and c1: "cw_loop c1 = cw_loop c"
    using step by (auto split: if_splits prod.splits)
  have "stray_ok (tid, tok, s)" using ok k nth_mem by (fastforce simp: crew_ok_def list_all_iff)
  then show ?thesis using job_moves [OF j] movedI c1 by (auto simp: stray_ok_def)
qed

context token_source
begin

lemma moved_true:
  assumes env: "token_worker env" and ok: "coll_ok (docs w)" and issued: "tokens_issued w"
    and moved: "moved env js w js1 w1" and claims: "\<forall>x\<in>set js. claim_true (le_worker_id env) (snd x) w"
  shows "fresh_run w w1 \<and> (\<forall>x\<in>set js1. claim_true (le_worker_id env) (snd x) w1)"
proof -
  obtain ds where ds: "moves env w ds w1" "takes_up js ds js1" using moved by (auto simp: moved_def)
  note f = moves_fresh [OF env ds(1) ok issued]
  have "claim_true (le_worker_id env) (snd x) w1" if "x \<in> set js1" for x
  proof -
    have "snd x \<in> snd ` set js \<or> snd x \<in> set ds" using ds(2) that by (auto simp: takes_up_def)
    then show ?thesis
      using f claims claim_true_run [of w w1] by auto
  qed
  then show ?thesis using f by blast
qed

lemma moved_results:
  assumes "token_worker env" and "coll_ok (docs w)" and "moved env js w js1 w1"
    and kept: "results_kept de ser post rely" and "results_meet de ser post (docs w)"
  shows "results_meet de ser post (docs w1)"
  using assms(1-3,5)
    worker_server.moves_kept [where R = "\<lambda>D D'. results_meet de ser post D \<longrightarrow> results_meet de ser post D'",
      OF _ results_meet_quiet [OF kept]]
  by (fastforce simp: moved_def token_worker_def)

text \<open>What holds of a worker whose started tasks are true claims.\<close>

definition crew_true :: "'w loop_env \<Rightarrow> 'i crew \<Rightarrow> 'w \<Rightarrow> bool" where
  "crew_true env c w \<longleftrightarrow> (\<forall>x\<in>set (started (cw_loop c)). claim_true (le_worker_id env) (snd x) w)"

lemma crew_true_run: "fresh_run w w1 \<Longrightarrow> crew_true env c w \<Longrightarrow> crew_true env c w1"
  using claim_true_run by (auto simp: crew_true_def)

lemma crew_start_true:
  assumes env: "token_worker env" and start: "crew_start env m w = (c, w1)"
    and ok: "coll_ok (docs w)" and issued: "tokens_issued w"
    and kept: "results_kept de ser post rely" and meets: "results_meet de ser post (docs w)"
  shows "fresh_run w w1 \<and> crew_true env c w1 \<and> results_meet de ser post (docs w1)"
proof -
  have m: "moved env [] w (started (cw_loop c)) w1"
    using start connect_moved by (fastforce simp: crew_start_def worker_loop_start_def pool_new_def split: prod.splits)
  then show ?thesis
    using moved_true [OF env ok issued m] moved_results [OF env ok m kept meets] by (simp add: crew_true_def)
qed

lemma crew_step_true:
  assumes env: "token_worker env" and step: "crew_step env de ot ser ev (c, w) = Some (c1, w1)"
    and crew: "crew_ok m de c" "crew_true env c w" and ok: "coll_ok (docs w)" and issued: "tokens_issued w"
    and kept: "results_kept de ser post rely" and meets: "results_meet de ser post (docs w)"
    and good: "\<And>k job tok s out. ev = JobGoesOn k (HandlerReturns (Inr out)) \<Longrightarrow> k < length (cw_jobs c) \<Longrightarrow>
      cw_jobs c ! k = Handling job tok s \<Longrightarrow> post (wj_payload job) out"
  shows "fresh_run w w1 \<and> crew_true env c1 w1 \<and> results_meet de ser post (docs w1)"
proof -
  have env1: "worker_server qmatch agg upd ins env docs rely le uniq" "le_srv env = srv"
    using env by (simp_all add: token_worker_def)
  show ?thesis using crew_moved [OF step crew(1)]
  proof (elim disjE conjE exE)
    assume m: "moved env (started (cw_loop c)) w (started (cw_loop c1)) w1"
    then show ?thesis
      using moved_true [OF env ok issued m] moved_results [OF env ok m kept meets] crew(2) by (simp add: crew_true_def)
  next
    fix k job tok s hr
    assume same: "started (cw_loop c1) = started (cw_loop c)" and ev: "ev = JobGoesOn k (HandlerReturns hr)"
      and k: "k < length (cw_jobs c)" "cw_jobs c ! k = Handling job tok s"
      and "w1 = snd (finish_task (le_srv env) ser (wj_task_id job) (le_worker_id env) tok hr w)"
    then obtain r where f: "finish_task srv ser (wj_task_id job) (le_worker_id env) tok hr w = (r, w1)"
      using env1(2) by (metis prod.collapse)
    have jobs: "list_all2 (job_ok de) (started (cw_loop c)) (cw_jobs c)" using crew(1) by (simp add: crew_ok_def)
    let ?d = "snd (started (cw_loop c) ! k)"
    have "job_ok de (started (cw_loop c) ! k) (Handling job tok s)" using list_all2_nthD2 [OF jobs k(1)] k(2) by simp
    then have job: "tok = claim_token_in ?d" "Option.bind (doc_get ?d ''task_input'') de = Some (wj_payload job)"
      by (simp_all add: job_ok_def)
    have "claim_true (le_worker_id env) ?d w"
      using crew(2) k(1) list_all2_lengthD [OF jobs] by (simp add: crew_true_def)
    then have "results_meet de ser post (docs w1)"
      using completion_meets [OF ok kept meets _ job(2) _ f [unfolded job(1)]] good [OF _ k] ev by blast
    moreover have run: "fresh_run w w1"
      using call_fresh [OF ok, of ser "Complete (wj_task_id job) (le_worker_id env) tok hr"] f by simp
    moreover have "crew_true env c1 w" using crew(2) same by (simp add: crew_true_def)
    ultimately show ?thesis using crew_true_run [OF run] by blast
  qed
qed

end

section \<open>The steps of a fleet\<close>

text \<open>A handler that returns an output keeps to the specification.\<close>

definition keeps_to ::
  "('i \<Rightarrow> 'o \<Rightarrow> bool) \<Rightarrow> ('w, 'o) fleet_event \<Rightarrow> ('w, 'i) member list \<times> 'w \<Rightarrow> bool" where
  "keeps_to post ev mw \<longleftrightarrow>
     (\<forall>k j out job tok s. ev = Member k (JobGoesOn j (HandlerReturns (Inr out))) \<longrightarrow>
        runs_handler (fst mw) k j job tok s \<longrightarrow> post (wj_payload job) out)"

context token_source
begin

definition fleet_true ::
  "(bson \<Rightarrow> 'i option) \<Rightarrow> ('o \<Rightarrow> bson option) \<Rightarrow> ('i \<Rightarrow> 'o \<Rightarrow> bool) \<Rightarrow> ('w, 'i) member list \<Rightarrow> 'w \<Rightarrow> bool" where
  "fleet_true de ser post ms w \<longleftrightarrow>
     coll_ok (docs w) \<and> tokens_issued w \<and> results_meet de ser post (docs w) \<and>
     (\<forall>mb\<in>set ms. token_worker (mb_env mb) \<and> crew_ok (mb_max mb) de (mb_crew mb) \<and> crew_true (mb_env mb) (mb_crew mb) w)"

lemma fleet_true_run:
  assumes "fleet_true de ser post ms w" and "fresh_run w w1" and "coll_ok (docs w1)" and "results_meet de ser post (docs w1)"
    and "\<forall>mb\<in>set ms1. mb \<in> set ms \<or>
      token_worker (mb_env mb) \<and> crew_ok (mb_max mb) de (mb_crew mb) \<and> crew_true (mb_env mb) (mb_crew mb) w1"
  shows "fleet_true de ser post ms1 w1"
  using assms tokens_issued_run crew_true_run unfolding fleet_true_def by blast

lemma fleet_step_true:
  assumes kept: "results_kept de ser post rely" and ok: "fleet_true de ser post ms w"
    and joins: "\<forall>env\<in>set (joined [ev]). token_worker env" and good: "keeps_to post ev (ms, w)"
    and step: "fleet_step srv de ot ser ev (ms, w) = Some (ms1, w1)"
  shows "fleet_true de ser post ms1 w1"
proof -
  have w: "coll_ok (docs w)" "tokens_issued w" "results_meet de ser post (docs w)"
    using ok by (simp_all add: fleet_true_def)
  show ?thesis
  proof (cases ev)
    case (Joins env m)
    then obtain c where c: "crew_start env m w = (c, w1)"
      and ms1: "ms1 = ms @ [\<lparr>mb_env = env, mb_max = m, mb_crew = c\<rparr>]"
      using step by (auto split: prod.splits)
    have env: "token_worker env" using joins Joins by simp
    then have ws: "worker_server qmatch agg upd ins env docs rely le uniq" by (simp add: token_worker_def)
    note s = crew_start_true [OF env c w(1,2) kept w(3)]
    have "crew_ok m de c \<and> coll_ok (docs w1)"
      using worker_server.crew_start_ok [OF ws worker_server.guaranteed_True [OF ws] c w(1)] by simp
    then show ?thesis using s env ms1 by (intro fleet_true_run [OF ok]) auto
  next
    case (Member k e)
    then obtain c where k: "k < length ms"
      and c: "crew_step (mb_env (ms ! k)) de ot ser e (mb_crew (ms ! k), w) = Some (c, w1)"
      and ms1: "ms1 = ms[k := (ms ! k)\<lparr>mb_crew := c\<rparr>]"
      using step by (auto split: if_splits)
    have mb: "token_worker (mb_env (ms ! k))" "crew_ok (mb_max (ms ! k)) de (mb_crew (ms ! k))"
      "crew_true (mb_env (ms ! k)) (mb_crew (ms ! k)) w"
      using ok nth_mem [OF k] by (simp_all add: fleet_true_def)
    then have ws: "worker_server qmatch agg upd ins (mb_env (ms ! k)) docs rely le uniq" by (simp add: token_worker_def)
    have post: "post (wj_payload job) out"
      if "e = JobGoesOn j (HandlerReturns (Inr out))" "j < length (cw_jobs (mb_crew (ms ! k)))"
        "cw_jobs (mb_crew (ms ! k)) ! j = Handling job tok s" for j job tok s out
      using good Member that k unfolding keeps_to_def runs_handler_def by fastforce
    note s = crew_step_true [OF mb(1) c mb(2,3) w(1,2) kept w(3) post]
    have "crew_ok (mb_max (ms ! k)) de c \<and> coll_ok (docs w1)"
      using worker_server.crew_step_ok [OF ws worker_server.guaranteed_True [OF ws] c mb(2) w(1)] by simp
    moreover have "set ms1 \<subseteq> insert ((ms ! k)\<lparr>mb_crew := c\<rparr>) (set ms)"
      unfolding ms1 by (rule set_update_subset_insert)
    ultimately show ?thesis using s mb(1) by (intro fleet_true_run [OF ok]) auto
  next
    case (Dies k)
    then have "w1 = w" "set ms1 \<subseteq> set ms"
      using step by (auto split: if_splits dest: in_set_takeD in_set_dropD)
    then show ?thesis using ok by (auto simp: fleet_true_def)
  next
    case (Calls c)
    then have c: "w1 = exec_call srv ser c w" "ms1 = ms" "caller_call c" using step by (auto split: if_splits)
    have "no_result a" if "may_take srv c w a" for a using that c(3) by (cases c; cases a) (auto simp: no_result_def)
    then have "results_meet de ser post (docs w1) \<and> coll_ok (docs w1)"
      using call_kept [OF results_meet_kept [OF kept] w(1), of c ser] w(3) c(1) by blast
    then show ?thesis using call_fresh [OF w(1), of ser c] c(1,2) by (intro fleet_true_run [OF ok]) auto
  qed
qed

lemma fleet_run_true:
  assumes kept: "results_kept de ser post rely"
  shows "fleet_run srv de ot ser evs (ms, w) = Some (ms1, w1) \<Longrightarrow> fleet_true de ser post ms w \<Longrightarrow>
    \<forall>env\<in>set (joined evs). token_worker env \<Longrightarrow> along (keeps_to post) srv de ot ser evs (ms, w) \<Longrightarrow>
    fleet_true de ser post ms1 w1"
proof (induction evs arbitrary: ms w)
  case (Cons ev evs)
  obtain ms2 w2 where s: "fleet_step srv de ot ser ev (ms, w) = Some (ms2, w2)"
    and r: "fleet_run srv de ot ser evs (ms2, w2) = Some (ms1, w1)"
    by (rule fleet_run_Cons [OF Cons.prems(1)])
  have a: "keeps_to post ev (ms, w)" "along (keeps_to post) srv de ot ser evs (ms2, w2)"
    using Cons.prems(4) s by (simp_all del: fleet_step.simps)
  have j: "\<forall>env\<in>set (joined [ev]). token_worker env" "\<forall>env\<in>set (joined evs). token_worker env"
    using Cons.prems(3) unfolding joined_Cons [of ev evs] by simp_all
  show ?case using Cons.IH [OF r fleet_step_true [OF kept Cons.prems(2) j(1) a(1) s] j(2) a(2)] .
qed simp

end

section \<open>The request of a caller\<close>

text \<open>The task of a request is there, with its payload.\<close>

definition request_at :: "object_id \<Rightarrow> string \<Rightarrow> bson \<Rightarrow> collection \<Rightarrow> bool" where
  "request_at i tid p D \<longleftrightarrow>
     (\<exists>d. D i = Some d \<and> task_id_of d = Some tid \<and> doc_get d ''task_input'' = Some p \<and> status_of d \<noteq> None)"

lemma request_at_step:
  assumes "task_step D a D'" and "a \<noteq> ResetTask i" and "request_at i tid p D"
  shows "request_at i tid p D'"
proof -
  obtain d where d: "D i = Some d" "task_id_of d = Some tid" "doc_get d ''task_input'' = Some p" "status_of d \<noteq> None"
    using assms(3) by (auto simp: request_at_def)
  obtain d' where "D' i = Some d'" "task_id_of d' = Some tid" "doc_get d' ''task_input'' = Some p"
    "d' = d \<or> status_arrow (status_of d) (status_of d')"
    using step_on_document [OF assms(1) d(1)] assms(2) d(2,3) by (auto simp: same_task_def)
  then show ?thesis using d(4) by (auto simp: request_at_def status_arrow_def)
qed

text \<open>A fleet goes on from one state to another: its handlers keep to \<open>post\<close>, its callers' calls satisfy \<open>C\<close>.\<close>

definition goes_on ::
  "('o call \<Rightarrow> 'w \<Rightarrow> bool) \<Rightarrow> ('i \<Rightarrow> 'o \<Rightarrow> bool) \<Rightarrow> ('w loop_env \<Rightarrow> bool) \<Rightarrow> 'w server \<Rightarrow> (bson \<Rightarrow> 'i option) \<Rightarrow>
   ('t, 's, 'st) otel \<Rightarrow> ('o \<Rightarrow> bson option) \<Rightarrow> ('w, 'i) member list \<times> 'w \<Rightarrow> ('w, 'i) member list \<times> 'w \<Rightarrow> bool" where
  "goes_on C post good srv de ot ser mw mw' \<longleftrightarrow>
     (\<exists>evs. (\<forall>env\<in>set (joined evs). good env) \<and> fleet_run srv de ot ser evs mw = Some mw' \<and>
        along (keeps_to post) srv de ot ser evs mw \<and> calls_allowed C srv de ot ser evs mw)"

lemma inspect_world: "snd (inspect_task srv de tid w) = snd (sv_find_one srv [(''task_id'', BString tid)] w)"
  by (simp add: inspect_task_def split: prod.split sum.split option.split)

lemma wait_world: "snd (wait_for_result srv open_stream de tid w) = exec_call srv ser (Inspect tid) w"
  using inspect_world [of srv de tid w] inspect_world [of srv Some tid w]
  by (auto simp: wait_for_result_def split: prod.split sum.split option.split)

context token_source
begin

lemma goes_on_true:
  assumes kept: "results_kept de ser post rely" "unique_kept rely" and "uniq"
    and run: "goes_on C post token_worker srv de ot ser (ms, w) (ms1, w1)"
    and start: "fleet_true de ser post ms w" "ids_unique (docs w)"
  shows "fleet_true de ser post ms1 w1 \<and> ids_unique (docs w1)"
proof -
  obtain evs where evs: "\<forall>env\<in>set (joined evs). token_worker env" "fleet_run srv de ot ser evs (ms, w) = Some (ms1, w1)"
    "along (keeps_to post) srv de ot ser evs (ms, w)"
    using run by (auto simp: goes_on_def)
  have "list_all (member_ok shares de) ms" "coll_ok (docs w)" "\<forall>env\<in>set (joined evs). shares env"
    using start(1) evs(1) by (auto simp: fleet_true_def list_all_iff member_ok_def token_worker_def)
  then show ?thesis
    using fleet_run_true [OF kept(1) evs(2) start(1) evs(1,3)] start(2)
      fleet_run_ok [OF unique_respected [OF kept(2) assms(3)] evs(2) calls_allowed_True] by simp
qed

lemma goes_on_request:
  assumes others: "\<And>D D'. rely D D' \<Longrightarrow> follows (\<lambda>a. a \<noteq> ResetTask i) D D'"
    and run: "goes_on (spares_task srv tid) post token_worker srv de ot ser (ms, w) (ms1, w1)"
    and start: "fleet_true de ser post ms w" "request_at i tid p (docs w)"
  shows "request_at i tid p (docs w1)"
proof -
  obtain evs where evs: "\<forall>env\<in>set (joined evs). token_worker env" "fleet_run srv de ot ser evs (ms, w) = Some (ms1, w1)"
    "calls_allowed (spares_task srv tid) srv de ot ser evs (ms, w)"
    using run by (auto simp: goes_on_def)
  have start1: "list_all (member_ok shares de) ms" "coll_ok (docs w)" "\<forall>env\<in>set (joined evs). shares env \<and> le_worker_id env \<in> UNIV"
    using start(1) evs(1) by (auto simp: fleet_true_def list_all_iff member_ok_def token_worker_def)
  have "respected ser UNIV (spares_task srv tid) (\<lambda>D D'. request_at i tid p D \<longrightarrow> request_at i tid p D')"
    by (rule respected_spares [OF others request_at_step]) (auto simp: request_at_def)
  from fleet_run_ok [OF this evs(2,3) start1(3,1,2)] show ?thesis using start(2) by simp
qed

text \<open>An answer that a document gives is the output of a handler for its input.\<close>

lemma recorded_answer:
  assumes "recorded de ser post d" and "doc_get d ''task_input'' = Some p" and "answers_from de_out (Inr z) d"
  shows "\<exists>x y v. de p = Some x \<and> post x y \<and> ser y = Some v \<and> de_out v = Some z"
proof -
  obtain x y v where "de p = Some x" "post x y" "ser y = Some v" "doc_get d ''task_output'' = Some v"
    using assms(1,2) by (auto simp: recorded_def)
  then show ?thesis using assms(3) by (auto simp: answers_from_def intro!: exI [of _ y])
qed

lemma answer_is_computed:
  assumes "uniq" and kept: "results_kept de ser post rely" "unique_kept rely"
    and others: "\<And>D D'. rely D D' \<Longrightarrow> follows (\<lambda>a. a \<noteq> ResetTask i) D D'"
    and state: "fleet_true de ser post ms w" "ids_unique (docs w)" "request_at i tid p (docs w)"
    and answer: "await_response srv open_stream de_out tid w = (Some (Inr z), w1)"
    and reported: "\<And>s d. open_stream (result_pipeline tid) = Inr s \<Longrightarrow> delivered s d \<Longrightarrow>
      \<exists>ms2 w2. goes_on (spares_task srv tid) post token_worker srv de ot ser (ms, w1) (ms2, w2) \<and> docs w2 i = Some d"
  shows "\<exists>x y v. de p = Some x \<and> post x y \<and> ser y = Some v \<and> de_out v = Some z"
proof -
  have wait: "wait_for_result srv open_stream de_out tid w = (Some (Inr z), w1)"
    using answer by (simp add: await_response_def)
  have "goes_on (spares_task srv tid) post token_worker srv de ot ser (ms, w) (ms, w1)"
    unfolding goes_on_def
    by (rule exI [of _ "[Calls (Inspect tid)]"])
      (use wait_world [of srv open_stream de_out tid w ser] wait in \<open>auto simp: keeps_to_def allows_def\<close>)
  note state1 = goes_on_true [OF kept assms(1) this state(1,2)] goes_on_request [OF others this state(1,3)]
  have meets: "recorded de ser post d"
    if "fleet_true de ser post ms' w'" "docs w' j = Some d" "status_of d = Some ''succeeded''" for ms' w' j d
    using that by (auto simp: fleet_true_def results_meet_def)
  have from_doc: ?thesis
    if "fleet_true de ser post ms' w'" "request_at i tid p (docs w')" "docs w' i = Some d" "answers_from de_out (Inr z) d"
    for ms' w' d
    using that meets recorded_answer [of de ser post d p de_out z] by (auto simp: request_at_def answers_from_def)
  have ok: "coll_ok (docs w)" using state(1) by (simp add: fleet_true_def)
  consider j d where "docs w1 j = Some d" "task_id_of d = Some tid" "answers_from de_out (Inr z) d"
    | s d where "open_stream (result_pipeline tid) = Inr s" "delivered s d" "answers_from de_out (Inr z) d"
    using answer_sources [OF mongo_server_axioms ok wait] by auto
  then show ?thesis
  proof cases
    case 1
    then have "j = i" using state1 unfolding request_at_def ids_unique_def by metis
    then show ?thesis using from_doc state1 1 by blast
  next
    case 2
    obtain ms2 w2 where go: "goes_on (spares_task srv tid) post token_worker srv de ot ser (ms, w1) (ms2, w2)"
      and d: "docs w2 i = Some d"
      using reported [OF 2(1,2)] by blast
    then show ?thesis
      using from_doc goes_on_true [OF kept assms(1) go] goes_on_request [OF others go] state1 2(3) by blast
  qed
qed

text \<open>From the request to its answer.\<close>

lemma request_computed:
  assumes "uniq" and kept: "results_kept de ser post rely" "unique_kept rely"
    and others: "\<And>D D'. rely D D' \<Longrightarrow> follows (\<lambda>a. a \<noteq> ResetTask i) D D'"
    and state: "fleet_true de ser post ms w" "ids_unique (docs w)"
    and enqueue: "enqueue_only srv b w = (Inr oc, w2)" and task: "docs w2 i = Some d" "task_id_of d = Some (eo_task_id oc)"
    and after: "goes_on (spares_task srv (eo_task_id oc)) post token_worker srv de ot ser (ms, w2) (ms3, w3)"
    and answer: "await_response srv open_stream de_out (eo_task_id oc) w3 = (Some (Inr z), w4)"
    and reported: "\<And>s d. open_stream (result_pipeline (eo_task_id oc)) = Inr s \<Longrightarrow> delivered s d \<Longrightarrow>
      \<exists>ms5 w5. goes_on (spares_task srv (eo_task_id oc)) post token_worker srv de ot ser (ms3, w4) (ms5, w5) \<and>
        docs w5 i = Some d"
  shows "\<exists>p x y v. sb_payload b = Some p \<and> de p = Some x \<and> post x y \<and> ser y = Some v \<and> de_out v = Some z"
proof -
  let ?tid = "eo_task_id oc"
  have ok: "coll_ok (docs w)" using state(1) by (simp add: fleet_true_def)
  have step: "fleet_step srv de ot ser (Calls (Enqueue b)) (ms, w) = Some (ms, w2)" using enqueue by simp
  have w2: "fleet_true de ser post ms w2"
    by (rule fleet_step_true [OF kept(1) state(1) _ _ step]) (simp_all add: keeps_to_def)
  have unique: "ids_unique (docs w2)"
    using call_unique [OF kept(2) assms(1) ok state(2), of ser "Enqueue b"] enqueue by simp
  obtain p j e where p: "sb_payload b = Some p" "docs w2 j = Some e" "task_id_of e = Some ?tid"
    "doc_get e ''task_input'' = Some p" "status_of e = Some ''pending''"
    using enqueued_doc [OF enqueue ok] by blast
  have "j = i" using unique task p(2,3) unfolding ids_unique_def by blast
  then have request: "request_at i ?tid p (docs w2)" using p(2-5) by (auto simp: request_at_def)
  note w3 = goes_on_true [OF kept assms(1) after w2 unique] goes_on_request [OF others after w2 request]
  have "\<exists>x y v. de p = Some x \<and> post x y \<and> ser y = Some v \<and> de_out v = Some z"
    by (rule answer_is_computed [OF assms(1) kept _ _ _ w3(2) answer]) (use others w3(1) reported in blast)+
  then show ?thesis using p(1) by blast
qed

end

section \<open>The handlers of a fleet\<close>

text \<open>Every handler that returns has computed \<open>h\<close>.\<close>

definition handlers_are ::
  "('i worker_job \<Rightarrow> request_error + 'o) \<Rightarrow> ('w, 'o) fleet_event \<Rightarrow> ('w, 'i) member list \<times> 'w \<Rightarrow> bool" where
  "handlers_are h ev mw \<longleftrightarrow>
     (\<forall>k j hr job tok s. ev = Member k (JobGoesOn j (HandlerReturns hr)) \<longrightarrow>
        runs_handler (fst mw) k j job tok s \<longrightarrow> hr = h job)"

lemma handlers_keep_to:
  "handlers_are h ev mw \<Longrightarrow> (\<And>job out. h job = Inr out \<Longrightarrow> post (wj_payload job) out) \<Longrightarrow> keeps_to post ev mw"
  unfolding handlers_are_def keeps_to_def by metis

lemma along_mono:
  "along P srv de ot ser evs mw \<Longrightarrow> (\<And>ev mw. P ev mw \<Longrightarrow> Q ev mw) \<Longrightarrow> along Q srv de ot ser evs mw"
  by (induction evs arbitrary: mw) (auto split: option.splits)

text \<open>A fleet that runs the example's handler, without other calls of the caller.\<close>

definition example_goes_on ::
  "('w loop_env \<Rightarrow> bool) \<Rightarrow> 'w server \<Rightarrow> (bson \<Rightarrow> length_request option) \<Rightarrow> ('t, 's, 'st) otel \<Rightarrow>
   (length_response \<Rightarrow> bson option) \<Rightarrow> ('w, length_request) member list \<times> 'w \<Rightarrow>
   ('w, length_request) member list \<times> 'w \<Rightarrow> bool" where
  "example_goes_on good srv de ot ser mw mw' \<longleftrightarrow>
     (\<exists>evs. (\<forall>env\<in>set (joined evs). good env) \<and> fleet_run srv de ot ser evs mw = Some mw' \<and>
        along (\<lambda>ev mw. handlers_are length_handler ev mw \<and> allows (\<lambda>c w. False) ev mw) srv de ot ser evs mw)"

lemma example_goes_on:
  assumes "example_goes_on good srv de ot ser mw mw'"
  shows "goes_on C has_length good srv de ot ser mw mw'"
proof -
  obtain evs where evs: "\<forall>env\<in>set (joined evs). good env" "fleet_run srv de ot ser evs mw = Some mw'"
    and along: "along (\<lambda>ev mw. handlers_are length_handler ev mw \<and> allows (\<lambda>c w. False) ev mw) srv de ot ser evs mw"
    using assms by (auto simp: example_goes_on_def)
  have "along (keeps_to has_length) srv de ot ser evs mw"
    by (rule along_mono [OF along]) (use handlers_keep_to length_handler_has_length in blast)
  moreover have "calls_allowed C srv de ot ser evs mw"
    by (rule along_mono [OF along]) (auto simp: allows_def split: fleet_event.splits)
  ultimately show ?thesis using evs by (auto simp: goes_on_def)
qed

text \<open>
  A sample run of the example: the request, a claim, the start of its job, the completion, and the caller's wait.
\<close>

abbreviation no_span :: "(string, string, unit) span_context" where
  "no_span \<equiv> \<lparr>sc_trace_id = [], sc_span_id = [], sc_trace_flags = 0, sc_is_remote = False, sc_trace_state = ()\<rparr>"

definition length_send :: send_builder where
  "length_send = send demo_ser_request demo_otel no_span example_cfg example_request"

lemma length_send_sel:
  "length_send = \<lparr>sb_config = example_cfg, sb_payload = demo_ser_request example_request, sb_payload_err = None,
     sb_timeout = None, sb_worker_switch_timeout = None, sb_idempotency_key = None, sb_reset_when = None,
     sb_trace_context = None\<rparr>"
  by (simp add: length_send_def send_def demo_ser_request_def capture_current_def from_span_context_def demo_otel_def)

lemma length_calls:
  assumes "demo_ser_request example_request = Some p" and "demo_ser_response y = Some v"
    and "demo_de_request p = Some x" and "demo_de_response v = Some y"
  shows "\<exists>w1 w2 d tok lease w3 w4 w5.
     enqueue_only ref_server length_send (ref_world_of [] 5000) =
       (Inr \<lparr>eo_task_id = ''uuid-'', eo_action = Inserted\<rparr>, w1) \<and>
     (\<exists>d1. ref_docs w1 (ObjectId 1) = Some d1 \<and> task_id_of d1 = Some ''uuid-'') \<and>
     (\<forall>t. \<exists>t1. refresh_running_expirations ref_server (from_secs 10) t w1 = (t1, w1)) \<and>
     (\<forall>t. \<exists>t1. refresh_pending_tasks ref_server t w1 = (t1, w1)) \<and>
     (\<forall>t. claim_round ref_server sorted_list_of_fset ''w1'' (from_secs 10) Ready None (pool_new 1) t w1 =
        (True, \<lparr>in_flight = {|''uuid-''|}, permits = 0, join_set = [(''uuid-'', d)]\<rparr>,
          schedule_expiration_from_task d (from_secs 10) t, w2)) \<and>
     begin_task ref_server demo_de_request demo_otel d ''w1'' (from_secs 10) w2 =
       (Inr (\<lparr>wj_task_id = ''uuid-'', wj_trace_context = None, wj_payload = x\<rparr>, tok, lease), w3) \<and>
     finish_task ref_server demo_ser_response ''uuid-'' ''w1'' tok (Inr y) w3 = (Inr (), w4) \<and>
     await_response ref_server (\<lambda>p. Inr \<lparr>rs_events = [], rs_closed = False\<rparr>) demo_de_response ''uuid-'' w4 =
       (Some (Inr y), w5)"
  using assms
  by (simp add: enqueue_only_def upsert_task_def length_send_sel example_cfg_def switch_timeout_for_def
      effective_reset_predicate_def enqueue_filter_def enqueue_update_def
      claim_round_def pool_new_def try_acquire_def spawn_claimed_task_def
      registry_snapshot_def registry_insert_def task_id_or_default_def
      claim_next_task_def ready_filters_def claim_with_filter_def claim_update_def
      begin_task_def setup_task_def claim_token_in_def finish_task_def held_filter_def heartbeat_def
      refresh_running_expirations_def refresh_pending_tasks_def
      await_response_def wait_for_result_def inspect_task_def evaluate_document_def task_id_of_def Let_def ref_eval)

abbreviation length_answer :: length_response where
  "length_answer \<equiv> \<lparr>lr_length = length (lq_text example_request)\<rparr>"

definition length_events :: "(ref_world, length_response) fleet_event list" where
  "length_events =
     (Joins demo_env 1 # map (Member 0) demo_begins) @ [Member 0 (JobGoesOn 0 (HandlerReturns (Inr length_answer)))]"

lemma length_events_joined [simp]: "joined length_events = [demo_env]"
  by (simp add: length_events_def demo_begins_def)

abbreviation length_fleet ::
  "(ref_world, length_response) fleet_event list \<Rightarrow> (ref_world, length_request) member list \<times> ref_world \<Rightarrow>
   ((ref_world, length_request) member list \<times> ref_world) option" where
  "length_fleet \<equiv> fleet_run ref_server demo_de_request demo_otel demo_ser_response"

abbreviation length_handled ::
  "(ref_world, length_response) fleet_event \<Rightarrow> (ref_world, length_request) member list \<times> ref_world \<Rightarrow> bool" where
  "length_handled ev mw \<equiv> handlers_are length_handler ev mw \<and> allows (\<lambda>c w. False) ev mw"

abbreviation length_await :: "string \<Rightarrow> ref_world \<Rightarrow> (request_error + length_response) option \<times> ref_world" where
  "length_await \<equiv> await_response ref_server (\<lambda>p. Inr \<lparr>rs_events = [], rs_closed = False\<rparr>) demo_de_response"

lemma along_after:
  "fleet_run srv de ot ser as mw = Some mw1 \<Longrightarrow> (\<And>ev mw. ev \<in> set as \<Longrightarrow> P ev mw) \<Longrightarrow>
    along P srv de ot ser (as @ bs) mw \<longleftrightarrow> along P srv de ot ser bs mw1"
proof (induction as arbitrary: mw)
  case (Cons ev as)
  then show ?case by (cases "fleet_step srv de ot ser ev mw") simp_all
qed simp

lemma length_run:
  "\<exists>w1 ms w4 w5. enqueue_only ref_server length_send (ref_world_of [] 5000) =
       (Inr \<lparr>eo_task_id = ''uuid-'', eo_action = Inserted\<rparr>, w1) \<and>
     (\<exists>d1. ref_docs w1 (ObjectId 1) = Some d1 \<and> task_id_of d1 = Some ''uuid-'') \<and>
     length_fleet length_events ([], w1) = Some (ms, w4) \<and>
     along length_handled ref_server demo_de_request demo_otel demo_ser_response length_events ([], w1) \<and>
     length_await ''uuid-'' w4 = (Some (Inr length_answer), w5)"
proof -
  let ?job = "\<lparr>wj_task_id = ''uuid-'', wj_trace_context = None, wj_payload = example_request\<rparr>"
  obtain p where p: "demo_ser_request example_request = Some p" by (simp add: demo_ser_request_def)
  obtain v where v: "demo_ser_response length_answer = Some v" by (simp add: demo_ser_response_def example_request_def)
  note calls = length_calls [OF p v demo_serde(1) [OF p] demo_serde(2) [OF v]]
  obtain w1 w2 d tok lease w3 w4 w5 where enqueue: "enqueue_only ref_server length_send (ref_world_of [] 5000) =
      (Inr \<lparr>eo_task_id = ''uuid-'', eo_action = Inserted\<rparr>, w1)"
    and doc: "\<exists>d1. ref_docs w1 (ObjectId 1) = Some d1 \<and> task_id_of d1 = Some ''uuid-''"
    and scans: "\<And>t. \<exists>t1. refresh_running_expirations ref_server (from_secs 10) t w1 = (t1, w1)"
      "\<And>t. \<exists>t1. refresh_pending_tasks ref_server t w1 = (t1, w1)"
    and pump: "\<And>t. claim_round ref_server sorted_list_of_fset ''w1'' (from_secs 10) Ready None (pool_new 1) t w1 =
      (True, \<lparr>in_flight = {|''uuid-''|}, permits = 0, join_set = [(''uuid-'', d)]\<rparr>,
        schedule_expiration_from_task d (from_secs 10) t, w2)"
    and start: "begin_task ref_server demo_de_request demo_otel d ''w1'' (from_secs 10) w2 = (Inr (?job, tok, lease), w3)"
    and finish: "finish_task ref_server demo_ser_response ''uuid-'' ''w1'' tok (Inr length_answer) w3 = (Inr (), w4)"
    and answer: "length_await ''uuid-'' w4 = (Some (Inr length_answer), w5)"
    using calls by blast
  obtain c0 c pl s where crew: "crew_start demo_env 1 w1 = (c0, w1)"
    "crew_run demo_env demo_de_request demo_otel demo_ser_response demo_begins (c0, w1) = Some (c, w3)"
    and job: "js_phase s = HandlerRunning" "cw_jobs c = [Handling ?job tok s]"
    using demo_crew_start [OF scans pump start, where ser = demo_ser_response] by blast
  let ?begins = "Joins demo_env 1 # map (Member 0) demo_begins" and ?ret = "Member 0 (JobGoesOn 0 (HandlerReturns (Inr length_answer)))"
  let ?crew = "\<lambda>c. [\<lparr>mb_env = demo_env, mb_max = 1, mb_crew = c\<rparr>]"
  have begins: "length_fleet ?begins ([], w1) = Some (?crew c, w3)"
    using crew member_run [of 0 "?crew c0"] by simp
  obtain ms where returns: "fleet_step ref_server demo_de_request demo_otel demo_ser_response ?ret (?crew c, w3) = Some (ms, w4)"
    using job finish by (simp add: demo_env_sel job_step_def)
  have run: "length_fleet length_events ([], w1) = Some (ms, w4)"
    unfolding length_events_def fleet_run_append begins by (simp add: returns del: fleet_step.simps One_nat_def)
  have "length_handler job = Inr length_answer" if "runs_handler (?crew c) 0 0 job tok' s'" for job tok' s'
    using that job(2) by (auto simp: runs_handler_def length_handler_def)
  then have "length_handled ?ret (?crew c, w3)" by (simp add: handlers_are_def allows_def)
  moreover have "length_handled ev mw" if "ev \<in> set ?begins" for ev mw
    using that by (auto simp: handlers_are_def allows_def demo_begins_def)
  ultimately have handled: "along length_handled ref_server demo_de_request demo_otel demo_ser_response length_events ([], w1)"
    unfolding length_events_def by (subst along_after [OF begins]) (simp_all add: returns del: fleet_step.simps One_nat_def)
  show ?thesis using enqueue doc run handled answer by - (rule exI, rule exI, rule exI, rule exI, intro conjI, assumption+)
qed

lemma demo_token_worker: "ref_tokens.token_worker demo_env"
  using demo_worker.worker_server_axioms by (simp add: ref_tokens.token_worker_def demo_env_sel)

lemma demo_empty_held: "\<not> held i wid tok (ref_docs (ref_world_of [] t))"
  by (simp add: held_def ref_docs_def ref_world_of_def)

lemma demo_empty_meets: "results_meet de ser post (ref_docs (ref_world_of [] t))"
  by (simp add: results_meet_def ref_docs_def ref_world_of_def)

section \<open>Properties\<close>

text \<open>
  C2: a fleet computes what its handlers compute. Workers join, claim, recover, crash and return, and callers
  enqueue, in any order; claims draw new tokens. If every handler that returns an output keeps to the
  specification \<open>post\<close> on its payload, then in every task that is recorded as succeeded the output is one that
  \<open>post\<close> allows for the input of that same document, serialised: no crash, takeover or late completion ever
  puts a result on another input. The other processes draw their claim tokens elsewhere and keep this themselves.
\<close>

theorem fleet_computes:
  assumes server: "token_source qmatch agg upd ins srv docs rely le uniq issued ours" and ok: "coll_ok (docs w)"
    and tokens: "\<And>i wid tok. tok \<in> ours \<Longrightarrow> held i wid tok (docs w) \<Longrightarrow> tok \<in> issued w"
    and start: "results_meet de ser post (docs w)" and kept: "results_kept de ser post rely"
    and joins: "\<forall>env\<in>set (joined evs). token_source.token_worker qmatch agg upd ins srv docs rely le uniq issued env"
    and run: "fleet_run srv de ot ser evs ([], w) = Some (ms, w1)"
    and handlers: "along (keeps_to post) srv de ot ser evs ([], w)"
  shows "results_meet de ser post (docs w1)"
proof -
  have "token_source.tokens_issued docs issued ours w"
    using tokens by (simp add: token_source.tokens_issued_def [OF server])
  then have "token_source.fleet_true qmatch agg upd ins srv docs rely le uniq issued ours de ser post ([] :: ('a, 'b) member list) w"
    using ok start by (simp add: token_source.fleet_true_def [OF server])
  from token_source.fleet_run_true [OF server kept run this joins handlers]
  show ?thesis by (simp add: token_source.fleet_true_def [OF server])
qed

theorem fleet_computes_witness:
  "\<exists>ms w. length_fleet (Calls (Enqueue length_send) # length_events) ([], ref_world_of [] 5000) = Some (ms, w) \<and>
     results_meet demo_de_request demo_ser_response has_length (ref_docs w)"
proof -
  let ?w = "ref_world_of [] 5000" and ?evs = "Calls (Enqueue length_send) # length_events"
  obtain w1 ms w4 where enqueue: "enqueue_only ref_server length_send ?w = (Inr \<lparr>eo_task_id = ''uuid-'', eo_action = Inserted\<rparr>, w1)"
    and run: "length_fleet length_events ([], w1) = Some (ms, w4)"
    and handled: "along length_handled ref_server demo_de_request demo_otel demo_ser_response length_events ([], w1)"
    using length_run by blast
  have run1: "length_fleet ?evs ([], ?w) = Some (ms, w4)" using run enqueue by simp
  have "along (keeps_to has_length) ref_server demo_de_request demo_otel demo_ser_response length_events ([], w1)"
    by (rule along_mono [OF handled]) (use handlers_keep_to length_handler_has_length in blast)
  then have keeps1: "along (keeps_to has_length) ref_server demo_de_request demo_otel demo_ser_response ?evs ([], ?w)"
    using enqueue by (simp add: keeps_to_def)
  have kept: "results_kept demo_de_request demo_ser_response has_length (=)" by (simp add: results_kept_def)
  have "\<forall>env\<in>set (joined ?evs). token_source.token_worker ref_match ref_agg ref_upd ref_ins ref_server ref_docs (=) ref_le True
      ref_issued env"
    using demo_token_worker by simp
  from fleet_computes [OF ref_tokens.token_source_axioms demo_empty_ok _ demo_empty_meets kept this run1 keeps1]
    demo_empty_held run1
  show ?thesis by blast
qed

text \<open>
  C1: an answer is computed from the request. A caller enqueues a request in the middle of the work of a
  fleet; workers join, claim, recover, crash and return as they like, other callers enqueue, but nobody resets
  this task. If the caller gets a value, then it is, read back in the caller's type, an output that the
  specification of the handlers allows for the payload that this caller sent, whether the wait finds the finished
  document at its first look or on the change stream, whose events report states of the document from then on.
\<close>

theorem fleet_answers:
  assumes server: "token_source qmatch agg upd ins srv docs rely le True issued ours"
    and good: "good = token_source.token_worker qmatch agg upd ins srv docs rely le True issued"
    and ok: "coll_ok (docs w)" "ids_unique (docs w)"
    and tokens: "\<And>i wid tok. tok \<in> ours \<Longrightarrow> held i wid tok (docs w) \<Longrightarrow> tok \<in> issued w"
    and start: "results_meet de ser post (docs w)"
    and kept: "results_kept de ser post rely" "unique_kept rely"
    and others: "\<And>D D'. rely D D' \<Longrightarrow> follows (\<lambda>a. a \<noteq> ResetTask i) D D'"
    and before: "goes_on (\<lambda>c w. True) post good srv de ot ser ([], w) (ms1, w1)"
    and enqueue: "enqueue_only srv b w1 = (Inr oc, w2)"
    and task: "docs w2 i = Some d" "task_id_of d = Some (eo_task_id oc)"
    and after: "goes_on (spares_task srv (eo_task_id oc)) post good srv de ot ser (ms1, w2) (ms3, w3)"
    and answer: "await_response srv open_stream de_out (eo_task_id oc) w3 = (Some (Inr z), w4)"
    and reported: "\<And>s d. open_stream (result_pipeline (eo_task_id oc)) = Inr s \<Longrightarrow> delivered s d \<Longrightarrow>
      \<exists>ms5 w5. goes_on (spares_task srv (eo_task_id oc)) post good srv de ot ser (ms3, w4) (ms5, w5) \<and> docs w5 i = Some d"
  shows "\<exists>p x y v. sb_payload b = Some p \<and> de p = Some x \<and> post x y \<and> ser y = Some v \<and> de_out v = Some z"
proof -
  have tokens1: "token_source.tokens_issued docs issued ours w"
    using tokens by (simp add: token_source.tokens_issued_def [OF server])
  have fresh: "token_source.fleet_true qmatch agg upd ins srv docs rely le True issued ours de ser post ([] :: ('a, 'b) member list) w"
    using ok start tokens1 by (simp add: token_source.fleet_true_def [OF server])
  note w1 = token_source.goes_on_true [OF server kept TrueI before [unfolded good] fresh ok(2)]
  show ?thesis
    by (rule token_source.request_computed [OF server TrueI kept others _ _ enqueue task after [unfolded good] answer
          reported [unfolded good]]) (use w1 in blast)+
qed

theorem fleet_answers_witness:
  "\<exists>w2 ms w3 w4. enqueue_only ref_server length_send (ref_world_of [] 5000) =
       (Inr \<lparr>eo_task_id = ''uuid-'', eo_action = Inserted\<rparr>, w2) \<and>
     length_fleet length_events ([], w2) = Some (ms, w3) \<and>
     length_await ''uuid-'' w3 = (Some (Inr length_answer), w4) \<and>
     (\<exists>p x. sb_payload length_send = Some p \<and> demo_de_request p = Some x \<and> has_length x length_answer)"
proof -
  let ?w = "ref_world_of [] 5000" and ?oc = "\<lparr>eo_task_id = ''uuid-'', eo_action = Inserted\<rparr>"
  let ?good = "ref_tokens.token_worker"
  obtain w2 ms w3 w4 d where enqueue: "enqueue_only ref_server length_send ?w = (Inr ?oc, w2)"
    and doc: "ref_docs w2 (ObjectId 1) = Some d" "task_id_of d = Some ''uuid-''"
    and run: "length_fleet length_events ([], w2) = Some (ms, w3)"
    and handled: "along length_handled ref_server demo_de_request demo_otel demo_ser_response length_events ([], w2)"
    and answer: "length_await ''uuid-'' w3 = (Some (Inr length_answer), w4)"
    using length_run by blast
  have kept: "results_kept demo_de_request demo_ser_response has_length (=)" by (simp add: results_kept_def)
  have others: "follows (\<lambda>a. a \<noteq> ResetTask (ObjectId 1)) D D'" if "D = D'" for D D' using that follows_refl by simp
  have before: "goes_on (\<lambda>c w. True) has_length ?good ref_server demo_de_request demo_otel demo_ser_response ([], ?w) ([], ?w)"
    unfolding goes_on_def by (rule exI [of _ "[]"]) simp
  have "example_goes_on ?good ref_server demo_de_request demo_otel demo_ser_response ([], w2) (ms, w3)"
    unfolding example_goes_on_def using run handled demo_token_worker by (intro exI [of _ length_events]) simp
  note after = example_goes_on [OF this]
  have task: "task_id_of d = Some (eo_task_id ?oc)" using doc(2) by simp
  have answer1: "length_await (eo_task_id ?oc) w3 = (Some (Inr length_answer), w4)" using answer by simp
  have "\<exists>p x y v. sb_payload length_send = Some p \<and> demo_de_request p = Some x \<and> has_length x y \<and>
      demo_ser_response y = Some v \<and> demo_de_response v = Some length_answer"
    by (rule fleet_answers [OF ref_tokens.token_source_axioms refl demo_empty_ok demo_empty_unique _ demo_empty_meets kept
          unique_alone others before enqueue doc(1) task after answer1])
      (use demo_empty_held in \<open>auto simp: delivered_def\<close>)
  then obtain p x y v where spec: "sb_payload length_send = Some p" "demo_de_request p = Some x" "has_length x y"
    and v: "demo_ser_response y = Some v" "demo_de_response v = Some length_answer"
    by blast
  have "y = length_answer" using demo_serde(2) [OF v(1)] v(2) by simp
  then show ?thesis using enqueue run answer spec by blast
qed

text \<open>
  C17: the example of the repository works. A worker runs the example's handler, or several do, and go on, crash and
  come back as they like; the caller sends one text. If it gets an answer, the answer is the number of characters
  of that text. The collection was emptied before; requests and responses survive their serialisation; and of
  the other processes, none resets a task, repeats a token, duplicates a task or invents a result.
\<close>

theorem example_answers_length:
  assumes server: "token_source qmatch agg upd ins srv docs rely le True issued ours"
    and good: "good = token_source.token_worker qmatch agg upd ins srv docs rely le True issued"
    and serde: "\<And>r p. ser_in r = Some p \<Longrightarrow> de_in p = Some r" "\<And>y v. ser_out y = Some v \<Longrightarrow> de_out v = Some y"
    and clean: "docs w = Map.empty"
    and kept: "results_kept de_in ser_out has_length rely" "unique_kept rely"
    and others: "\<And>D D'. rely D D' \<Longrightarrow> follows (\<lambda>a. a \<noteq> ResetTask i) D D'"
    and before: "example_goes_on good srv de_in ot ser_out ([], w) (ms1, w1)"
    and enqueue: "enqueue_only srv (send ser_in ot current cfg request) w1 = (Inr oc, w2)"
    and task: "docs w2 i = Some d" "task_id_of d = Some (eo_task_id oc)"
    and after: "example_goes_on good srv de_in ot ser_out (ms1, w2) (ms3, w3)"
    and answer: "await_response srv open_stream de_out (eo_task_id oc) w3 = (Some (Inr z), w4)"
    and reported: "\<And>s d. open_stream (result_pipeline (eo_task_id oc)) = Inr s \<Longrightarrow> delivered s d \<Longrightarrow>
      \<exists>ms5 w5. example_goes_on good srv de_in ot ser_out (ms3, w4) (ms5, w5) \<and> docs w5 i = Some d"
  shows "z = \<lparr>lr_length = length (lq_text request)\<rparr>"
proof -
  let ?b = "send ser_in ot current cfg request"
  let ?true = "token_source.fleet_true qmatch agg upd ins srv docs rely le True issued ours de_in ser_out has_length"
  note goes_on = example_goes_on [unfolded good]
  have start: "?true ([] :: ('a, length_request) member list) w" "ids_unique (docs w)"
    by (simp_all add: token_source.fleet_true_def [OF server] token_source.tokens_issued_def [OF server] clean
        coll_ok_def held_def results_meet_def ids_unique_def)
  note w1 = token_source.goes_on_true [OF server kept TrueI goes_on [OF before [unfolded good]] start]
  have stream: "\<exists>ms5 w5. goes_on (spares_task srv (eo_task_id oc)) has_length
      (token_source.token_worker qmatch agg upd ins srv docs rely le True issued) srv de_in ot ser_out
      (ms3, w4) (ms5, w5) \<and> docs w5 i = Some d"
    if ev: "open_stream (result_pipeline (eo_task_id oc)) = Inr s" "delivered s d" for s d
  proof -
    obtain ms5 w5 where "example_goes_on good srv de_in ot ser_out (ms3, w4) (ms5, w5)" "docs w5 i = Some d"
      using reported [OF ev] by blast
    then show ?thesis using goes_on good by blast
  qed
  have "\<exists>p x y v. sb_payload ?b = Some p \<and> de_in p = Some x \<and> has_length x y \<and> ser_out y = Some v \<and> de_out v = Some z"
  proof (rule token_source.request_computed [OF server TrueI kept others _ _ enqueue task goes_on [OF after [unfolded good]] answer])
    show "?true ms1 w1" "ids_unique (docs w1)" using w1 by simp_all
  qed (assumption, rule stream)
  then obtain p x y v where spec: "sb_payload ?b = Some p" "de_in p = Some x" "has_length x y" "ser_out y = Some v"
    and z: "de_out v = Some z"
    by blast
  have "ser_in request = Some p" using spec(1) by (auto simp: send_def split: option.splits)
  then have "x = request" using serde(1) spec(2) by simp
  moreover have "z = y" using serde(2) [OF spec(4)] z by simp
  ultimately show ?thesis using spec(3) by (simp add: has_length_def)
qed

theorem example_answers_length_witness:
  "\<exists>cfg w2 ms w3 w4. example_config = Some cfg \<and>
     enqueue_only ref_server (send demo_ser_request demo_otel no_span cfg example_request) (ref_world_of [] 5000) =
       (Inr \<lparr>eo_task_id = ''uuid-'', eo_action = Inserted\<rparr>, w2) \<and>
     length_fleet length_events ([], w2) = Some (ms, w3) \<and>
     length_await ''uuid-'' w3 = (Some (Inr \<lparr>lr_length = 18\<rparr>), w4)"
proof -
  let ?w = "ref_world_of [] 5000" and ?oc = "\<lparr>eo_task_id = ''uuid-'', eo_action = Inserted\<rparr>"
  let ?good = "ref_tokens.token_worker"
  obtain w2 ms w3 z w4 d where enqueue: "enqueue_only ref_server length_send ?w = (Inr ?oc, w2)"
    and doc: "ref_docs w2 (ObjectId 1) = Some d" "task_id_of d = Some ''uuid-''"
    and run: "length_fleet length_events ([], w2) = Some (ms, w3)"
    and handled: "along length_handled ref_server demo_de_request demo_otel demo_ser_response length_events ([], w2)"
    and answer: "length_await ''uuid-'' w3 = (Some (Inr z), w4)"
    using length_run by blast
  have clean: "ref_docs ?w = Map.empty" by (simp add: ref_docs_def ref_world_of_def)
  have kept: "results_kept demo_de_request demo_ser_response has_length (=)" by (simp add: results_kept_def)
  have others: "follows (\<lambda>a. a \<noteq> ResetTask (ObjectId 1)) D D'" if "D = D'" for D D' using that follows_refl by simp
  have before: "example_goes_on ?good ref_server demo_de_request demo_otel demo_ser_response ([], ?w) ([], ?w)"
    unfolding example_goes_on_def by (rule exI [of _ "[]"]) simp
  have after: "example_goes_on ?good ref_server demo_de_request demo_otel demo_ser_response ([], w2) (ms, w3)"
    unfolding example_goes_on_def using run handled demo_token_worker by (intro exI [of _ length_events]) simp
  have task: "task_id_of d = Some (eo_task_id ?oc)" using doc(2) by simp
  have answer1: "length_await (eo_task_id ?oc) w3 = (Some (Inr z), w4)" using answer by simp
  have "z = \<lparr>lr_length = length (lq_text example_request)\<rparr>"
    by (rule example_answers_length [OF ref_tokens.token_source_axioms refl demo_serde clean kept unique_alone others before
          enqueue [unfolded length_send_def] doc(1) task after answer1])
      (auto simp: delivered_def)
  then have z: "z = \<lparr>lr_length = 18\<rparr>" by (simp add: example_request_def)
  show ?thesis
    using example_config_built enqueue [unfolded length_send_def] run answer [unfolded z]
    by - (rule exI, rule exI, rule exI, rule exI, rule exI, intro conjI, assumption+)
qed

end
