(* ===== verification/Renewal.thy ===== *)
theory Renewal
  imports System
begin

text \<open>
  What a held claim may rely on: until its lease ends, no call of any client takes the task away, so a
  worker whose heartbeats arrive in time keeps its claim and can record its result.
\<close>

section \<open>Calls that come before the lease ends\<close>

definition lease_live :: "int \<Rightarrow> duration \<Rightarrow> document \<Rightarrow> bool" where
  "lease_live now T d \<longleftrightarrow>
     (\<exists>h. heartbeat_of d = Some h \<and> in_i64 (h + lease_ms T d) \<and> now < h + lease_ms T d)"

lemma lease_live_not_expired: "lease_live now T d \<Longrightarrow> \<not> lease_expired now T d"
  by (auto simp: lease_live_def lease_expired_def)

text \<open>
  The call does not end the claim \<open>tok\<close> of the worker \<open>wid\<close> on the task \<open>tid\<close>, whose document is \<open>d\<close>: a
  recovery looks at its clock before the lease ends, a ready claim is another worker's, and only the holder
  completes. A claim that excludes the task, as the worker's own ones do, is harmless at any time.
\<close>

fun timely :: "'w server \<Rightarrow> string \<Rightarrow> string \<Rightarrow> string \<Rightarrow> document \<Rightarrow> 'o call \<Rightarrow> 'w \<Rightarrow> bool" where
  "timely srv tid wid tok d (ClaimNext wid1 T ex Ready so) w \<longleftrightarrow> wid1 \<noteq> wid \<or> tid \<in> set ex"
| "timely srv tid wid tok d (ClaimNext wid1 T ex StaleRecovery so) w \<longleftrightarrow>
     lease_live (fst (sv_now srv w)) T d \<or> tid \<in> set ex"
| "timely srv tid wid tok d (ClaimById i wid1 T tid1 ex) w \<longleftrightarrow>
     lease_live (fst (sv_now srv w)) T d \<or> tid \<in> set ex"
| "timely srv tid wid tok d (Complete tid1 wid1 tok1 hr) w \<longleftrightarrow> (tid1, wid1, tok1) \<noteq> (tid, wid, tok)"
| "timely srv tid wid tok d (ReportFailure tid1 wid1 tok1 reason) w \<longleftrightarrow> (tid1, wid1, tok1) \<noteq> (tid, wid, tok)"
| "timely srv tid wid tok d c w \<longleftrightarrow> True"

text \<open>All calls of a sequence, each on the document as it then is.\<close>

fun in_time ::
  "'w server \<Rightarrow> ('o \<Rightarrow> bson option) \<Rightarrow> ('w \<Rightarrow> collection) \<Rightarrow> object_id \<Rightarrow> string \<Rightarrow> string \<Rightarrow> string \<Rightarrow>
   'o call list \<Rightarrow> 'w \<Rightarrow> bool" where
  "in_time srv ser docs i tid wid tok [] w \<longleftrightarrow> True"
| "in_time srv ser docs i tid wid tok (c # cs) w \<longleftrightarrow>
     (case docs w i of None \<Rightarrow> False | Some d \<Rightarrow> timely srv tid wid tok d c w) \<and>
     in_time srv ser docs i tid wid tok cs (exec_call srv ser c w)"

text \<open>The other clients leave a document alone while it is held.\<close>

definition held_untouched :: "object_id \<Rightarrow> string \<Rightarrow> string \<Rightarrow> (collection \<Rightarrow> collection \<Rightarrow> bool) \<Rightarrow> bool" where
  "held_untouched i wid tok rely \<longleftrightarrow> (\<forall>D D'. rely D D' \<longrightarrow> held i wid tok D \<longrightarrow> D' i = D i)"

lemma held_untouchedD:
  "held_untouched i wid tok rely \<Longrightarrow> rely D D' \<Longrightarrow> D i = Some d \<Longrightarrow> holds wid tok d \<Longrightarrow> D' i = Some d"
  unfolding held_untouched_def held_def by metis

section \<open>What they leave of the document\<close>

lemma claim_outcome_spares:
  assumes "claim_outcome P C wid tok T r D D'" and "D i = Some d" and "\<not> P d"
  shows "D' i = Some d"
proof -
  have "(\<exists>j d0 d1. D j = Some d0 \<and> P d0 \<and> D' = D(j \<mapsto> d1)) \<or> D' = D"
    using assms(1) unfolding claim_outcome_def
    by (cases r rule: sum.exhaust; cases "projr r") (simp_all, blast+)
  then show ?thesis using assms(2,3) by auto
qed

lemma rewrites_held_at:
  assumes "rewrites_held R tid1 wid1 tok1 D D'" and "D i = Some d" and "holds wid tok d" and "task_id_of d = Some tid"
  shows "D' i = Some d \<or> (tid1, wid1, tok1) = (tid, wid, tok) \<and> (\<exists>d'. D' i = Some d' \<and> R d d')"
  using assms by (auto simp: rewrites_held_def holds_def split: if_splits)

context mongo_server
begin

lemma claim_spares:
  assumes ok: "coll_ok (docs w)" and others: "held_untouched i wid tok rely"
    and d: "docs w i = Some d" "holds wid tok d" "task_id_of d = Some tid"
    and timely: "timely srv tid wid tok d (ClaimNext wid1 T ex mode so) w"
  shows "docs (snd (claim_next_task srv wid1 T ex mode so w)) i = Some d"
proof (cases mode)
  case Ready
  obtain D where D: "rely (docs w) D" and cases:
    "claim_outcome (is_pending ex) (least_of le so (is_pending ex) D) wid1 (token_drawn srv w) T
       (fst (claim_next_task srv wid1 T ex Ready so w)) D (docs (snd (claim_next_task srv wid1 T ex Ready so w))) \<or>
     (\<exists>D1. rely D D1 \<and> claim_outcome (is_own_running wid1 ex) (\<lambda>d. True) wid1 (token_drawn srv w) T
       (fst (claim_next_task srv wid1 T ex Ready so w)) D1 (docs (snd (claim_next_task srv wid1 T ex Ready so w))))"
    using claim_ready [OF ok surjective_pairing] by blast
  have at: "D i = Some d" by (rule held_untouchedD [OF others D d(1,2)])
  have "\<not> is_pending ex d" using d(2) by (simp add: is_pending_def holds_def)
  moreover have "\<not> is_own_running wid1 ex d"
    using timely d(2,3) Ready by (auto simp: is_own_running_def holds_def not_excluded_def)
  ultimately show ?thesis
    using cases at claim_outcome_spares held_untouchedD [OF others _ _ d(2)] unfolding Ready by blast
next
  case StaleRecovery
  let ?P = "qmatch (stale_claim_filter (fst (sv_now srv w)) T (map BString ex))"
  obtain D where D: "rely (docs w) D" "coll_ok D"
    and o: "claim_outcome ?P (least_of le so ?P D) wid1 (token_drawn srv w) T
      (fst (claim_next_task srv wid1 T ex StaleRecovery so w)) D (docs (snd (claim_next_task srv wid1 T ex StaleRecovery so w)))"
    using claim_stale [OF ok surjective_pairing refl] by blast
  have at: "D i = Some d" by (rule held_untouchedD [OF others D(1) d(1,2)])
  then have "doc_typed d" using D(2) by (simp add: coll_ok_def)
  then have "\<not> ?P d"
    using match_stale timely lease_live_not_expired d(3) StaleRecovery by (fastforce simp: not_excluded_def)
  then show ?thesis using claim_outcome_spares [OF o at] StaleRecovery by simp
qed

lemma claim_by_id_spares:
  assumes ok: "coll_ok (docs w)" and others: "held_untouched i wid tok rely"
    and d: "docs w i = Some d" "holds wid tok d" "task_id_of d = Some tid"
    and timely: "timely srv tid wid tok d (ClaimById j wid1 T tid1 ex) w"
  shows "docs (snd (claim_expired_task_by_id srv j wid1 T tid1 ex w)) i = Some d"
proof (cases "\<exists>s. tid1 = Some s \<and> s \<in> set ex")
  case True
  then have "snd (claim_expired_task_by_id srv j wid1 T tid1 ex w) = w" by (auto simp: claim_expired_task_by_id_def)
  then show ?thesis using d(1) by simp
next
  case False
  then have tid1: "\<And>s. tid1 = Some s \<Longrightarrow> s \<notin> set ex" by blast
  let ?P = "qmatch (let f = doc_insert (stale_claim_filter (fst (sv_now srv w)) T (map BString ex)) ''_id''
       (BObjectId j) in case tid1 of None \<Rightarrow> f | Some s \<Rightarrow> doc_insert f ''task_id'' (BString s))"
  obtain D where D: "rely (docs w) D" "coll_ok D"
    and o: "claim_outcome ?P (\<lambda>d. True) wid1 (token_drawn srv w) T
      (fst (claim_expired_task_by_id srv j wid1 T tid1 ex w)) D (docs (snd (claim_expired_task_by_id srv j wid1 T tid1 ex w)))"
    using claim_by_id [OF ok surjective_pairing refl tid1] by blast
  have at: "D i = Some d" by (rule held_untouchedD [OF others D(1) d(1,2)])
  then have typed: "doc_typed d" "doc_get d ''_id'' = Some (BObjectId i)" using D(2) by (simp_all add: coll_ok_def)
  have "\<not> ?P d"
  proof
    assume "?P d"
    from match_by_id [OF typed this tid1] have "not_excluded ex d" "lease_expired (fst (sv_now srv w)) T d" by blast+
    then show False using timely lease_live_not_expired d(3) by (auto simp: not_excluded_def)
  qed
  then show ?thesis by (rule claim_outcome_spares [OF o at])
qed

lemma finish_writes:
  assumes "coll_ok (docs w)" and r: "finish_task srv ser tid wid tok hr w = (r, w1)"
  shows "\<exists>D. rely (docs w) D \<and>
    (docs w1 = D \<or> docs w1 = docs w \<or> (\<exists>R. rewrites_held R tid wid tok D (docs w1)))"
proof -
  note spec = finish_spec [OF assms(1) r]
  show ?thesis
  proof (cases hr)
    case (Inl err)
    then show ?thesis using spec by auto
  next
    case (Inr out)
    then show ?thesis using spec by (cases "ser out"; cases r) auto
  qed
qed

text \<open>One call: the document stays, or it is this claim's heartbeat.\<close>

lemma call_spares:
  assumes ok: "coll_ok (docs w)" and others: "held_untouched i wid tok rely"
    and d: "docs w i = Some d" "holds wid tok d" "task_id_of d = Some tid"
    and timely: "timely srv tid wid tok d c w"
  shows "docs (exec_call srv ser c w) i = Some d \<or>
    c = Heartbeat tid wid tok \<and>
    (\<exists>d'. docs (exec_call srv ser c w) i = Some d' \<and> beaten (fst (sv_now srv w)) d d')"
proof -
  have through: "D1 i = Some d" if "rely (docs w) D1" for D1 by (rule held_untouchedD [OF others that d(1,2)])
  have kept: "docs (exec_call srv ser c w) i = Some d"
    if D: "rely (docs w) D" and wrote: "docs (exec_call srv ser c w) = D \<or>
        docs (exec_call srv ser c w) = docs w \<or> (\<exists>R. rewrites_held R tid1 wid1 tok1 D (docs (exec_call srv ser c w)))"
      and other: "(tid1, wid1, tok1) \<noteq> (tid, wid, tok)" for D tid1 wid1 tok1
    using wrote
  proof (elim disjE exE)
    fix R assume "rewrites_held R tid1 wid1 tok1 D (docs (exec_call srv ser c w))"
    then show ?thesis using rewrites_held_at [where tid = tid, OF _ _ d(2,3)] through [OF D] other by blast
  qed (use through [OF D] d(1) in simp_all)
  show ?thesis
  proof (cases c)
    case (Enqueue b)
    obtain D D1 where D: "rely (docs w) D" "rely D1 (docs (exec_call srv ser c w))"
      and s: "D1 = D \<or> (\<exists>a. may_take srv c w a \<and> task_step D a D1)"
      using call_step [OF ok] by blast
    have "D1 i = Some d"
      using s
    proof (elim disjE exE conjE)
      fix a assume a: "may_take srv c w a" "task_step D a D1"
      have "held i wid tok D" using through [OF D(1)] d(2) by (auto simp: held_def)
      then have "target a \<noteq> i" using a held_running [of i wid tok D] by (auto simp: Enqueue)
      then show ?thesis using step_on_document [OF a(2) through [OF D(1)]] by auto
    qed (simp add: through [OF D(1)])
    then show ?thesis using held_untouchedD [OF others D(2) _ d(2)] by blast
  next
    case (Inspect tid1)
    obtain r w1 where f: "inspect_task srv Some tid1 w = (r, w1)" by fastforce
    then show ?thesis using Inspect through [OF inspect_rely [OF f]] by simp
  next
    case (ClaimNext wid1 T ex mode so)
    then show ?thesis using claim_spares [OF ok others d] timely by simp
  next
    case (ClaimById j wid1 T tid1 ex)
    then show ?thesis using claim_by_id_spares [OF ok others d] timely by simp
  next
    case (Heartbeat tid1 wid1 tok1)
    obtain D where D: "rely (docs w) D" and
      o: "owned_write (beaten (fst (sv_now srv w))) tid1 wid1 tok1 (fst (heartbeat srv tid1 wid1 tok1 w)) D
        (docs (exec_call srv ser c w))"
      using heartbeat_spec [OF ok surjective_pairing, of tid1 wid1 tok1] Heartbeat by auto
    then have "docs (exec_call srv ser c w) = D \<or>
        rewrites_held (beaten (fst (sv_now srv w))) tid1 wid1 tok1 D (docs (exec_call srv ser c w))"
      by (auto simp: owned_write_def split: sum.splits if_splits)
    then show ?thesis
      using through [OF D] rewrites_held_at [where tid = tid, OF _ _ d(2,3)] Heartbeat by blast
  next
    case (Complete tid1 wid1 tok1 hr)
    obtain D where "rely (docs w) D" and "docs (exec_call srv ser c w) = D \<or>
        docs (exec_call srv ser c w) = docs w \<or> (\<exists>R. rewrites_held R tid1 wid1 tok1 D (docs (exec_call srv ser c w)))"
      using finish_writes [OF ok surjective_pairing, of ser tid1 wid1 tok1 hr] Complete by auto
    then show ?thesis using kept timely Complete by (metis timely.simps(4))
  next
    case (ReportFailure tid1 wid1 tok1 reason)
    obtain D where "rely (docs w) D" and "docs (exec_call srv ser c w) = D \<or>
        docs (exec_call srv ser c w) = docs w \<or> (\<exists>R. rewrites_held R tid1 wid1 tok1 D (docs (exec_call srv ser c w)))"
      using fail_spec [OF ok refl, where tid = tid1 and wid = wid1 and tok = tok1 and reason = reason] ReportFailure
      by auto
    then show ?thesis using kept timely ReportFailure by (metis timely.simps(5))
  next
    case (ScanRunning T t)
    then show ?thesis using through [OF scan_rely [OF surjective_pairing]] by simp
  next
    case (ScanPending t)
    then show ?thesis using through [OF pending_rely [OF surjective_pairing]] by simp
  qed
qed

lemma beaten_held:
  "beaten t d d' \<Longrightarrow> holds wid tok d \<Longrightarrow>
    holds wid tok d' \<and> task_id_of d' = task_id_of d \<and> doc_get d' ''task_input'' = doc_get d ''task_input''"
  by (auto simp: beaten_def holds_def status_of_def task_id_of_def get_str_def split_paths)

lemma calls_spare:
  assumes "held_untouched i wid tok rely"
  shows "coll_ok (docs w) \<Longrightarrow> docs w i = Some d \<Longrightarrow> holds wid tok d \<Longrightarrow> task_id_of d = Some tid \<Longrightarrow>
    in_time srv ser docs i tid wid tok cs w \<Longrightarrow>
    coll_ok (docs (fold (exec_call srv ser) cs w)) \<and>
    (\<exists>d'. docs (fold (exec_call srv ser) cs w) i = Some d' \<and> holds wid tok d' \<and> task_id_of d' = Some tid \<and>
       doc_get d' ''task_input'' = doc_get d ''task_input'')"
proof (induction cs arbitrary: w d)
  case (Cons c cs)
  have timely: "timely srv tid wid tok d c w"
    and rest: "in_time srv ser docs i tid wid tok cs (exec_call srv ser c w)"
    using Cons.prems(2,5) by simp_all
  have "\<exists>d1. docs (exec_call srv ser c w) i = Some d1 \<and> (d1 = d \<or> (\<exists>t. beaten t d d1))"
    using call_spares [OF Cons.prems(1) assms Cons.prems(2-4) timely, of ser] by blast
  then obtain d1 where d1: "docs (exec_call srv ser c w) i = Some d1" "holds wid tok d1" "task_id_of d1 = Some tid"
    "doc_get d1 ''task_input'' = doc_get d ''task_input''"
    using beaten_held [OF _ Cons.prems(3)] Cons.prems(3,4) by auto
  show ?case using Cons.IH [OF call_ok [OF Cons.prems(1)] d1(1-3) rest] d1(4) by simp
qed simp

end

section \<open>Properties\<close>

text \<open>
  C14: a worker that beats in time keeps its task. From a document held under a claim, whatever calls any
  clients make, as long as each attempt to recover the task looks at the clock before the lease of the
  document as it then is has ended, and nobody but the holder completes it: the claim still holds the
  document, with its input; the next heartbeat is not told that the claim was superseded; and the result
  that the worker then writes is not refused. Each heartbeat of the holder among the calls starts the lease
  anew; callers, in particular, cannot reset the task.
\<close>

theorem timely_beats_keep_claim:
  assumes server: "mongo_server qmatch agg upd ins srv docs rely le uniq" and ok: "coll_ok (docs w)"
    and others: "held_untouched i wid tok rely"
    and task: "docs w i = Some d" "holds wid tok d" "task_id_of d = Some tid"
    and calls: "in_time srv ser docs i tid wid tok cs w"
  defines "w1 \<equiv> fold (exec_call srv ser) cs w"
  shows "(\<exists>d'. docs w1 i = Some d' \<and> holds wid tok d' \<and> doc_get d' ''task_input'' = doc_get d ''task_input'') \<and>
    fst (heartbeat srv tid wid tok w1) \<noteq> Inr False \<and>
    (ser out \<noteq> None \<longrightarrow> fst (finish_task srv ser tid wid tok (Inr out) w1) \<noteq> Inl WorkerGone)"
proof -
  obtain d1 where ok1: "coll_ok (docs w1)" and d1: "docs w1 i = Some d1" "holds wid tok d1" "task_id_of d1 = Some tid"
    "doc_get d1 ''task_input'' = doc_get d ''task_input''"
    using mongo_server.calls_spare [OF server others ok task calls] unfolding w1_def by blast
  have held: "held_task tid wid tok D" if "rely (docs w1) D" for D
    using held_untouchedD [OF others that d1(1,2)] d1(2,3) by (auto simp: held_task_def)
  have "fst (heartbeat srv tid wid tok w1) \<noteq> Inr False"
    using mongo_server.heartbeat_spec [OF server ok1 surjective_pairing, of tid wid tok] held
    by (auto simp: owned_write_def)
  moreover have "fst (finish_task srv ser tid wid tok (Inr out) w1) \<noteq> Inl WorkerGone" if "ser out \<noteq> None"
    using mongo_server.finish_spec [OF server ok1 surjective_pairing, where ser = ser and tid = tid and wid = wid and
        tok = tok and hr = "Inr out"] held that by (auto split: option.splits)
  ultimately show ?thesis using d1 by blast
qed

definition demo_timely_calls :: "bson call list" where
  "demo_timely_calls =
     [ClaimNext ''w1'' (from_secs 10) [] StaleRecovery None, Heartbeat ''b'' ''w2'' ''tok-b'']"

lemma demo_in_time: "in_time ref_server Some ref_docs (ObjectId 2) ''b'' ''w2'' ''tok-b'' demo_timely_calls (demo_world 5000)"
  by (simp add: demo_timely_calls_def lease_live_def lease_ms_def claim_next_task_def stale_claim_filter_def
      claim_with_filter_def claim_update_def heartbeat_def held_filter_def ref_eval demo_defs reader_defs
      switch_timeout_of_def holder_timeout_of_def in_i64_def i64_max_def i64_min_def)

lemma untouched_alone: "held_untouched i wid tok (=)"
  by (simp add: held_untouched_def)

theorem timely_beats_keep_claim_witness:
  "fst (heartbeat ref_server ''b'' ''w2'' ''tok-b'' (fold (exec_call ref_server Some) demo_timely_calls (demo_world 5000))) \<noteq>
     Inr False"
proof -
  have d: "holds ''w2'' ''tok-b'' demo_running" "task_id_of demo_running = Some ''b''"
    by (simp_all add: holds_def reader_defs accessor_defs demo_defs bson_simps)
  from timely_beats_keep_claim [OF ref.mongo_server_axioms demo_ok untouched_alone demo_docs_at(2) d demo_in_time]
  show ?thesis by blast
qed

end
