(* ===== verification/ChangeFeed.thy ===== *)
theory ChangeFeed
  imports Watch System
begin

text \<open>
  A worker's view of the collection: the change stream reports every step of the protocol, the pipeline
  filters the events, and the expiry tracker is fed with what is left. The theory shows that the tracker
  then describes the collection.
\<close>

section \<open>The events of the protocol's steps\<close>

text \<open>
  What the server's manual says of \<open>updateDescription.updatedFields\<close>: a field that the write changed is
  listed with its new value; one that is not listed is unchanged or removed.
\<close>

definition listed :: "document \<Rightarrow> string \<Rightarrow> bson option \<Rightarrow> bson option \<Rightarrow> bool" where
  "listed fs k old new \<longleftrightarrow>
     (case doc_get fs k of Some v \<Rightarrow> new = Some v | None \<Rightarrow> new = old \<or> new = None)"

text \<open>
  A field of \<open>worker_state\<close> is listed under its dotted name, or with the whole of \<open>worker_state\<close>.
\<close>

definition reports :: "document \<Rightarrow> document \<Rightarrow> document \<Rightarrow> bool" where
  "reports fs d d' \<longleftrightarrow>
     listed fs ''status'' (doc_get d ''status'') (doc_get d' ''status'') \<and>
     (case doc_get fs ''worker_state'' of
        Some v \<Rightarrow> doc_get d' ''worker_state'' = Some v
      | None \<Rightarrow> listed fs ''worker_state.heartbeat_at'' (state_field d ''heartbeat_at'') (state_field d' ''heartbeat_at''))"

inductive emits :: "collection \<Rightarrow> change_event \<Rightarrow> collection \<Rightarrow> bool" where
  inserted: "D i = None \<Longrightarrow> operation ev = Insert \<Longrightarrow> full_document ev = Some d' \<Longrightarrow> emits D ev (D(i \<mapsto> d'))"
| updated: "D i = Some d \<Longrightarrow> operation ev = Update \<Longrightarrow> event_key ev = Some i \<Longrightarrow> updated_fields ev = Some fs \<Longrightarrow>
    d' \<noteq> d \<Longrightarrow> reports fs d d' \<Longrightarrow> emits D ev (D(i \<mapsto> d'))"

text \<open>A run of the protocol with its events, among events that are no writes.\<close>

inductive feed :: "collection \<Rightarrow> change_event list \<Rightarrow> collection \<Rightarrow> bool" where
  feed_Nil: "feed D [] D"
| feed_step: "task_step D a D1 \<Longrightarrow> emits D ev D1 \<Longrightarrow> feed D1 evs D' \<Longrightarrow> feed D (ev # evs) D'"
| feed_other: "operation ev = OtherOperation \<Longrightarrow> feed D evs D' \<Longrightarrow> feed D (ev # evs) D'"

section \<open>What the documents look like\<close>

text \<open>A running document has a heartbeat time, a pending one has none. Every step keeps it.\<close>

definition states_ok :: "collection \<Rightarrow> bool" where
  "states_ok D \<longleftrightarrow> (\<forall>i d. D i = Some d \<longrightarrow>
     (status_of d = Some ''running'' \<longrightarrow> heartbeat_of d \<noteq> None) \<and>
     (status_of d = Some ''pending'' \<longrightarrow> heartbeat_of d = None))"

lemma fresh_no_heartbeat: "fresh_pending d \<Longrightarrow> heartbeat_of d = None"
  by (simp add: fresh_pending_def heartbeat_of_def state_field_def get_document_def)

lemma states_ok_step: "task_step D a D' \<Longrightarrow> states_ok D \<Longrightarrow> states_ok D'"
  by (erule task_stepE) (auto simp: states_ok_def holds_def fresh_no_heartbeat fresh_pending_def split: if_splits)

section \<open>What the tracker should say\<close>

text \<open>
  The tracker has an entry for exactly the running tasks; its deadline counts from the task's latest
  heartbeat; and the hint says that pending work may exist whenever it does.
\<close>

definition tracks :: "expiry_tracker \<Rightarrow> collection \<Rightarrow> bool" where
  "tracks t D \<longleftrightarrow> tracker_wf t \<and>
     (\<forall>i. entry t i \<noteq> None \<longleftrightarrow> (\<exists>d. D i = Some d \<and> status_of d = Some ''running'')) \<and>
     (\<forall>i x d h. expires_at t i = Some x \<longrightarrow> D i = Some d \<longrightarrow> heartbeat_of d = Some h \<longrightarrow>
        (\<exists>lease. x = saturating_add h (millis_or_max lease))) \<and>
     ((\<exists>i d. D i = Some d \<and> status_of d = Some ''pending'') \<longrightarrow> pending_may_exist t)"

text \<open>One document changes, and with it the tracker's entry for it.\<close>

definition tracks_one :: "expiry_tracker \<Rightarrow> object_id \<Rightarrow> document \<Rightarrow> bool" where
  "tracks_one t i d \<longleftrightarrow>
     (entry t i \<noteq> None \<longleftrightarrow> status_of d = Some ''running'') \<and>
     (\<forall>x h. expires_at t i = Some x \<longrightarrow> heartbeat_of d = Some h \<longrightarrow> (\<exists>lease. x = saturating_add h (millis_or_max lease))) \<and>
     (status_of d = Some ''pending'' \<longrightarrow> pending_may_exist t)"

lemma tracks_upd:
  assumes "tracks t D" and "tracker_wf t'" and "tracks_one t' i d'"
    and "\<And>j. j \<noteq> i \<Longrightarrow> entry t' j = entry t j" and "pending_may_exist t \<Longrightarrow> pending_may_exist t'"
  shows "tracks t' (D(i \<mapsto> d'))"
proof -
  have same: "expires_at t' j = expires_at t j" if "j \<noteq> i" for j using assms(4) [OF that] by (simp add: expires_at_def)
  show ?thesis
    using assms(1-3,5) assms(4) same unfolding tracks_def tracks_one_def by (auto split: if_splits)
qed

lemma tracksD: "tracks t D \<Longrightarrow> D i = Some d \<Longrightarrow> tracks_one t i d"
  by (auto simp: tracks_def tracks_one_def)

section \<open>One event\<close>

lemma reported_status_of:
  assumes "reports fs d d'" and "doc_typed d'"
  shows "status_of fs = status_of d' \<or> status_of fs = None \<and> (status_of d' = status_of d \<or> status_of d' = None)"
proof (cases "doc_get fs ''status''")
  case None
  then show ?thesis using assms(1) by (auto simp: reports_def listed_def status_of_def get_str_def)
next
  case (Some v)
  then have "doc_get d' ''status'' = Some v" using assms(1) by (simp add: reports_def listed_def)
  then show ?thesis using Some by (simp add: status_of_def get_str_def)
qed

lemma reported_heartbeat:
  assumes "reports fs d d'" and "doc_typed d'"
  shows "case heartbeat_of d' of
      None \<Rightarrow> expiration_update_from_fields fs T = None
    | Some h \<Rightarrow> (\<exists>lease. expiration_update_from_fields fs T = Some (h, lease)) \<or>
        expiration_update_from_fields fs T = None \<and> heartbeat_of d = Some h"
proof (cases "doc_get fs ''worker_state''")
  case None
  then have state: "get_document fs ''worker_state'' = None" by (simp add: get_document_def)
  have l: "listed fs ''worker_state.heartbeat_at'' (state_field d ''heartbeat_at'') (state_field d' ''heartbeat_at'')"
    using assms(1) None by (simp add: reports_def)
  show ?thesis
  proof (cases "doc_get fs ''worker_state.heartbeat_at''")
    case None
    then have "expiration_update_from_fields fs T = None"
      by (simp add: expiration_update_from_fields_def state get_datetime_def)
    moreover have "heartbeat_of d' = heartbeat_of d \<or> heartbeat_of d' = None"
      using l None by (auto simp: listed_def heartbeat_of_def)
    ultimately show ?thesis by (auto split: option.split)
  next
    case (Some v)
    then have v: "state_field d' ''heartbeat_at'' = Some v" using l by (simp add: listed_def)
    then have "get_datetime fs ''worker_state.heartbeat_at'' = heartbeat_of d'"
      using Some by (simp add: get_datetime_def heartbeat_of_def)
    then show ?thesis
      by (simp add: expiration_update_from_fields_def state split: option.split)
  qed
next
  case (Some v)
  then have v: "doc_get d' ''worker_state'' = Some v" using assms(1) by (simp add: reports_def)
  then obtain e where e: "v = BDocument e" using typed_fields(4) [OF assms(2)] by auto
  have "get_document fs ''worker_state'' = Some e" "get_datetime e ''heartbeat_at'' = heartbeat_of d'"
    using Some v by (simp_all add: e get_document_def state_reads)
  then show ?thesis by (auto simp: expiration_update_from_fields_def split: option.split)
qed

lemma update_event:
  assumes "operation ev = Update" and "event_key ev = Some i" and "updated_fields ev = Some fs"
  shows "snd (apply_change_event_to_expirations ev T t) =
    (if status_of fs = Some ''pending'' then mark_pending t
     else if status_of fs \<noteq> None \<and> status_of fs \<noteq> Some ''running'' then tracker_remove i t
     else case expiration_update_from_fields fs T of
       None \<Rightarrow> t | Some (h, lease) \<Rightarrow> tracker_upsert i None h lease t)"
  using assms by (simp add: apply_change_event_to_expirations_def Let_def status_of_def)

text \<open>The event of a protocol step on the document \<open>d\<close>, which becomes \<open>d'\<close>.\<close>

lemma update_tracks_one:
  assumes t: "tracks_one t i d" and ev: "operation ev = Update" "event_key ev = Some i" "updated_fields ev = Some fs"
    and r: "reports fs d d'" and typed: "doc_typed d'"
    and arrow: "status_arrow (status_of d) (status_of d')"
    and before: "status_of d = Some ''pending'' \<longrightarrow> heartbeat_of d = None"
    and after: "status_of d' = Some ''running'' \<longrightarrow> heartbeat_of d' \<noteq> None"
  shows "tracks_one (snd (apply_change_event_to_expirations ev T t)) i d'"
proof -
  note e = update_event [OF ev, of T t]
  note s = reported_status_of [OF r typed]
  consider "status_of d' = Some ''running''" | "status_of d' = Some ''pending''" "status_of d \<noteq> Some ''running''"
    | "status_of d' = Some ''succeeded'' \<or> status_of d' = Some ''failed''" "status_of d = Some ''running''"
    using arrow by (auto simp: status_arrow_def)
  then show ?thesis
  proof cases
    case 1
    then obtain h where h: "heartbeat_of d' = Some h" using after by auto
    then have "(\<exists>lease. expiration_update_from_fields fs T = Some (h, lease)) \<or>
        expiration_update_from_fields fs T = None \<and> heartbeat_of d = Some h"
      using reported_heartbeat [OF r typed, of T] by simp
    moreover have "status_of d = Some ''pending'' \<or> status_of d = Some ''running''"
      using arrow 1 by (auto simp: status_arrow_def)
    ultimately have old: "status_of d = Some ''running''"
      if "expiration_update_from_fields fs T = None" using before that by auto
    have fs: "status_of fs = Some ''running'' \<or> status_of fs = None" using s 1 by auto
    then have e1: "snd (apply_change_event_to_expirations ev T t) =
        (case expiration_update_from_fields fs T of None \<Rightarrow> t | Some (h, lease) \<Rightarrow> tracker_upsert i None h lease t)"
      unfolding e by auto
    show ?thesis
    proof (cases "expiration_update_from_fields fs T")
      case None
      then have "heartbeat_of d = Some h" using reported_heartbeat [OF r typed, of T] h by simp
      then show ?thesis using t old [OF None] 1 h None unfolding e1 by (simp add: tracks_one_def)
    next
      case (Some u)
      then obtain lease where "u = (h, lease)" using reported_heartbeat [OF r typed, of T] h by auto
      then show ?thesis
        using 1 h Some unfolding e1 by (auto simp: tracks_one_def tracker_simps expires_at_def upsert_entry_def)
    qed
  next
    case 2
    then have "status_of fs = Some ''pending''" using s arrow by (auto simp: status_arrow_def)
    then show ?thesis using t 2 unfolding e
      by (auto simp: tracks_one_def tracker_simps expires_at_def mark_pending_hint)
  next
    case 3
    then have "status_of fs = status_of d'" using s by auto
    then show ?thesis using 3 unfolding e by (auto simp: tracks_one_def tracker_simps expires_at_def)
  qed
qed

lemma hint_kept_simps [tracker_simps]:
  "pending_may_exist (tracker_remove i t) = pending_may_exist t"
  "pending_may_exist (tracker_upsert i tid h T t) = pending_may_exist t"
  by (simp_all add: tracker_remove_def tracker_upsert_def add_deadline_def Let_def split: option.split)

lemma new_document:
  "task_step D a D1 \<Longrightarrow> D i = None \<Longrightarrow> D1 i = Some d \<Longrightarrow>
    status_of d = Some ''pending'' \<and> doc_get d ''_id'' = Some (BObjectId i)"
  by (erule task_stepE) (auto simp: fresh_pending_def split: if_splits)

lemma event_tracks:
  assumes step: "task_step D a D1" and emits: "emits D ev D1" and t: "tracks t D"
    and ok: "coll_ok D" "states_ok D"
  shows "tracks (snd (apply_change_event_to_expirations ev T t)) D1"
proof -
  have ok1: "coll_ok D1" "states_ok D1" using task_step_ok [OF step ok(1)] states_ok_step [OF step ok(2)] .
  have wf: "tracker_wf (snd (apply_change_event_to_expirations ev T t))"
    using t by (simp add: tracks_def tracker_wf_event)
  show ?thesis
    using emits
  proof cases
    case (inserted i d')
    have new: "status_of d' = Some ''pending''" "doc_get d' ''_id'' = Some (BObjectId i)"
      using new_document [OF step inserted(2), of d'] inserted(1) by simp_all
    then have "snd (apply_change_event_to_expirations ev T t) = mark_pending t"
      using inserted(3,4) schedule_pending
      by (simp add: apply_change_event_to_expirations_def doc_id_def get_object_id_Some)
    moreover have "entry t i = None"
      using t inserted(2) unfolding tracks_def by (metis option.distinct(1))
    then have "tracks_one (mark_pending t) i d'"
      using new(1) by (simp add: tracks_one_def tracker_simps expires_at_def mark_pending_hint)
    ultimately show ?thesis
      using wf unfolding inserted(1) by (intro tracks_upd [OF t]) (simp_all add: tracker_simps mark_pending_hint)
  next
    case (updated i d fs d')
    have d': "D1 i = Some d'" using updated(1) by simp
    then obtain "target a = i" "status_arrow (status_of d) (status_of d')"
      using step_on_document [OF step updated(2)] updated(6) by auto
    moreover have "doc_typed d'" using d' ok1(1) by (auto simp: coll_ok_def)
    ultimately have one: "tracks_one (snd (apply_change_event_to_expirations ev T t)) i d'"
      using ok(2) ok1(2) updated(2) d'
      by (intro update_tracks_one [OF tracksD [OF t updated(2)] updated(3-5,7)]) (simp_all add: states_ok_def)
    show ?thesis
      unfolding updated(1)
    proof (rule tracks_upd [OF t wf one])
      show "entry (snd (apply_change_event_to_expirations ev T t)) j = entry t j" if "j \<noteq> i" for j
        using that unfolding update_event [OF updated(3-5)] by (simp add: tracker_simps split: option.split)
      show "pending_may_exist (snd (apply_change_event_to_expirations ev T t))" if "pending_may_exist t"
        using that unfolding update_event [OF updated(3-5)]
        by (simp add: tracker_simps mark_pending_hint split: option.split)
    qed
  qed
qed

text \<open>The stream as the worker receives it: what the pipeline lets through, applied in order.\<close>

definition follow_stream ::
  "(document \<Rightarrow> document \<Rightarrow> bool) \<Rightarrow> duration \<Rightarrow> change_event list \<Rightarrow> expiry_tracker \<Rightarrow> expiry_tracker" where
  "follow_stream qm T evs t =
     fold (\<lambda>ev t. snd (apply_change_event_to_expirations ev T t)) (filter (passes qm) evs) t"

context mongo_pipeline
begin

lemma follow_all:
  "follow_stream qmatch T evs t = fold (\<lambda>ev t. snd (apply_change_event_to_expirations ev T t)) evs t"
  by (induction evs arbitrary: t) (auto simp: follow_stream_def filtered_is_noop)

lemma feed_tracks:
  "feed D evs D' \<Longrightarrow> coll_ok D \<Longrightarrow> states_ok D \<Longrightarrow> tracks t D \<Longrightarrow>
    tracks (follow_stream qmatch T evs t) D' \<and> coll_ok D' \<and> states_ok D'"
  unfolding follow_all
proof (induction arbitrary: t rule: feed.induct)
  case (feed_step D a D1 ev evs D')
  have "coll_ok D1" "states_ok D1" using feed_step.hyps(1) feed_step.prems task_step_ok states_ok_step by blast+
  moreover have "tracks (snd (apply_change_event_to_expirations ev T t)) D1"
    by (rule event_tracks [OF feed_step.hyps(1,2) feed_step.prems(3,1,2)])
  ultimately show ?case using feed_step.IH by simp
next
  case (feed_other ev evs D D')
  then show ?case by (simp add: apply_change_event_to_expirations_def)
qed simp

end

section \<open>The scans at the start\<close>

lemma cursor_deadlines:
  "\<forall>d. Inr d \<in> set xs \<longrightarrow> status_of d = Some ''running'' \<Longrightarrow> expires_at (schedule_cursor T xs t) i = Some x \<Longrightarrow>
    expires_at t i = Some x \<or>
    (\<exists>d h lease. Inr d \<in> set xs \<and> doc_id d = Some i \<and> heartbeat_of d = Some h \<and>
       x = saturating_add h (millis_or_max lease))"
proof (induction T xs t rule: schedule_cursor.induct)
  case (2 T d rest t)
  have "expires_at (schedule_expiration_from_task d T t) i = Some x \<Longrightarrow> expires_at t i = Some x \<or>
      (\<exists>h lease. doc_id d = Some i \<and> heartbeat_of d = Some h \<and> x = saturating_add h (millis_or_max lease))"
    using 2(2) by (auto simp: expires_at_def schedule_running upsert_entry_def split: if_splits)
  then show ?case using 2 by auto
qed simp_all

context mongo_server
begin

lemma scan_tracks:
  assumes ok: "coll_ok (docs w)" "states_ok (docs w)" and quiet: "\<And>D. rely (docs w) D \<Longrightarrow> D = docs w"
    and t: "tracker_wf t"
    and scan: "sv_find srv [(''status'', BString ''running'')] w = (Inr (map Inr ds), w1)"
    and look: "sv_find_one srv [(''status'', BString ''pending'')] w1 = (Inr found, w2)"
  shows "docs w2 = docs w \<and>
    tracks (fst (refresh_pending_tasks srv (fst (refresh_running_expirations srv T t w)) w1)) (docs w2)"
proof -
  let ?t1 = "schedule_cursor T (map Inr ds) (clear_running t)"
  have same: "docs w1 = docs w" "docs w2 = docs w"
    using quiet find_docs [OF scan] find_one_docs [OF look] by metis+
  have typed: "doc_typed d" "doc_id d = Some i" if "docs w i = Some d" for i d
    using ok(1) that by (auto simp: coll_ok_def doc_id_def get_object_id_Some)
  note found = conjunct2 [OF find_docs [OF scan], unfolded sum.case]
  have yielded: "d \<in> set ds \<longleftrightarrow> (\<exists>i. docs w i = Some d \<and> status_of d = Some ''running'')" for d
  proof
    assume "d \<in> set ds"
    then have "Inr d \<in> set (map Inr ds :: (mongo_error + document) list)" by simp
    from conjunct1 [OF found, THEN spec, THEN mp, OF this] obtain D1 i where
      D1: "rely (docs w) D1" "D1 i = Some d" "qmatch [(''status'', BString ''running'')] d" by blast
    then have "docs w i = Some d" using quiet [OF D1(1)] by simp
    then show "\<exists>i. docs w i = Some d \<and> status_of d = Some ''running''" using match_fields(1) typed(1) D1(3) by blast
  next
    assume "\<exists>i. docs w i = Some d \<and> status_of d = Some ''running''"
    then obtain i where i: "docs w i = Some d" "status_of d = Some ''running''" by blast
    then have "qmatch [(''status'', BString ''running'')] d" using match_fields(1) typed by blast
    moreover have "\<forall>D1. rely (docs w) D1 \<and> rely D1 (docs w1) \<longrightarrow> D1 i = Some d" using quiet i(1) by metis
    moreover have "\<forall>x\<in>set (map Inr ds :: (mongo_error + document) list). isl x = False" by auto
    ultimately have "Inr d \<in> set (map Inr ds :: (mongo_error + document) list)"
      using conjunct2 [OF found] by blast
    then show "d \<in> set ds" by auto
  qed
  have running: "\<forall>d. Inr d \<in> set (map Inr ds :: (mongo_error + document) list) \<longrightarrow> status_of d = Some ''running''"
    using yielded by auto
  have entries: "entry ?t1 i \<noteq> None \<longleftrightarrow> (\<exists>d. docs w i = Some d \<and> status_of d = Some ''running'')" for i
  proof
    assume "entry ?t1 i \<noteq> None"
    then obtain d where d: "d \<in> set ds" "doc_id d = Some i"
      using cursor_sound [OF running, of T "clear_running t" i] by (auto simp: tracker_simps)
    then obtain j where "docs w j = Some d" "status_of d = Some ''running''" using yielded by blast
    then show "\<exists>d. docs w i = Some d \<and> status_of d = Some ''running''" using typed(2) d(2) by force
  next
    assume "\<exists>d. docs w i = Some d \<and> status_of d = Some ''running''"
    then obtain d where d: "docs w i = Some d" "status_of d = Some ''running''" by blast
    then have "heartbeat_of d \<noteq> None" using ok(2) by (simp add: states_ok_def)
    moreover have "d \<in> set ds" using yielded d by blast
    moreover have "\<forall>d\<in>set ds. status_of d = Some ''running''" using yielded by blast
    ultimately show "entry ?t1 i \<noteq> None"
      using cursor_complete [of ds "clear_running t" i T] typed(2) [OF d(1)] by blast
  qed
  have deadlines: "\<exists>lease. x = saturating_add h (millis_or_max lease)"
    if x: "expires_at ?t1 i = Some x" and d: "docs w i = Some d" "heartbeat_of d = Some h" for i x d h
  proof -
    obtain d1 h1 lease where "d1 \<in> set ds" "doc_id d1 = Some i" "heartbeat_of d1 = Some h1"
      "x = saturating_add h1 (millis_or_max lease)"
      using cursor_deadlines [OF running x] by (auto simp: expires_at_def tracker_simps)
    moreover obtain j where "docs w j = Some d1" using yielded \<open>d1 \<in> set ds\<close> by blast
    then have "d1 = d" using typed(2) [OF \<open>docs w j = Some d1\<close>] \<open>doc_id d1 = Some i\<close> d(1) by simp
    ultimately show ?thesis using d(2) by auto
  qed
  have hint: "found \<noteq> None" if d: "docs w i = Some d" "status_of d = Some ''pending''" for i d
  proof
    assume "found = None"
    then have "no_match qmatch [(''status'', BString ''pending'')] (docs w)"
      using conjunct2 [OF find_one_docs [OF look]] same by simp
    then show False using d match_fields(1) [OF typed(1) [OF d(1)]] by (auto simp: no_match_def)
  qed
  let ?t2 = "set_pending_may_exist (found \<noteq> None) ?t1"
  have at: "entry ?t2 i = entry ?t1 i" "expires_at ?t2 i = expires_at ?t1 i" for i
    by (simp_all add: expires_at_def tracker_simps)
  have "tracker_wf ?t2" by (simp add: tracker_wf_pending tracker_wf_cursor tracker_wf_clear)
  moreover have "pending_may_exist ?t2" if "\<exists>i d. docs w i = Some d \<and> status_of d = Some ''pending''"
    using that hint by (auto simp: set_pending_may_exist_def)
  ultimately have "tracks ?t2 (docs w)"
    using entries deadlines unfolding tracks_def at by blast
  then show ?thesis
    using same scan look by (simp add: refresh_running_expirations_def refresh_pending_tasks_def)
qed

end

section \<open>Properties\<close>

text \<open>
  C30: the tracker tells the truth about the collection. A worker scans a collection that nobody writes at
  that moment, and from then on applies the events that the pipeline lets through of whatever any clients do.
  After each event the tracker has an entry for exactly the tasks that are running in the collection, its
  deadline counted from the task's latest heartbeat, and it says that pending work may exist whenever it does.
\<close>

theorem tracker_follows_collection:
  assumes server: "mongo_server qmatch agg upd ins srv docs rely le uniq" and pipeline: "mongo_pipeline qmatch agg upd ins"
    and ok: "coll_ok (docs w)" "states_ok (docs w)" and quiet: "\<And>D. rely (docs w) D \<Longrightarrow> D = docs w"
    and t: "tracker_wf t"
    and scan: "refresh_running_expirations srv T t w = (t1, w1)"
      "sv_find srv [(''status'', BString ''running'')] w = (Inr (map Inr ds), w1)"
    and look: "refresh_pending_tasks srv t1 w1 = (t2, w2)"
      "sv_find_one srv [(''status'', BString ''pending'')] w1 = (Inr found, w2)"
    and events: "feed (docs w2) evs D"
  shows "tracks (follow_stream qmatch T evs t2) D"
proof -
  have start: "docs w2 = docs w \<and> tracks t2 (docs w2)"
    using mongo_server.scan_tracks [OF server ok quiet t scan(2) look(2), of T] unfolding scan(1) fst_conv look(1) .
  then have "coll_ok (docs w2)" "states_ok (docs w2)" using ok by metis+
  from mongo_pipeline.feed_tracks [OF pipeline events this conjunct2 [OF start]] show ?thesis by blast
qed

text \<open>The task \<open>b\<close> of the sample collection is completed after the scan.\<close>

abbreviation demo_done :: document where
  "demo_done \<equiv> demo_task ''succeeded'' ''b'' (demo_state ''w2'' ''tok-b'' 1000) 2"

lemma demo_feed:
  "feed (ref_docs (demo_world 5000)) [demo_done_event] ((ref_docs (demo_world 5000))(ObjectId 2 \<mapsto> demo_done))"
proof (rule feed_step)
  show "task_step (ref_docs (demo_world 5000)) (Finish (ObjectId 2) ''w2'' ''tok-b'' ''succeeded'')
      ((ref_docs (demo_world 5000))(ObjectId 2 \<mapsto> demo_done))"
    by (rule task_step.finish, rule demo_docs_at(2))
       (simp_all add: holds_def keeps_input_def keeps_def reader_defs demo_task_def demo_state_def doc_typed_def field_ok_def
         worker_state_typed_def accessor_defs bson_simps)
  show "emits (ref_docs (demo_world 5000)) demo_done_event ((ref_docs (demo_world 5000))(ObjectId 2 \<mapsto> demo_done))"
    by (rule emits.updated [of _ _ demo_running _ "[(''status'', BString ''succeeded'')]"], rule demo_docs_at(2))
       (simp_all add: demo_done_event_def event_key_def reports_def listed_def state_field_def demo_task_def demo_state_def
          accessor_defs bson_simps)
qed (rule feed_Nil)

lemma demo_states: "states_ok (ref_docs (demo_world t))"
  by (auto simp: states_ok_def ref_eval demo_defs reader_defs split: if_splits)

lemma demo_scan:
  "\<exists>ds w1 found w2. sv_find ref_server [(''status'', BString ''running'')] (demo_world 5000) = (Inr (map Inr ds), w1) \<and>
     sv_find_one ref_server [(''status'', BString ''pending'')] w1 = (Inr found, w2) \<and> ref_docs w2 = ref_docs (demo_world 5000)"
  by (simp add: ref_eval demo_defs) (intro exI [of _ "[_]"], simp)

theorem tracker_follows_collection_witness:
  "\<exists>t2. fst (refresh_pending_tasks ref_server (fst (refresh_running_expirations ref_server (from_secs 10) tracker_new
       (demo_world 5000))) (snd (refresh_running_expirations ref_server (from_secs 10) tracker_new (demo_world 5000)))) = t2 \<and>
     entry (follow_stream ref_match (from_secs 10) [demo_done_event] t2) (ObjectId 2) = None"
proof -
  obtain ds w1 found w2 where
    find: "sv_find ref_server [(''status'', BString ''running'')] (demo_world 5000) = (Inr (map Inr ds), w1)"
    and look: "sv_find_one ref_server [(''status'', BString ''pending'')] w1 = (Inr found, w2)"
    and same: "ref_docs w2 = ref_docs (demo_world 5000)"
    using demo_scan by blast
  obtain t1 where t1: "refresh_running_expirations ref_server (from_secs 10) tracker_new (demo_world 5000) = (t1, w1)"
    using find by (simp add: refresh_running_expirations_def)
  obtain t2 where t2: "refresh_pending_tasks ref_server t1 w1 = (t2, w2)"
    using look by (simp add: refresh_pending_tasks_def)
  have quiet: "ref_docs (demo_world 5000) = D \<Longrightarrow> D = ref_docs (demo_world 5000)" for D by simp
  have feed: "feed (ref_docs w2) [demo_done_event] ((ref_docs (demo_world 5000))(ObjectId 2 \<mapsto> demo_done))"
    using demo_feed same by simp
  note tracked = tracker_follows_collection [OF ref.mongo_server_axioms refp.mongo_pipeline_axioms demo_ok demo_states quiet
      tracker_wf_new t1 find t2 look feed]
  have "status_of demo_done \<noteq> Some ''running''" by (simp add: reader_defs demo_task_def accessor_defs bson_simps)
  then have "entry (follow_stream ref_match (from_secs 10) [demo_done_event] t2) (ObjectId 2) = None"
    using tracksD [OF tracked fun_upd_same] by (simp add: tracks_one_def)
  then show ?thesis using t1 t2 by simp
qed

end
