(* ===== verification/Metrics.thy ===== *)
theory Metrics
  imports Crew
begin

text \<open>
  The worker's metrics (\<open>src/metrics.rs\<close>) and what the worker records with them (\<open>src/worker.rs\<close>): the
  instruments, and the recordings of the two claiming loops with their counters, of the heartbeat loop, the
  scans, the opening of the stream and the completions. A measurement is a value of the log; the value of a
  duration is the runtime's and left out.
\<close>

section \<open>Instruments\<close>

datatype instrument_kind = F64Histogram | U64Histogram | U64Counter

record instrument =
  in_kind :: instrument_kind
  in_name :: string
  in_description :: string

record worker_metrics =
  db_operation_duration_ms :: instrument
  claim_batch_size :: instrument
  heartbeat_outcome_count :: instrument

definition worker_metrics_new :: worker_metrics where
  "worker_metrics_new =
     \<lparr>db_operation_duration_ms =
        \<lparr>in_kind = F64Histogram, in_name = ''getitdone.worker.db_operation.duration_ms'',
         in_description = ''Duration of a worker database round-trip, in milliseconds, tagged by operation''\<rparr>,
      claim_batch_size =
        \<lparr>in_kind = U64Histogram, in_name = ''getitdone.worker.claim.batch_size'',
         in_description = ''Tasks claimed in a single claim sweep/drain visit, tagged by source''\<rparr>,
      heartbeat_outcome_count =
        \<lparr>in_kind = U64Counter, in_name = ''getitdone.worker.heartbeat.outcome'',
         in_description =
           ''Count of heartbeat outcomes: alive, superseded (ownership lost), or transient_error''\<rparr>\<rparr>"

text \<open>\<open>config.enable_metrics.then(WorkerMetrics::new)\<close> in \<open>Worker::run\<close>.\<close>

definition metrics_of :: "config \<Rightarrow> worker_metrics option" where
  "metrics_of cfg = (if cfg_enable_metrics cfg then Some worker_metrics_new else None)"

section \<open>Recordings\<close>

text \<open>A recording with its tags; the value of a duration is left out.\<close>

datatype measurement =
    Duration instrument "(string \<times> string) list"
  | Amount instrument nat "(string \<times> string) list"

definition db_operation :: "worker_metrics option \<Rightarrow> (string \<times> string) list \<Rightarrow> measurement list" where
  "db_operation metrics tags =
     (case metrics of None \<Rightarrow> [] | Some m \<Rightarrow> [Duration (db_operation_duration_ms m) tags])"

definition claim_tags :: "string \<Rightarrow> (string \<times> string) list" where
  "claim_tags source = [(''operation'', ''claim''), (''source'', source)]"

text \<open>The recording after the loop of a pump, \<open>if attempted\<close>.\<close>

definition batch_measure :: "worker_metrics option \<Rightarrow> string \<Rightarrow> bool \<Rightarrow> nat \<Rightarrow> measurement list" where
  "batch_measure metrics source attempted claimed_count =
     (if attempted
      then (case metrics of None \<Rightarrow> [] | Some m \<Rightarrow> [Amount (claim_batch_size m) claimed_count [(''source'', source)]])
      else [])"

definition outcome_label :: "heartbeat_outcome \<Rightarrow> string" where
  "outcome_label outcome =
     (case outcome of
        Alive \<Rightarrow> ''alive''
      | Superseded \<Rightarrow> ''superseded''
      | TransientError \<Rightarrow> ''transient_error'')"

definition beat_measure :: "worker_metrics option \<Rightarrow> heartbeat_outcome \<Rightarrow> measurement list" where
  "beat_measure metrics outcome =
     db_operation metrics [(''operation'', ''heartbeat'')] @
     (case metrics of
        None \<Rightarrow> []
      | Some m \<Rightarrow> [Amount (heartbeat_outcome_count m) 1 [(''outcome'', outcome_label outcome)]])"

text \<open>
  What the heartbeat loop of a job records, tick by tick: heartbeats that confirmed the claim, and at most
  one, the last, that did not.
\<close>

definition job_measure :: "worker_metrics option \<Rightarrow> job_state \<Rightarrow> measurement list" where
  "job_measure metrics s = concat (map (beat_measure metrics) (rev (js_outcomes s)))"

lemma job_records_one_loss:
  assumes "job_run srv ser tid wid tok evs (job_start, w) = Some (s, w1)"
  shows "\<exists>k last. job_measure metrics s =
      concat (replicate k (beat_measure metrics Alive)) @ concat (map (beat_measure metrics) last) \<and> length last \<le> 1"
proof -
  have inv: "list_all (\<lambda>x. x = Alive) (tl (js_outcomes s))"
    using job_inv_run [OF _ assms] job_inv_start by (simp add: job_inv_def)
  show ?thesis
  proof (cases "js_outcomes s")
    case Nil
    then show ?thesis by (intro exI [of _ 0] exI [of _ "[]"]) (simp add: job_measure_def)
  next
    case (Cons x xs)
    then have "xs = replicate (length xs) Alive"
      using inv by (intro replicate_length_same [symmetric]) (simp add: list_all_iff)
    then have "rev xs = replicate (length xs) Alive" by (metis rev_replicate)
    then show ?thesis
      using Cons by (intro exI [of _ "length xs"] exI [of _ "[x]"]) (simp add: job_measure_def)
  qed
qed

section \<open>The pumps with their counters\<close>

text \<open>
  A round of \<open>pump_available_tasks\<close> with the local variables \<open>attempted\<close> and \<open>claimed_count\<close> of the pump and
  the recordings so far.
\<close>

definition metered_claim_round ::
  "worker_metrics option \<Rightarrow> 'w server \<Rightarrow> (string fset \<Rightarrow> string list) \<Rightarrow> string \<Rightarrow> duration \<Rightarrow> claim_mode \<Rightarrow>
   document option \<Rightarrow> bool \<times> nat \<times> measurement list \<Rightarrow> pool \<Rightarrow> expiry_tracker \<Rightarrow> 'w \<Rightarrow>
   bool \<times> (bool \<times> nat \<times> measurement list) \<times> pool \<times> expiry_tracker \<times> 'w" where
  "metered_claim_round metrics srv snap worker_id T claim_mode so m p t w =
     (let (attempted, claimed_count, ms) = m in
      case try_acquire p of
        None \<Rightarrow> (False, (attempted, claimed_count, ms), p, t, w)
      | Some p1 \<Rightarrow>
          (let excluded = registry_snapshot snap p1;
               (claim_result, w1) = claim_next_task srv worker_id T excluded claim_mode so w;
               ms1 = ms @ db_operation metrics (claim_tags (metric_source claim_mode))
           in case claim_result of
                Inr (Some task) \<Rightarrow>
                  (let t1 = schedule_expiration_from_task task T t;
                       task_id = task_id_or_default task
                   in (True, (True, claimed_count + 1, ms1), spawn_claimed_task task task_id p1, t1, w1))
              | Inr None \<Rightarrow>
                  (False, (True, claimed_count, ms1), release p1,
                    if claim_mode = Ready then set_pending_may_exist False t else t, w1)
              | Inl e \<Rightarrow> (False, (True, claimed_count, ms1), release p1, t, w1)))"

fun metered_pump_loop ::
  "visit_event list \<Rightarrow> worker_metrics option \<Rightarrow> 'w server \<Rightarrow> (string fset \<Rightarrow> string list) \<Rightarrow> string \<Rightarrow> duration \<Rightarrow>
   claim_mode \<Rightarrow> document option \<Rightarrow> bool \<times> nat \<times> measurement list \<Rightarrow> pool \<Rightarrow> expiry_tracker \<Rightarrow> 'w \<Rightarrow>
   ((bool \<times> nat \<times> measurement list) \<times> pool \<times> expiry_tracker \<times> 'w) option" where
  "metered_pump_loop [] metrics srv snap worker_id T claim_mode so m p t w = None"
| "metered_pump_loop (Ends k # evs) metrics srv snap worker_id T claim_mode so m p t w =
     (if k < length (join_set p)
      then metered_pump_loop evs metrics srv snap worker_id T claim_mode so m (task_ended k p) t w else None)"
| "metered_pump_loop (Round # evs) metrics srv snap worker_id T claim_mode so m p t w =
     (let (goes_on, m1, p1, t1, w1) = metered_claim_round metrics srv snap worker_id T claim_mode so m p t w in
      if goes_on then metered_pump_loop evs metrics srv snap worker_id T claim_mode so m1 p1 t1 w1
      else if evs = [] then Some (m1, p1, t1, w1)
      else None)"

definition metered_pump_available_tasks ::
  "visit_event list \<Rightarrow> worker_metrics option \<Rightarrow> 'w server \<Rightarrow> (string fset \<Rightarrow> string list) \<Rightarrow> string \<Rightarrow> duration \<Rightarrow>
   claim_mode \<Rightarrow> document option \<Rightarrow> pool \<Rightarrow> expiry_tracker \<Rightarrow> 'w \<Rightarrow>
   (measurement list \<times> pool \<times> expiry_tracker \<times> 'w) option" where
  "metered_pump_available_tasks evs metrics srv snap worker_id T claim_mode so p t w =
     map_option (\<lambda>((attempted, claimed_count, ms), r).
         (ms @ batch_measure metrics (metric_source claim_mode) attempted claimed_count, r))
       (metered_pump_loop evs metrics srv snap worker_id T claim_mode so (False, 0, []) p t w)"

text \<open>The same for \<open>pump_expired_tasks\<close>.\<close>

definition metered_expired_round ::
  "worker_metrics option \<Rightarrow> 'w server \<Rightarrow> (string fset \<Rightarrow> string list) \<Rightarrow> string \<Rightarrow> duration \<Rightarrow> object_id \<times> expiring_task \<Rightarrow>
   bool \<times> nat \<times> measurement list \<Rightarrow> pool \<Rightarrow> expiry_tracker \<Rightarrow> 'w \<Rightarrow>
   bool \<times> (bool \<times> nat \<times> measurement list) \<times> pool \<times> expiry_tracker \<times> 'w" where
  "metered_expired_round metrics srv snap worker_id T x m p t w =
     (let (i, expiring_task) = x; (attempted, claimed_count, ms) = m in
      if (case et_task_id expiring_task of None \<Rightarrow> False | Some task_id \<Rightarrow> registry_contains task_id p)
      then (True, (attempted, claimed_count, ms), p, t, w)
      else
        (case try_acquire p of
           None \<Rightarrow>
             (let (now, w1) = sv_now srv w
              in (False, (attempted, claimed_count, ms), p, defer_task now i expiring_task (from_secs 1) t, w1))
         | Some p1 \<Rightarrow>
             (let excluded = registry_snapshot snap p1;
                  (claim_result, w1) =
                    claim_expired_task_by_id srv i worker_id T (et_task_id expiring_task) excluded w;
                  ms1 = ms @ db_operation metrics (claim_tags ''expiry_targeted'')
              in case claim_result of
                   Inr (Some task) \<Rightarrow>
                     (let t1 = schedule_expiration_from_task task T t;
                          task_id = task_id_or_default task
                      in (True, (True, claimed_count + 1, ms1), spawn_claimed_task task task_id p1, t1, w1))
                 | Inr None \<Rightarrow> (True, (True, claimed_count, ms1), release p1, t, w1)
                 | Inl e \<Rightarrow> (True, (True, claimed_count, ms1), release p1, t, w1))))"

fun metered_expired_loop ::
  "visit_event list \<Rightarrow> worker_metrics option \<Rightarrow> 'w server \<Rightarrow> (string fset \<Rightarrow> string list) \<Rightarrow> string \<Rightarrow> duration \<Rightarrow>
   (object_id \<times> expiring_task) list \<Rightarrow> bool \<times> nat \<times> measurement list \<Rightarrow> pool \<Rightarrow> expiry_tracker \<Rightarrow> 'w \<Rightarrow>
   ((bool \<times> nat \<times> measurement list) \<times> pool \<times> expiry_tracker \<times> 'w) option" where
  "metered_expired_loop evs metrics srv snap worker_id T [] m p t w = (if evs = [] then Some (m, p, t, w) else None)"
| "metered_expired_loop [] metrics srv snap worker_id T (x # rest) m p t w = None"
| "metered_expired_loop (Ends k # evs) metrics srv snap worker_id T (x # rest) m p t w =
     (if k < length (join_set p)
      then metered_expired_loop evs metrics srv snap worker_id T (x # rest) m (task_ended k p) t w else None)"
| "metered_expired_loop (Round # evs) metrics srv snap worker_id T (x # rest) m p t w =
     (let (goes_on, m1, p1, t1, w1) = metered_expired_round metrics srv snap worker_id T x m p t w in
      if goes_on then metered_expired_loop evs metrics srv snap worker_id T rest m1 p1 t1 w1
      else if evs = [] then Some (m1, p1, t1, w1)
      else None)"

definition metered_pump_expired_tasks ::
  "visit_event list \<Rightarrow> worker_metrics option \<Rightarrow> 'w server \<Rightarrow> (object_id fset \<Rightarrow> object_id list) \<Rightarrow>
   (string fset \<Rightarrow> string list) \<Rightarrow> string \<Rightarrow> duration \<Rightarrow> pool \<Rightarrow> expiry_tracker \<Rightarrow> 'w \<Rightarrow>
   (measurement list \<times> pool \<times> expiry_tracker \<times> 'w) option" where
  "metered_pump_expired_tasks evs metrics srv iter snap worker_id T p t w =
     (let (now, w1) = sv_now srv w;
          (due, t1) = pop_due iter now t
      in map_option (\<lambda>((attempted, claimed_count, ms), r).
             (ms @ batch_measure metrics ''expiry_targeted'' attempted claimed_count, r))
           (metered_expired_loop evs metrics srv snap worker_id T due (False, 0, []) p t1 w1))"

section \<open>The other operations with their durations\<close>

definition trigger_tags :: "string \<Rightarrow> string \<Rightarrow> (string \<times> string) list" where
  "trigger_tags op_name trigger = [(''operation'', op_name), (''trigger'', trigger)]"

definition metered_open_change_stream ::
  "worker_metrics option \<Rightarrow> string \<Rightarrow> (document list \<Rightarrow> 'w \<Rightarrow> (mongo_error + unit) \<times> 'w) \<Rightarrow> 'w \<Rightarrow>
   measurement list \<times> (request_error + bool) \<times> 'w" where
  "metered_open_change_stream metrics trigger watch w =
     (let pipeline = expiry_change_stream_pipeline;
          (result, w1) = watch pipeline w;
          ms = db_operation metrics (trigger_tags ''change_stream_open'' trigger)
      in case result of
           Inr stream \<Rightarrow> (ms, Inr True, w1)
         | Inl e \<Rightarrow>
             if is_change_stream_unsupported e then (ms, Inl (Database unsupported_message), w1)
             else (ms, Inr False, w1))"

text \<open>The scans record on each of their exits (\<open>src/worker/expiry.rs\<close>).\<close>

definition metered_refresh_running_expirations ::
  "worker_metrics option \<Rightarrow> string \<Rightarrow> 'w server \<Rightarrow> duration \<Rightarrow> expiry_tracker \<Rightarrow> 'w \<Rightarrow>
   measurement list \<times> expiry_tracker \<times> 'w" where
  "metered_refresh_running_expirations metrics trigger srv worker_switch_timeout t w =
     (let record_duration = db_operation metrics (trigger_tags ''expiry_scan'' trigger) in
      case sv_find srv [(''status'', BString ''running'')] w of
        (Inl e, w1) \<Rightarrow> (record_duration, t, w1)
      | (Inr cursor, w1) \<Rightarrow> (record_duration, schedule_cursor worker_switch_timeout cursor (clear_running t), w1))"

definition metered_refresh_pending_tasks ::
  "worker_metrics option \<Rightarrow> string \<Rightarrow> 'w server \<Rightarrow> expiry_tracker \<Rightarrow> 'w \<Rightarrow>
   measurement list \<times> expiry_tracker \<times> 'w" where
  "metered_refresh_pending_tasks metrics trigger srv t w =
     (let record_duration = db_operation metrics (trigger_tags ''pending_scan'' trigger) in
      case sv_find_one srv [(''status'', BString ''pending'')] w of
        (Inl e, w1) \<Rightarrow> (record_duration, t, w1)
      | (Inr pending, w1) \<Rightarrow> (record_duration, set_pending_may_exist (pending \<noteq> None) t, w1))"

text \<open>
  The completion: the error of a call that fails is returned before anything is recorded, and the failure
  report records in any case.
\<close>

definition completion_tags :: "string \<Rightarrow> (string \<times> string) list" where
  "completion_tags outcome = [(''operation'', ''task_completion''), (''outcome'', outcome)]"

definition metered_finish_task ::
  "worker_metrics option \<Rightarrow> 'w server \<Rightarrow> ('o \<Rightarrow> bson option) \<Rightarrow> string \<Rightarrow> string \<Rightarrow> string \<Rightarrow> request_error + 'o \<Rightarrow> 'w \<Rightarrow>
   measurement list \<times> (request_error + unit) \<times> 'w" where
  "metered_finish_task metrics srv ser task_id worker_id claim_token handler_result w =
     (case handler_result of
        Inr output \<Rightarrow>
          (case ser output of
             None \<Rightarrow> ([], Inl (PayloadFormat ''task_output''), w)
           | Some output_bson \<Rightarrow>
               (let flt = held_filter task_id worker_id claim_token;
                    (t1, w1) = sv_now srv w;
                    (t2, w2) = sv_now srv w1;
                    update = [(''$set'', BDocument
                      [(''status'', BString ''succeeded''),
                       (''task_output'', output_bson),
                       (''updated_at'', BDateTime t1),
                       (''worker_state.finished_at'', BDateTime t2)])]
                in case sv_update_one srv flt update False w2 of
                     (Inl e, w3) \<Rightarrow> ([], Inl (Database (error_text e)), w3)
                   | (Inr result, w3) \<Rightarrow>
                       (db_operation metrics (completion_tags ''succeeded''),
                        if matched_count result = 0 then (Inl WorkerGone, w3) else (Inr (), w3))))
      | Inl err \<Rightarrow>
          (db_operation metrics (completion_tags ''failed''), Inl err,
           mark_task_failed srv task_id worker_id claim_token (''handler error: '' @ err_display err) w))"

section \<open>Recording changes nothing else\<close>

lemma metered_calls_same:
  "snd (metered_open_change_stream metrics trigger watch w) = open_change_stream watch w"
  "snd (metered_refresh_running_expirations metrics trigger srv T t w) = refresh_running_expirations srv T t w"
  "snd (metered_refresh_pending_tasks metrics trigger srv t w) = refresh_pending_tasks srv t w"
  "snd (metered_finish_task metrics srv ser tid wid tok hr w) = finish_task srv ser tid wid tok hr w"
  by (auto simp: metered_open_change_stream_def open_change_stream_def metered_refresh_running_expirations_def
      refresh_running_expirations_def metered_refresh_pending_tasks_def refresh_pending_tasks_def
      metered_finish_task_def finish_task_def Let_def split: prod.splits sum.splits option.splits)

text \<open>
  What a completion records says which call the server answered, not what became of the task: nothing when
  the call failed, and a completion that lost its claim counts as succeeded.
\<close>

lemma completion_recorded:
  assumes "metered_finish_task (Some m) srv ser tid wid tok hr w = (ms, r, w1)"
  shows "ms =
    (case hr of
       Inl err \<Rightarrow> [Duration (db_operation_duration_ms m) (completion_tags ''failed'')]
     | Inr out \<Rightarrow>
         if r = Inr () \<or> r = Inl WorkerGone
         then [Duration (db_operation_duration_ms m) (completion_tags ''succeeded'')] else [])"
  using assms
  by (cases hr) (auto simp: metered_finish_task_def db_operation_def Let_def split: option.splits prod.splits sum.splits if_splits)

text \<open>What a round adds to the counters and the log.\<close>

lemma counted_cases:
  fixes x :: "'a \<times> ('b \<times> 'c \<times> 'd) \<times> 'e \<times> 'f \<times> 'g"
  obtains g a c ms p t w where "x = (g, (a, c, ms), p, t, w)"
  by (metis surj_pair)

lemma metered_claim_round:
  assumes "metered_claim_round metrics srv snap wid T mode so (a, c, ms) p t w = (g, (a1, c1, ms1), p1, t1, w1)"
  shows "claim_round srv snap wid T mode so p t w = (g, p1, t1, w1) \<and>
    (if permits p = 0 then \<not> g \<and> (a1, c1, ms1) = (a, c, ms)
     else a1 \<and> c1 = (if g then c + 1 else c) \<and> ms1 = ms @ db_operation metrics (claim_tags (metric_source mode)))"
proof (cases "try_acquire p")
  case None
  then have "permits p = 0" by (simp add: try_acquire_def split: if_splits)
  then show ?thesis using assms None by (simp add: metered_claim_round_def claim_round_def)
next
  case (Some p2)
  obtain r w2 where r: "claim_next_task srv wid T (registry_snapshot snap p2) mode so w = (r, w2)" by fastforce
  have "permits p \<noteq> 0" using acquired [OF Some] by simp
  then show ?thesis
    using assms r by (cases r; cases "projr r") (auto simp: metered_claim_round_def claim_round_def Some Let_def)
qed

lemma metered_expired_round:
  assumes "metered_expired_round metrics srv snap wid T x (a, c, ms) p t w = (g, (a1, c1, ms1), p1, t1, w1)"
  obtains (same) "expired_round srv snap wid T x p t w = (g, p1, t1, w1)" "(a1, c1, ms1) = (a, c, ms)" "p1 = p"
  | (counted) p2 r where "expired_round srv snap wid T x p t w = (g, p1, t1, w1)" "try_acquire p = Some p2" "g" "a1"
      "ms1 = ms @ db_operation metrics (claim_tags ''expiry_targeted'')"
      "claim_expired_task_by_id srv (fst x) wid T (et_task_id (snd x)) (snap (in_flight p)) w = (r, w1)"
      "case r of Inr (Some task) \<Rightarrow> c1 = c + 1 \<and> p1 = spawn_claimed_task task (task_id_or_default task) p2
       | _ \<Rightarrow> c1 = c \<and> p1 = p"
proof -
  obtain i e where x: "x = (i, e)" by fastforce
  show thesis
  proof (cases "(case et_task_id e of None \<Rightarrow> False | Some task_id \<Rightarrow> registry_contains task_id p) \<or> try_acquire p = None")
    case True
    then have "expired_round srv snap wid T x p t w = (g, p1, t1, w1) \<and> (a1, c1, ms1) = (a, c, ms) \<and> p1 = p"
      using assms by (auto simp: x metered_expired_round_def expired_round_def split: if_splits prod.splits)
    then show thesis using same by blast
  next
    case False
    then obtain p2 where p2: "try_acquire p = Some p2" by auto
    obtain r w2 where r: "claim_expired_task_by_id srv i wid T (et_task_id e) (snap (in_flight p)) w = (r, w2)" by fastforce
    note a = acquired [OF p2] released [OF p2]
    have m: "metered_expired_round metrics srv snap wid T x (a, c, ms) p t w =
      (let ms1 = ms @ db_operation metrics (claim_tags ''expiry_targeted'') in
       case r of
         Inr (Some task) \<Rightarrow> (True, (True, c + 1, ms1), spawn_claimed_task task (task_id_or_default task) p2,
           schedule_expiration_from_task task T t, w2)
       | _ \<Rightarrow> (True, (True, c, ms1), p, t, w2))"
      and e: "expired_round srv snap wid T x p t w =
      (case r of
         Inr (Some task) \<Rightarrow> (True, spawn_claimed_task task (task_id_or_default task) p2,
           schedule_expiration_from_task task T t, w2)
       | _ \<Rightarrow> (True, p, t, w2))"
      using False a r
      by (cases r; auto simp: x metered_expired_round_def expired_round_def p2 registry_snapshot_def Let_def split: option.split)+
    show thesis
    proof (cases "\<exists>task. r = Inr (Some task)")
      case True
      then obtain task where task: "r = Inr (Some task)" by blast
      show thesis by (rule counted [of p2 r]) (use assms m e r p2 task x in \<open>simp_all add: Let_def\<close>)
    next
      case none: False
      then have "metered_expired_round metrics srv snap wid T x (a, c, ms) p t w =
          (True, (True, c, ms @ db_operation metrics (claim_tags ''expiry_targeted'')), p, t, w2)"
        "expired_round srv snap wid T x p t w = (True, p, t, w2)"
        unfolding m e Let_def by (auto split: sum.split option.split)
      then have vals: "g" "a1" "c1 = c" "ms1 = ms @ db_operation metrics (claim_tags ''expiry_targeted'')" "p1 = p" "w1 = w2"
        "expired_round srv snap wid T x p t w = (g, p1, t1, w1)"
        using assms by auto
      have "case r of Inr (Some task) \<Rightarrow> c1 = c + 1 \<and> p1 = spawn_claimed_task task (task_id_or_default task) p2
        | _ \<Rightarrow> c1 = c \<and> p1 = p"
      proof (cases r)
        case (Inr found)
        then show ?thesis using none vals(3,5) by (cases found) auto
      qed (use vals(3,5) in simp)
      then show thesis using vals r x by (intro counted [of p2 r]) (simp_all add: p2)
    qed
  qed
qed

lemma metered_pump_loop_same:
  "metered_pump_loop evs metrics srv snap wid T mode so m p t w = Some (m1, r) \<Longrightarrow>
    pump_loop evs srv snap wid T mode so p t w = Some r"
proof (induction evs arbitrary: m p t w)
  case (Cons ev evs)
  show ?case
  proof (cases ev)
    case Round
    obtain a c ms where m: "m = (a, c, ms)" using prod_cases3 by blast
    obtain g a2 c2 ms2 p2 t2 w2 where
      round: "metered_claim_round metrics srv snap wid T mode so (a, c, ms) p t w = (g, (a2, c2, ms2), p2, t2, w2)"
      by (rule counted_cases)
    then show ?thesis
      using Cons Round m metered_claim_round [OF round] by (auto split: if_splits)
  qed (use Cons in \<open>auto split: if_splits\<close>)
qed simp

lemma metered_expired_loop_same:
  "metered_expired_loop evs metrics srv snap wid T due m p t w = Some (m1, r) \<Longrightarrow>
    expired_loop evs srv snap wid T due p t w = Some r"
proof (induction evs metrics srv snap wid T due m p t w rule: metered_expired_loop.induct)
  case (4 evs metrics srv snap wid T x rest m p t w)
  obtain a c ms where m: "m = (a, c, ms)" using prod_cases3 by blast
  obtain g a2 c2 ms2 p2 t2 w2 where
    round: "metered_expired_round metrics srv snap wid T x (a, c, ms) p t w = (g, (a2, c2, ms2), p2, t2, w2)"
    by (rule counted_cases)
  then have "expired_round srv snap wid T x p t w = (g, p2, t2, w2)" by (rule metered_expired_round)
  then show ?case using 4 round m by (auto split: if_splits)
qed (auto split: if_splits)

text \<open>A batch of size zero does not say that the visit found nothing: a failed claim records one as well.\<close>

lemma failed_claim_records_zero:
  assumes "try_acquire p = Some p1" and "claim_next_task srv wid T (registry_snapshot snap p1) mode so w = (Inl e, w1)"
  shows "metered_pump_available_tasks [Round] (Some m) srv snap wid T mode so p t w =
    Some ([Duration (db_operation_duration_ms m) (claim_tags (metric_source mode)),
           Amount (claim_batch_size m) 0 [(''source'', metric_source mode)]], release p1, t, w1)"
  using assms
  by (simp add: metered_pump_available_tasks_def metered_claim_round_def db_operation_def batch_measure_def Let_def)

section \<open>What the counters count\<close>

abbreviation visit_ends :: "visit_event list \<Rightarrow> nat" where
  "visit_ends evs \<equiv> ends (map as_loop_event evs)"

context mongo_server
begin

lemma metered_counts:
  assumes snap: "\<And>S. set (snap S) = fset S" and kept: "ids_kept rely"
  shows "metered_pump_loop evs metrics srv snap wid T mode so (a, c, ms) p t w = Some ((a1, c1, ms1), p1, t1, w1) \<Longrightarrow>
    coll_ok (docs w) \<Longrightarrow> ids_ok (docs w) \<Longrightarrow>
    \<exists>n k. c1 = c + n \<and> k = (if permits p1 = 0 then n else n + 1) \<and>
      length (join_set p1) + visit_ends evs = length (join_set p) + n \<and>
      a1 = (a \<or> 0 < k) \<and> ms1 = ms @ concat (replicate k (db_operation metrics (claim_tags (metric_source mode))))"
proof (induction evs arbitrary: a c ms p t w)
  case (Cons ev evs)
  show ?case
  proof (cases ev)
    case (Ends k)
    then have k: "k < length (join_set p)" and
      rest: "metered_pump_loop evs metrics srv snap wid T mode so (a, c, ms) (task_ended k p) t w = Some ((a1, c1, ms1), p1, t1, w1)"
      using Cons.prems(1) by (simp_all split: if_splits)
    show ?thesis using Cons.IH [OF rest Cons.prems(2,3)] task_ended_length [OF k] k Ends by auto
  next
    case Round
    obtain g a2 c2 ms2 p2 t2 w2 where
      m: "metered_claim_round metrics srv snap wid T mode so (a, c, ms) p t w = (g, (a2, c2, ms2), p2, t2, w2)"
      by (rule counted_cases)
    note m2 = metered_claim_round [OF m]
    then have r: "claim_round srv snap wid T mode so p t w = (g, p2, t2, w2)" by blast
    note kept2 = claim_round_ok [OF r Cons.prems(2)] claim_round_permits [OF r Cons.prems(2,3) snap kept]
    show ?thesis
    proof (cases g)
      case True
      then have rest: "metered_pump_loop evs metrics srv snap wid T mode so (a2, c2, ms2) p2 t2 w2 = Some ((a1, c1, ms1), p1, t1, w1)"
        using Cons.prems(1) Round m by simp
      obtain n k where "c1 = c2 + n" "k = (if permits p1 = 0 then n else n + 1)"
        "length (join_set p1) + visit_ends evs = length (join_set p2) + n" "a1 = (a2 \<or> 0 < k)"
        "ms1 = ms2 @ concat (replicate k (db_operation metrics (claim_tags (metric_source mode))))"
        using Cons.IH [OF rest kept2(1)] kept2(2) by blast
      then show ?thesis
        using m2 kept2 True Round by (intro exI [of _ "Suc n"] exI [of _ "Suc k"]) (auto split: if_splits)
    next
      case False
      then have last: "evs = []" "(a1, c1, ms1) = (a2, c2, ms2)" "p1 = p2"
        using Cons.prems(1) Round m by (auto split: if_splits)
      have "p2 = p" using r by (rule claim_roundE) (use False in simp_all)
      then show ?thesis
        using m2 last False Round
        by (intro exI [of _ 0] exI [of _ "if permits p = 0 then 0 else 1"]) (auto split: if_splits)
    qed
  qed
qed simp

lemma metered_expired_counts:
  assumes snap: "\<And>S. set (snap S) = fset S" and kept: "ids_kept rely"
  shows "metered_expired_loop evs metrics srv snap wid T due (a, c, ms) p t w = Some ((a1, c1, ms1), p1, t1, w1) \<Longrightarrow>
    coll_ok (docs w) \<Longrightarrow> ids_ok (docs w) \<Longrightarrow>
    \<exists>n k. c1 = c + n \<and> n \<le> k \<and> length (join_set p1) + visit_ends evs = length (join_set p) + n \<and>
      a1 = (a \<or> 0 < k) \<and> ms1 = ms @ concat (replicate k (db_operation metrics (claim_tags ''expiry_targeted'')))"
proof (induction evs arbitrary: due a c ms p t w)
  case Nil
  then show ?case by (cases due) (auto intro: exI [of _ 0])
next
  case (Cons ev evs)
  obtain x rest where due: "due = x # rest" using Cons.prems(1) by (cases due) auto
  show ?case
  proof (cases ev)
    case (Ends k)
    then have k: "k < length (join_set p)" and
      rest: "metered_expired_loop evs metrics srv snap wid T due (a, c, ms) (task_ended k p) t w = Some ((a1, c1, ms1), p1, t1, w1)"
      using Cons.prems(1) due by (simp_all split: if_splits)
    obtain n j where "c1 = c + n" "n \<le> j" "length (join_set p1) + visit_ends evs = length (join_set (task_ended k p)) + n"
      "a1 = (a \<or> 0 < j)" "ms1 = ms @ concat (replicate j (db_operation metrics (claim_tags ''expiry_targeted'')))"
      using Cons.IH [OF rest Cons.prems(2,3)] by blast
    then show ?thesis using task_ended_length [OF k] k Ends by (intro exI [of _ n] exI [of _ j]) simp
  next
    case Round
    let ?op = "db_operation metrics (claim_tags ''expiry_targeted'')"
    obtain g a2 c2 ms2 p2 t2 w2 where
      m: "metered_expired_round metrics srv snap wid T x (a, c, ms) p t w = (g, (a2, c2, ms2), p2, t2, w2)"
      by (rule counted_cases)
    have step: "coll_ok (docs w2) \<and> ids_ok (docs w2) \<and> (\<exists>n k. c2 = c + n \<and> n \<le> k \<and>
        length (join_set p2) = length (join_set p) + n \<and> a2 = (a \<or> 0 < k) \<and> ms2 = ms @ concat (replicate k ?op))"
      using m
    proof (rule metered_expired_round)
      assume r: "expired_round srv snap wid T x p t w = (g, p2, t2, w2)" "(a2, c2, ms2) = (a, c, ms)" "p2 = p"
      have "coll_ok (docs w2)" "ids_ok (docs w2)"
        using expired_round_docs [OF r(1) Cons.prems(2,3) kept] by simp_all
      then show ?thesis using r by (auto intro!: exI [of _ 0])
    next
      fix p3 r
      assume e: "expired_round srv snap wid T x p t w = (g, p2, t2, w2)" and p3: "try_acquire p = Some p3" and "a2"
        and ms2: "ms2 = ms @ ?op"
        and cl: "claim_expired_task_by_id srv (fst x) wid T (et_task_id (snd x)) (snap (in_flight p)) w = (r, w2)"
        and r: "case r of Inr (Some task) \<Rightarrow> c2 = c + 1 \<and> p2 = spawn_claimed_task task (task_id_or_default task) p3
          | _ \<Rightarrow> c2 = c \<and> p2 = p"
      have docs: "coll_ok (docs w2)" "ids_ok (docs w2)"
        using expired_round_docs [OF e Cons.prems(2,3) kept] by simp_all
      have "\<exists>n\<le>1. c2 = c + n \<and> length (join_set p2) = length (join_set p) + n"
      proof (cases "\<exists>task. r = Inr (Some task)")
        case True
        then obtain task where task: "r = Inr (Some task)" by blast
        show ?thesis
          using expired_claim_starts [OF Cons.prems(2,3) snap kept p3 cl [unfolded task]] r task by (auto intro: exI [of _ 1])
      next
        case False
        then have "c2 = c" "p2 = p" using r by (auto split: sum.splits option.splits)
        then show ?thesis by (auto intro: exI [of _ 0])
      qed
      then obtain n where "n \<le> 1" "c2 = c + n" "length (join_set p2) = length (join_set p) + n" by blast
      then show ?thesis using docs ms2 \<open>a2\<close> by (auto intro!: exI [of _ n] exI [of _ 1])
    qed
    then obtain n k where n: "c2 = c + n" "n \<le> k" "length (join_set p2) = length (join_set p) + n" "a2 = (a \<or> 0 < k)"
      "ms2 = ms @ concat (replicate k ?op)" by blast
    show ?thesis
    proof (cases g)
      case True
      then have left: "metered_expired_loop evs metrics srv snap wid T rest (a2, c2, ms2) p2 t2 w2 = Some ((a1, c1, ms1), p1, t1, w1)"
        using Cons.prems(1) Round m due by simp
      obtain n' k' where "c1 = c2 + n'" "n' \<le> k'" "length (join_set p1) + visit_ends evs = length (join_set p2) + n'"
        "a1 = (a2 \<or> 0 < k')" "ms1 = ms2 @ concat (replicate k' ?op)"
        using Cons.IH [OF left] step by blast
      then show ?thesis
        using n Round by (intro exI [of _ "n + n'"] exI [of _ "k + k'"]) (auto simp: replicate_add)
    next
      case False
      then have "evs = []" "(a1, c1, ms1) = (a2, c2, ms2)" "p1 = p2"
        using Cons.prems(1) Round m due by (auto split: if_splits)
      then show ?thesis using n Round by (intro exI [of _ n] exI [of _ k]) auto
    qed
  qed
qed

end

section \<open>Properties\<close>

text \<open>
  C31: the recorded batch size is the number of tasks that a visit started. Recording does not change what a
  pump does. A visit records one batch, after one duration for each claim it sent: the batch's value is the
  number of tasks it started, by which the running ones have grown but for those that ended meanwhile; there
  was one more claim than that, unless the permits ran out; and a visit that never found a free permit records
  nothing. The visits for expired tasks count likewise.
\<close>

theorem batch_size_counts_started_tasks:
  assumes server: "mongo_server qmatch agg upd ins srv docs rely le uniq" and snap: "\<And>S. set (snap S) = fset S"
    and ids: "ids_kept rely" and ok: "coll_ok (docs w)" "ids_ok (docs w)"
    and pump: "metered_pump_available_tasks evs (Some m) srv snap wid T mode so p t w = Some (ms, p1, t1, w1)"
    and expired: "metered_pump_expired_tasks evs2 (Some m) srv iter snap wid T p t w = Some (ms2, p2, t2, w2)"
  shows "pump_available_tasks evs srv snap wid T mode so p t w = Some (p1, t1, w1) \<and>
    pump_expired_tasks evs2 srv iter snap wid T p t w = Some (p2, t2, w2) \<and>
    (\<exists>n. length (join_set p1) + visit_ends evs = length (join_set p) + n \<and>
      ms = (if n = 0 \<and> permits p1 = 0 then []
            else replicate (if permits p1 = 0 then n else n + 1)
                   (Duration (db_operation_duration_ms m) (claim_tags (metric_source mode))) @
                 [Amount (claim_batch_size m) n [(''source'', metric_source mode)]])) \<and>
    (\<exists>n k. length (join_set p2) + visit_ends evs2 = length (join_set p) + n \<and> n \<le> k \<and>
      ms2 = replicate k (Duration (db_operation_duration_ms m) (claim_tags ''expiry_targeted'')) @
        (if k = 0 then [] else [Amount (claim_batch_size m) n [(''source'', ''expiry_targeted'')]]))"
proof -
  have one: "concat (replicate k [x]) = replicate k x" for k and x :: measurement by (induction k) simp_all
  obtain a c ls where loop: "metered_pump_loop evs (Some m) srv snap wid T mode so (False, 0, []) p t w =
      Some ((a, c, ls), p1, t1, w1)" and ms: "ms = ls @ batch_measure (Some m) (metric_source mode) a c"
    using pump by (auto simp: metered_pump_available_tasks_def)
  obtain k where k: "k = (if permits p1 = 0 then c else c + 1)" "a = (0 < k)"
    and len: "length (join_set p1) + visit_ends evs = length (join_set p) + c"
    and ls: "ls = replicate k (Duration (db_operation_duration_ms m) (claim_tags (metric_source mode)))"
    using mongo_server.metered_counts [OF server snap ids loop ok] by (auto simp: db_operation_def one)
  have "ms = (if c = 0 \<and> permits p1 = 0 then []
            else replicate (if permits p1 = 0 then c else c + 1)
                   (Duration (db_operation_duration_ms m) (claim_tags (metric_source mode))) @
                 [Amount (claim_batch_size m) c [(''source'', metric_source mode)]])"
    unfolding ms ls using k by (simp add: batch_measure_def)
  then have batch: "\<exists>n. length (join_set p1) + visit_ends evs = length (join_set p) + n \<and>
      ms = (if n = 0 \<and> permits p1 = 0 then []
            else replicate (if permits p1 = 0 then n else n + 1)
                   (Duration (db_operation_duration_ms m) (claim_tags (metric_source mode))) @
                 [Amount (claim_batch_size m) n [(''source'', metric_source mode)]])"
    using len by blast
  obtain now w0 where now: "sv_now srv w = (now, w0)" by fastforce
  obtain due t0 where due: "pop_due iter now t = (due, t0)" by fastforce
  obtain a2 c2 ls2 where loop2: "metered_expired_loop evs2 (Some m) srv snap wid T due (False, 0, []) p t0 w0 =
      Some ((a2, c2, ls2), p2, t2, w2)" and ms2: "ms2 = ls2 @ batch_measure (Some m) ''expiry_targeted'' a2 c2"
    using expired by (auto simp: metered_pump_expired_tasks_def now due)
  have "docs w0 = docs w" by (rule mongo_server.now_docs [OF server now])
  then have ok0: "coll_ok (docs w0)" "ids_ok (docs w0)" using ok by simp_all
  obtain k where "ls2 = replicate k (Duration (db_operation_duration_ms m) (claim_tags ''expiry_targeted''))"
    "a2 = (0 < k)" "c2 \<le> k" "length (join_set p2) + visit_ends evs2 = length (join_set p) + c2"
    using mongo_server.metered_expired_counts [OF server snap ids loop2 ok0] by (auto simp: db_operation_def one)
  then have "length (join_set p2) + visit_ends evs2 = length (join_set p) + c2 \<and> c2 \<le> k \<and>
      ms2 = replicate k (Duration (db_operation_duration_ms m) (claim_tags ''expiry_targeted'')) @
        (if k = 0 then [] else [Amount (claim_batch_size m) c2 [(''source'', ''expiry_targeted'')]])"
    by (simp add: ms2 batch_measure_def)
  moreover have "pump_expired_tasks evs2 srv iter snap wid T p t w = Some (p2, t2, w2)"
    using metered_expired_loop_same [OF loop2] by (simp add: pump_expired_tasks_def now due)
  moreover have "pump_available_tasks evs srv snap wid T mode so p t w = Some (p1, t1, w1)"
    using metered_pump_loop_same [OF loop] by (simp add: pump_available_tasks_def)
  ultimately show ?thesis using batch by blast
qed

text \<open>A worker that may run one task starts one of the sample collection; its next round finds no permit.\<close>

theorem batch_size_counts_started_tasks_witness:
  "\<exists>ms p1 t1 w1. metered_pump_available_tasks [Round, Round] (Some worker_metrics_new) ref_server sorted_list_of_fset ''w1'' (from_secs 10)
       Ready None (pool_new 1) tracker_new (demo_world 5000) = Some (ms, p1, t1, w1) \<and>
     ms = [Duration (db_operation_duration_ms worker_metrics_new) (claim_tags ''ready''),
       Amount (claim_batch_size worker_metrics_new) 1 [(''source'', ''ready'')]]"
proof -
  let ?round = "metered_claim_round (Some worker_metrics_new) ref_server sorted_list_of_fset ''w1'' (from_secs 10) Ready None"
  obtain d w1 where starts: "claim_round ref_server sorted_list_of_fset ''w1'' (from_secs 10) Ready None (pool_new 1) tracker_new
      (demo_world 5000) = (True, \<lparr>in_flight = {|''a''|}, permits = 0, join_set = [(''a'', d)]\<rparr>,
        schedule_expiration_from_task d (from_secs 10) tracker_new, w1)"
    using demo_pump by blast
  let ?p = "\<lparr>in_flight = {|''a''|}, permits = 0, join_set = [(''a'', d)]\<rparr>"
  obtain g m p1 t1 w2 where round: "?round (False, 0, []) (pool_new 1) tracker_new (demo_world 5000) = (g, m, p1, t1, w2)"
    using prod_cases5 by blast
  obtain a c ms where m: "m = (a, c, ms)" using prod_cases3 by blast
  have first: "g" "p1 = ?p" using metered_claim_round [OF round [unfolded m]] starts by simp_all
  have "?round m ?p t1 w2 = (False, m, ?p, t1, w2)"
    by (simp add: metered_claim_round_def try_acquire_def m)
  then obtain ms1 where pump: "metered_pump_available_tasks [Round, Round] (Some worker_metrics_new) ref_server sorted_list_of_fset
      ''w1'' (from_secs 10) Ready None (pool_new 1) tracker_new (demo_world 5000) = Some (ms1, ?p, t1, w2)"
    using round m first by (simp add: metered_pump_available_tasks_def)
  obtain due t0 where pop: "pop_due sorted_list_of_fset (fst (sv_now ref_server (demo_world 5000))) tracker_new = (due, t0)"
    by fastforce
  have "due = []"
    using expiry_queue.pop_taken [OF tracker_wf_new pop] by (cases due) (auto simp: entry_def tracker_new_def)
  then obtain ms2 t2 w3 where expired: "metered_pump_expired_tasks [] (Some worker_metrics_new) ref_server sorted_list_of_fset
      sorted_list_of_fset ''w1'' (from_secs 10) (pool_new 1) tracker_new (demo_world 5000) = Some (ms2, pool_new 1, t2, w3)"
    using pop by (auto simp: metered_pump_expired_tasks_def case_prod_beta)
  have "ms1 = [Duration (db_operation_duration_ms worker_metrics_new) (claim_tags ''ready''),
      Amount (claim_batch_size worker_metrics_new) 1 [(''source'', ''ready'')]]"
    using batch_size_counts_started_tasks [OF ref.mongo_server_axioms sorted_snap demo_ids_kept demo_ok demo_ids
        pump expired] by (auto simp: pool_new_def)
  then show ?thesis using pump by blast
qed

end
