(* ===== verification/Storage.thy ===== *)
theory Storage
  imports Config Mongo
begin

text \<open>
  \<open>src/storage.rs\<close>: opening the collection, and the check of its indexes that only logs warnings.
  Parsing the connection string, connecting and listing indexes belong to the driver and are
  parameters; so is \<open>deq\<close>, the driver's equality of documents.
\<close>

section \<open>Index check\<close>

record index_model =
  ix_keys :: document
  ix_options :: "bool option option"

text \<open>\<open>index.options.as_ref().and_then(|opts| opts.unique).unwrap_or(false)\<close>.\<close>

definition ix_unique :: "index_model \<Rightarrow> bool" where
  "ix_unique ix = (case Option.bind (ix_options ix) id of None \<Rightarrow> False | Some b \<Rightarrow> b)"

text \<open>The log lines, one constructor per \<open>warn!\<close>.\<close>

datatype index_warning =
    UnableToInspect string
  | IterationError string
  | TaskIdNotUnique
  | MissingTaskIdUnique
  | MissingStatusUpdated
  | MissingWorkerState
  | MissingClaimSort document

fun is_namespace_not_found :: "mongo_error \<Rightarrow> bool" where
  "is_namespace_not_found (CommandError code code_name msg) = (code = 26)"
| "is_namespace_not_found _ = False"

definition expected_claim_sort_index :: "document option \<Rightarrow> document option" where
  "expected_claim_sort_index so =
     (case so of
        None \<Rightarrow> None
      | Some [] \<Rightarrow> None
      | Some ((field, direction) # _) \<Rightarrow>
          Some (doc_insert (doc_insert [] ''status'' (BInt32 1)) field direction))"

record index_flags =
  has_task_id_unique :: bool
  has_status_updated :: bool
  has_worker_state :: bool
  has_claim_sort_index :: bool

definition no_flags :: index_flags where
  "no_flags = \<lparr>has_task_id_unique = False, has_status_updated = False, has_worker_state = False,
     has_claim_sort_index = False\<rparr>"

definition task_id_keys :: document where
  "task_id_keys = [(''task_id'', BInt32 1)]"

definition status_updated_keys :: document where
  "status_updated_keys = [(''status'', BInt32 1), (''updated_at'', BInt32 1)]"

definition worker_state_keys :: document where
  "worker_state_keys = [(''worker_state.worker_id'', BInt32 1)]"

text \<open>One index of the cursor: the flags after it, and the warnings it causes.\<close>

definition check_index ::
  "(document \<Rightarrow> document \<Rightarrow> bool) \<Rightarrow> document option \<Rightarrow> index_model \<Rightarrow> index_flags \<Rightarrow>
   index_warning list \<times> index_flags" where
  "check_index deq expected ix fl =
     (let keys = ix_keys ix in
      if deq keys task_id_keys then
        (if \<not> ix_unique ix then ([TaskIdNotUnique], fl) else ([], fl\<lparr>has_task_id_unique := True\<rparr>))
      else if deq keys status_updated_keys then ([], fl\<lparr>has_status_updated := True\<rparr>)
      else if deq keys worker_state_keys then ([], fl\<lparr>has_worker_state := True\<rparr>)
      else if (case expected of None \<Rightarrow> False | Some e \<Rightarrow> deq keys e) then
        ([], fl\<lparr>has_claim_sort_index := True\<rparr>)
      else ([], fl))"

definition final_warnings :: "document option \<Rightarrow> index_flags \<Rightarrow> index_warning list" where
  "final_warnings expected fl =
     (if \<not> has_task_id_unique fl then [MissingTaskIdUnique] else []) @
     (if \<not> has_status_updated fl then [MissingStatusUpdated] else []) @
     (if \<not> has_worker_state fl then [MissingWorkerState] else []) @
     (case expected of
        None \<Rightarrow> []
      | Some e \<Rightarrow> if \<not> has_claim_sort_index fl then [MissingClaimSort e] else [])"

fun check_indexes ::
  "(document \<Rightarrow> document \<Rightarrow> bool) \<Rightarrow> document option \<Rightarrow> (mongo_error + index_model) list \<Rightarrow>
   index_flags \<Rightarrow> index_warning list" where
  "check_indexes deq expected [] fl = final_warnings expected fl"
| "check_indexes deq expected (Inl e # rest) fl = [IterationError (error_text e)]"
| "check_indexes deq expected (Inr ix # rest) fl =
     (let (ws, fl1) = check_index deq expected ix fl in ws @ check_indexes deq expected rest fl1)"

definition warn_if_missing_indexes ::
  "(document \<Rightarrow> document \<Rightarrow> bool) \<Rightarrow> mongo_error + (mongo_error + index_model) list \<Rightarrow>
   document option \<Rightarrow> index_warning list" where
  "warn_if_missing_indexes deq list_indexes so =
     (case list_indexes of
        Inl err \<Rightarrow> if \<not> is_namespace_not_found err then [UnableToInspect (error_text err)] else []
      | Inr cursor \<Rightarrow> check_indexes deq (expected_claim_sort_index so) cursor no_flags)"

section \<open>Connecting\<close>

text \<open>
  \<open>'o\<close> and \<open>'c\<close> are the driver's option and client types. The result is the client with the
  database and collection names, and the warnings of the index check; a failed check of the
  indexes never fails the connection.
\<close>

definition connect_collection ::
  "(string \<Rightarrow> mongo_error + 'o) \<Rightarrow> ('o \<Rightarrow> 'o) \<Rightarrow> ('o \<Rightarrow> mongo_error + 'c) \<Rightarrow>
   (document \<Rightarrow> document \<Rightarrow> bool) \<Rightarrow>
   ('c \<times> string \<times> string \<Rightarrow> mongo_error + (mongo_error + index_model) list) \<Rightarrow> config \<Rightarrow>
   request_error + ('c \<times> string \<times> string) \<times> index_warning list" where
  "connect_collection parse install with_options deq list_indexes cfg =
     (case parse (cfg_mongo_uri cfg) of
        Inl e \<Rightarrow> Inl (Database (error_text e))
      | Inr options \<Rightarrow>
          (let options1 = (if cfg_enable_metrics cfg then install options else options) in
           case with_options options1 of
             Inl e \<Rightarrow> Inl (Database (error_text e))
           | Inr client \<Rightarrow>
               (let collection = (client, cfg_database cfg, cfg_collection cfg) in
                Inr (collection, warn_if_missing_indexes deq (list_indexes collection) (cfg_claim_sort cfg)))))"

section \<open>What the check reports\<close>

text \<open>Which index counts for which of the four checks.\<close>

definition counts_task_id :: "(document \<Rightarrow> document \<Rightarrow> bool) \<Rightarrow> index_model \<Rightarrow> bool" where
  "counts_task_id deq ix \<longleftrightarrow> deq (ix_keys ix) task_id_keys \<and> ix_unique ix"

definition counts_status :: "(document \<Rightarrow> document \<Rightarrow> bool) \<Rightarrow> index_model \<Rightarrow> bool" where
  "counts_status deq ix \<longleftrightarrow> \<not> deq (ix_keys ix) task_id_keys \<and> deq (ix_keys ix) status_updated_keys"

definition counts_worker :: "(document \<Rightarrow> document \<Rightarrow> bool) \<Rightarrow> index_model \<Rightarrow> bool" where
  "counts_worker deq ix \<longleftrightarrow> \<not> deq (ix_keys ix) task_id_keys \<and> \<not> deq (ix_keys ix) status_updated_keys \<and>
     deq (ix_keys ix) worker_state_keys"

definition counts_sort :: "(document \<Rightarrow> document \<Rightarrow> bool) \<Rightarrow> document \<Rightarrow> index_model \<Rightarrow> bool" where
  "counts_sort deq e ix \<longleftrightarrow> \<not> deq (ix_keys ix) task_id_keys \<and> \<not> deq (ix_keys ix) status_updated_keys \<and>
     \<not> deq (ix_keys ix) worker_state_keys \<and> deq (ix_keys ix) e"

lemma check_index_flags:
  "check_index deq expected ix fl = (ws, fl1) \<Longrightarrow>
    has_task_id_unique fl1 = (has_task_id_unique fl \<or> counts_task_id deq ix) \<and>
    has_status_updated fl1 = (has_status_updated fl \<or> counts_status deq ix) \<and>
    has_worker_state fl1 = (has_worker_state fl \<or> counts_worker deq ix) \<and>
    has_claim_sort_index fl1 =
      (has_claim_sort_index fl \<or> (\<exists>e. expected = Some e \<and> counts_sort deq e ix)) \<and>
    set ws \<subseteq> {TaskIdNotUnique}"
  by (auto simp: check_index_def Let_def counts_task_id_def counts_status_def counts_worker_def
      counts_sort_def split: if_splits option.splits)

text \<open>What a cursor yields before its first error, and this error.\<close>

fun listed :: "('e + 'a) list \<Rightarrow> 'a list" where
  "listed [] = []"
| "listed (Inl e # rest) = []"
| "listed (Inr ix # rest) = ix # listed rest"

fun first_error :: "('e + 'a) list \<Rightarrow> 'e option" where
  "first_error [] = None"
| "first_error (Inl e # rest) = Some e"
| "first_error (Inr ix # rest) = first_error rest"

definition flags_after ::
  "(document \<Rightarrow> document \<Rightarrow> bool) \<Rightarrow> document option \<Rightarrow> index_model list \<Rightarrow> index_flags \<Rightarrow> index_flags" where
  "flags_after deq expected ixs fl =
     \<lparr>has_task_id_unique = has_task_id_unique fl \<or> list_ex (counts_task_id deq) ixs,
      has_status_updated = has_status_updated fl \<or> list_ex (counts_status deq) ixs,
      has_worker_state = has_worker_state fl \<or> list_ex (counts_worker deq) ixs,
      has_claim_sort_index =
        has_claim_sort_index fl \<or> (\<exists>e. expected = Some e \<and> list_ex (counts_sort deq e) ixs)\<rparr>"

text \<open>The check is one pass: a warning for each index on \<open>task_id\<close> that is not unique, then the end's.\<close>

lemma check_indexes_pass:
  "check_indexes deq expected cursor fl =
    map (\<lambda>ix. TaskIdNotUnique) (filter (\<lambda>ix. deq (ix_keys ix) task_id_keys \<and> \<not> ix_unique ix) (listed cursor)) @
    (case first_error cursor of
       Some e \<Rightarrow> [IterationError (error_text e)]
     | None \<Rightarrow> final_warnings expected (flags_after deq expected (listed cursor) fl))"
proof (induction cursor arbitrary: fl)
  case Nil
  show ?case by (cases fl) (simp add: flags_after_def)
next
  case (Cons x cursor)
  show ?case
  proof (cases x)
    case (Inr ix)
    obtain ws fl1 where step: "check_index deq expected ix fl = (ws, fl1)" by fastforce
    note flags = check_index_flags [OF step]
    have ws: "ws = (if deq (ix_keys ix) task_id_keys \<and> \<not> ix_unique ix then [TaskIdNotUnique] else [])"
      using step by (auto simp: check_index_def Let_def split: if_splits)
    have "flags_after deq expected (listed cursor) fl1 = flags_after deq expected (ix # listed cursor) fl"
      using flags by (auto simp: flags_after_def)
    then show ?thesis using Inr Cons.IH [of fl1] by (cases "first_error cursor") (simp_all add: step ws)
  qed simp
qed

lemma keys_differ:
  assumes "\<And>a b k. deq a b \<Longrightarrow> doc_get a k = doc_get b k"
  shows "deq ks task_id_keys \<Longrightarrow> \<not> deq ks status_updated_keys"
    and "deq ks task_id_keys \<Longrightarrow> \<not> deq ks worker_state_keys"
    and "deq ks status_updated_keys \<Longrightarrow> \<not> deq ks worker_state_keys"
  using assms [of ks task_id_keys "''task_id''"] assms [of ks status_updated_keys "''task_id''"]
    assms [of ks worker_state_keys "''task_id''"] assms [of ks status_updated_keys "''status''"]
    assms [of ks worker_state_keys "''status''"]
  by (auto simp: task_id_keys_def status_updated_keys_def worker_state_keys_def doc_get_def)

lemma expected_index:
  "expected_claim_sort_index (Some ((k, v) # rest)) =
    Some (if k = ''status'' then [(''status'', v)] else [(''status'', BInt32 1), (k, v)])"
  by (simp add: expected_claim_sort_index_def bson_simps)

text \<open>The index for the claim order is found where it is listed, unless an earlier check takes it.\<close>

lemma expected_sort_counts:
  assumes "\<And>a b k. deq a b \<Longrightarrow> doc_get a k = doc_get b k"
    and "expected_claim_sort_index (Some ((f, v) # rest)) = Some e"
  shows "counts_sort deq e ix \<longleftrightarrow> deq (ix_keys ix) e \<and> (f, v) \<noteq> (''updated_at'', BInt32 1)"
proof (cases "deq (ix_keys ix) e")
  case True
  let ?ks = "ix_keys ix"
  have e: "doc_get ?ks k = doc_get e k" for k using assms(1) True by simp
  have "doc_get ?ks ''status'' \<noteq> None"
    using assms(2) unfolding e by (auto simp: expected_index doc_get_def)
  then have other: "\<not> deq ?ks task_id_keys" "\<not> deq ?ks worker_state_keys"
    using assms(1) [of ?ks task_id_keys "''status''"] assms(1) [of ?ks worker_state_keys "''status''"]
    by (auto simp: task_id_keys_def worker_state_keys_def doc_get_def)
  have "deq ?ks status_updated_keys \<longleftrightarrow> (f, v) = (''updated_at'', BInt32 1)"
  proof
    assume "deq ?ks status_updated_keys"
    then have "doc_get e ''updated_at'' = Some (BInt32 1)"
      using e [of "''updated_at''"] assms(1) [of ?ks status_updated_keys "''updated_at''"]
      by (simp add: status_updated_keys_def doc_get_def)
    then show "(f, v) = (''updated_at'', BInt32 1)"
      using assms(2) by (auto simp: expected_index doc_get_def split: if_splits)
  next
    assume "(f, v) = (''updated_at'', BInt32 1)"
    then show "deq ?ks status_updated_keys" using True assms(2) by (simp add: expected_index status_updated_keys_def)
  qed
  then show ?thesis using True other by (auto simp: counts_sort_def)
qed (simp add: counts_sort_def)

text \<open>
  C38: what the index check warns of. It warns of a listing that failed unless the collection does not exist
  yet. Otherwise it warns, in this order, of each index on \<open>task_id\<close> that is not unique; if the listing
  breaks off, of that error; and if it is complete, of each index that no listed one is: a unique one on
  \<open>task_id\<close>, one on status and update time, one on the worker id, and, when a claim order is configured, one
  on status and its first field, of which it warns in any case when that field is the ascending update time.
\<close>

theorem index_warnings_exact:
  assumes "\<And>a b k. deq a b \<Longrightarrow> doc_get a k = doc_get b k"
  shows "warn_if_missing_indexes deq listing so =
    (case listing of
       Inl err \<Rightarrow> if is_namespace_not_found err then [] else [UnableToInspect (error_text err)]
     | Inr cursor \<Rightarrow>
         map (\<lambda>ix. TaskIdNotUnique)
           (filter (\<lambda>ix. deq (ix_keys ix) [(''task_id'', BInt32 1)] \<and> \<not> ix_unique ix) (listed cursor)) @
         (case first_error cursor of
            Some err \<Rightarrow> [IterationError (error_text err)]
          | None \<Rightarrow>
              (if \<exists>ix\<in>set (listed cursor). deq (ix_keys ix) [(''task_id'', BInt32 1)] \<and> ix_unique ix
               then [] else [MissingTaskIdUnique]) @
              (if \<exists>ix\<in>set (listed cursor). deq (ix_keys ix) [(''status'', BInt32 1), (''updated_at'', BInt32 1)]
               then [] else [MissingStatusUpdated]) @
              (if \<exists>ix\<in>set (listed cursor). deq (ix_keys ix) [(''worker_state.worker_id'', BInt32 1)]
               then [] else [MissingWorkerState]) @
              (case so of
                 Some ((field, direction) # rest) \<Rightarrow>
                   (let e = if field = ''status'' then [(''status'', direction)]
                            else [(''status'', BInt32 1), (field, direction)]
                    in if (\<exists>ix\<in>set (listed cursor). deq (ix_keys ix) e) \<and> (field, direction) \<noteq> (''updated_at'', BInt32 1)
                       then [] else [MissingClaimSort e])
               | _ \<Rightarrow> [])))"
proof (cases listing)
  case (Inl err)
  then show ?thesis by (simp add: warn_if_missing_indexes_def)
next
  case (Inr cursor)
  note keys = keys_differ [of deq, OF assms]
  have flags: "\<not> has_task_id_unique no_flags" "\<not> has_status_updated no_flags"
    "\<not> has_worker_state no_flags" "\<not> has_claim_sort_index no_flags"
    by (simp_all add: no_flags_def)
  have counts: "counts_status deq ix \<longleftrightarrow> deq (ix_keys ix) status_updated_keys"
    "counts_worker deq ix \<longleftrightarrow> deq (ix_keys ix) worker_state_keys" for ix
    using keys [of "ix_keys ix"] by (auto simp: counts_status_def counts_worker_def)
  have sort: "list_ex (counts_sort deq e) (listed cursor) \<longleftrightarrow>
      (\<exists>ix\<in>set (listed cursor). deq (ix_keys ix) e) \<and> (f, v) \<noteq> (''updated_at'', BInt32 1)"
    if "expected_claim_sort_index (Some ((f, v) # rest)) = Some e" for f v rest e
    using expected_sort_counts [of deq, OF assms that] by (auto simp: list_ex_iff)
  have "(case expected_claim_sort_index so of None \<Rightarrow> []
      | Some e \<Rightarrow> if \<not> has_claim_sort_index (flags_after deq (expected_claim_sort_index so) (listed cursor) no_flags)
          then [MissingClaimSort e] else []) =
     (case so of
        Some ((field, direction) # rest) \<Rightarrow>
          (let e = if field = ''status'' then [(''status'', direction)] else [(''status'', BInt32 1), (field, direction)]
           in if (\<exists>ix\<in>set (listed cursor). deq (ix_keys ix) e) \<and> (field, direction) \<noteq> (''updated_at'', BInt32 1)
              then [] else [MissingClaimSort e])
      | _ \<Rightarrow> [])"
  proof (cases "expected_claim_sort_index so")
    case None
    then show ?thesis by (auto simp: expected_claim_sort_index_def split: option.splits list.splits)
  next
    case (Some e)
    then obtain f v rest where so: "so = Some ((f, v) # rest)"
      by (auto simp: expected_claim_sort_index_def split: option.splits list.splits)
    have e: "e = (if f = ''status'' then [(''status'', v)] else [(''status'', BInt32 1), (f, v)])"
      using Some by (simp add: so expected_index)
    show ?thesis using sort [OF Some [unfolded so]] flags(4)
      unfolding so Some [unfolded so] by (auto simp: flags_after_def e [symmetric])
  qed
  note last = this
  have three: "has_task_id_unique (flags_after deq x ixs no_flags) \<longleftrightarrow> (\<exists>ix\<in>set ixs. deq (ix_keys ix) task_id_keys \<and> ix_unique ix)"
    "has_status_updated (flags_after deq x ixs no_flags) \<longleftrightarrow> (\<exists>ix\<in>set ixs. deq (ix_keys ix) status_updated_keys)"
    "has_worker_state (flags_after deq x ixs no_flags) \<longleftrightarrow> (\<exists>ix\<in>set ixs. deq (ix_keys ix) worker_state_keys)" for x ixs
    using flags by (simp_all add: flags_after_def counts counts_task_id_def list_ex_iff)
  have turned: "(if \<not> P then xs else []) = (if P then [] else xs)" for P and xs :: "index_warning list" by simp
  show ?thesis
    unfolding Inr sum.case warn_if_missing_indexes_def check_indexes_pass final_warnings_def last
      task_id_keys_def [symmetric] status_updated_keys_def [symmetric] worker_state_keys_def [symmetric]
    by (simp only: three turned)
qed

text \<open>A collection with an index on \<open>task_id\<close> that is not unique, and no other.\<close>

theorem index_warnings_exact_witness:
  "warn_if_missing_indexes (=) (Inr (map Inr [\<lparr>ix_keys = [(''task_id'', BInt32 1)], ix_options = Some None\<rparr>]))
     (Some [(''created_at'', BInt32 (- 1))]) =
   [TaskIdNotUnique, MissingTaskIdUnique, MissingStatusUpdated, MissingWorkerState,
    MissingClaimSort [(''status'', BInt32 1), (''created_at'', BInt32 (- 1))]]"
  by (subst index_warnings_exact [of "(=)"]) (simp_all add: ix_unique_def)

text \<open>
  A service that claims in ascending order of the update time is told that its compound index
  is missing although it exists: the index the check expects is the one on status and update time,
  which an earlier branch of the check consumes. The collection below has every index asked for.
\<close>

theorem updated_at_sort_always_warned:
  assumes "\<And>a. deq a a" and "\<And>a b k. deq a b \<Longrightarrow> doc_get a k = doc_get b k"
    and "expected_claim_sort_index (Some [(''updated_at'', BInt32 1)]) = Some e"
    and "warnings = warn_if_missing_indexes deq (Inr (map Inr
      [\<lparr>ix_keys = [(''task_id'', BInt32 1)], ix_options = Some (Some True)\<rparr>,
       \<lparr>ix_keys = e, ix_options = None\<rparr>,
       \<lparr>ix_keys = [(''worker_state.worker_id'', BInt32 1)], ix_options = None\<rparr>]))
      (Some [(''updated_at'', BInt32 1)])"
  shows "warnings = [MissingClaimSort e]"
proof -
  have e: "e = status_updated_keys"
    using assms(3) by (simp add: expected_index status_updated_keys_def)
  have keys: "\<not> deq status_updated_keys task_id_keys" "\<not> deq worker_state_keys task_id_keys"
    "\<not> deq worker_state_keys status_updated_keys"
    using keys_differ [of deq, OF assms(2)] assms(1) by blast+
  show ?thesis
    using assms(1,3) keys unfolding assms(4) e task_id_keys_def [symmetric] worker_state_keys_def [symmetric]
    by (simp add: warn_if_missing_indexes_def check_index_def final_warnings_def no_flags_def
        ix_unique_def)
qed

theorem updated_at_sort_always_warned_witness:
  "warn_if_missing_indexes (=) (Inr (map Inr
      [\<lparr>ix_keys = [(''task_id'', BInt32 1)], ix_options = Some (Some True)\<rparr>,
       \<lparr>ix_keys = [(''status'', BInt32 1), (''updated_at'', BInt32 1)], ix_options = None\<rparr>,
       \<lparr>ix_keys = [(''worker_state.worker_id'', BInt32 1)], ix_options = None\<rparr>]))
      (Some [(''updated_at'', BInt32 1)]) =
     [MissingClaimSort [(''status'', BInt32 1), (''updated_at'', BInt32 1)]]"
  using updated_at_sort_always_warned [of "(=)" "[(''status'', BInt32 1), (''updated_at'', BInt32 1)]"]
  by (simp add: expected_index)

end
