(* ===== verification/PoolMetrics.thy ===== *)
theory PoolMetrics
  imports Prelude "HOL-Library.Word"
begin

text \<open>
  \<open>src/pool_metrics.rs\<close>: two atomic counters that follow the driver's connection-pool events. An
  \<open>AtomicI64\<close> wraps around, so a counter is a word of 64 bits, read as a signed number by the gauge.
\<close>

datatype cmap_event =
    ConnectionCreated
  | ConnectionClosed
  | ConnectionCheckedOut
  | ConnectionCheckedIn
  | OtherCmapEvent

record pool_gauges =
  pool_size :: "64 word"
  checked_out :: "64 word"

definition pool_start :: pool_gauges where
  "pool_start = \<lparr>pool_size = 0, checked_out = 0\<rparr>"

fun on_cmap_event :: "cmap_event \<Rightarrow> pool_gauges \<Rightarrow> pool_gauges" where
  "on_cmap_event ConnectionCreated g = g\<lparr>pool_size := pool_size g + 1\<rparr>"
| "on_cmap_event ConnectionClosed g = g\<lparr>pool_size := pool_size g - 1\<rparr>"
| "on_cmap_event ConnectionCheckedOut g = g\<lparr>checked_out := checked_out g + 1\<rparr>"
| "on_cmap_event ConnectionCheckedIn g = g\<lparr>checked_out := checked_out g - 1\<rparr>"
| "on_cmap_event OtherCmapEvent g = g"

definition observe_pool_size :: "pool_gauges \<Rightarrow> int" where
  "observe_pool_size g = sint (pool_size g)"

definition observe_checked_out :: "pool_gauges \<Rightarrow> int" where
  "observe_checked_out g = sint (checked_out g)"

definition run_events :: "cmap_event list \<Rightarrow> pool_gauges" where
  "run_events es = fold on_cmap_event es pool_start"

definition occurrences :: "cmap_event \<Rightarrow> cmap_event list \<Rightarrow> int" where
  "occurrences e es = int (count_list es e)"

lemma fold_events:
  "pool_size (fold on_cmap_event es g) =
     pool_size g + word_of_int (occurrences ConnectionCreated es - occurrences ConnectionClosed es)"
  "checked_out (fold on_cmap_event es g) =
     checked_out g + word_of_int (occurrences ConnectionCheckedOut es - occurrences ConnectionCheckedIn es)"
proof (induction es arbitrary: g)
  case Nil
  {
    case 1
    show ?case by (simp add: occurrences_def)
  next
    case 2
    show ?case by (simp add: occurrences_def)
  }
next
  case (Cons e es)
  {
    case 1
    show ?case by (cases e) (simp_all add: Cons.IH occurrences_def)
  next
    case 2
    show ?case by (cases e) (simp_all add: Cons.IH occurrences_def)
  }
qed

lemma sint_small_int:
  assumes "- 9223372036854775808 \<le> x" and "x < 9223372036854775808"
  shows "sint (word_of_int x :: 64 word) = x"
  using assms by (simp add: sint_sbintrunc' signed_take_bit_int_eq_self)

text \<open>
  C39: after any sequence of pool events the gauges read the number of connections created and not
  closed, and of connections checked out and not checked in, in whatever order the events came,
  as long as these differences fit a signed 64-bit number.
\<close>

theorem gauges_count_connections:
  assumes "in_i64 (occurrences ConnectionCreated es - occurrences ConnectionClosed es)"
    and "in_i64 (occurrences ConnectionCheckedOut es - occurrences ConnectionCheckedIn es)"
  shows "observe_pool_size (run_events es) =
      occurrences ConnectionCreated es - occurrences ConnectionClosed es \<and>
    observe_checked_out (run_events es) =
      occurrences ConnectionCheckedOut es - occurrences ConnectionCheckedIn es"
  using assms
  by (simp add: observe_pool_size_def observe_checked_out_def run_events_def fold_events pool_start_def
      sint_small_int in_i64_def i64_min_def i64_max_def del: of_int_diff)

theorem gauges_count_connections_witness:
  "observe_pool_size (run_events [ConnectionCreated, ConnectionCheckedOut, ConnectionCreated]) = 2"
  using gauges_count_connections [of "[ConnectionCreated, ConnectionCheckedOut, ConnectionCreated]"]
  by (simp add: occurrences_def in_i64_def i64_min_def i64_max_def)

end
