(* ===== verification/UnitTests.thy ===== *)
theory UnitTests
  imports System Storage
begin

text \<open>
  The unit tests of the repository (the \<open>tests\<close> modules of \<open>src/worker.rs\<close>, \<open>src/worker/expiry.rs\<close> and
  \<open>src/storage.rs\<close>), each as a definition that runs the model where the test runs the code. A test that
  needs a database has the reference store, at any time \<open>t\<close>. They check the definitions on the inputs for which
  the program's authors wrote down the answers. One test is left out:
  \<open>expiry_change_stream_pipeline_reads_dotted_heartbeat_update_key_literally\<close> searches the \<open>Debug\<close> rendering of
  the pipeline for two substrings, and that rendering is the driver's.
\<close>

section \<open>Helpers of the tests\<close>

text \<open>Each test has a collection of its own, which is dropped at its end; the driver adds the \<open>_id\<close>.\<close>

definition test_collection :: "int \<Rightarrow> ref_world" where
  "test_collection t = ref_world_of [] t"

definition insert_one :: "document \<Rightarrow> ref_world \<Rightarrow> ref_world" where
  "insert_one d w = (let i = fresh_id w in put_doc i ((''_id'', BObjectId i) # d) w)"

definition insert_stale_running_task :: "string \<Rightarrow> string \<Rightarrow> ref_world \<Rightarrow> ref_world" where
  "insert_stale_running_task task_id worker_id w =
     (let (now, w1) = ref_now w;
          stale = BDateTime (now - 60 * 1000);
          (updated_at, w2) = ref_now w1
      in insert_one
           [(''task_id'', BString task_id), (''status'', BString ''running''), (''task_input'', BDocument []),
            (''updated_at'', BDateTime updated_at),
            (''worker_state'', BDocument
              [(''worker_id'', BString worker_id), (''started_at'', stale), (''heartbeat_at'', stale),
               (''switch_timeout_ms'', BInt64 50)])] w2)"

definition insert_pending_task :: "string \<Rightarrow> int \<Rightarrow> ref_world \<Rightarrow> ref_world" where
  "insert_pending_task task_id created_at w =
     insert_one
       [(''task_id'', BString task_id), (''status'', BString ''pending''), (''task_input'', BDocument []),
        (''created_at'', BDateTime created_at), (''updated_at'', BDateTime created_at)] w"

definition insert_running_task :: "string \<Rightarrow> string \<Rightarrow> string \<Rightarrow> ref_world \<Rightarrow> ref_world" where
  "insert_running_task task_id worker_id claim_token w =
     (let (t1, w1) = ref_now w; (t2, w2) = ref_now w1; (t3, w3) = ref_now w2
      in insert_one
           [(''task_id'', BString task_id), (''status'', BString ''running''), (''task_input'', BDocument []),
            (''updated_at'', BDateTime t1),
            (''worker_state'', BDocument
              [(''worker_id'', BString worker_id), (''claim_token'', BString claim_token),
               (''started_at'', BDateTime t2), (''heartbeat_at'', BDateTime t3),
               (''switch_timeout_ms'', BInt64 50)])] w3)"

text \<open>An \<open>expect\<close> on the result of a call: the test fails when the call did.\<close>

definition expect :: "(request_error + 'a) \<times> ref_world \<Rightarrow> ('a \<Rightarrow> ref_world \<Rightarrow> bool) \<Rightarrow> bool" where
  "expect r k = (case r of (Inl e, w) \<Rightarrow> False | (Inr x, w) \<Rightarrow> k x w)"

section \<open>Tests of the claims\<close>

definition stale_heartbeat_does_not_reclaim_own_in_flight_task :: "int \<Rightarrow> bool" where
  "stale_heartbeat_does_not_reclaim_own_in_flight_task t =
     (let task_id = ''in-flight-task''; worker_id = ''worker-1'';
          w = insert_stale_running_task task_id worker_id (test_collection t);
          excluded = [task_id]
      in expect (claim_next_task ref_server worker_id (from_millis 50) excluded StaleRecovery None w)
           (\<lambda>result w1. result = None))"

definition ready_mode_does_not_claim_pending_task_that_is_already_in_flight :: "int \<Rightarrow> bool" where
  "ready_mode_does_not_claim_pending_task_that_is_already_in_flight t =
     (let task_id = ''in-flight-task'';
          (now, w0) = ref_now (test_collection t);
          w = insert_pending_task task_id now w0
      in expect (claim_next_task ref_server ''worker-1'' (from_millis 50) [task_id] Ready None w)
           (\<lambda>result w1. result = None))"

definition stale_heartbeat_still_reclaims_when_not_in_flight :: "int \<Rightarrow> bool" where
  "stale_heartbeat_still_reclaims_when_not_in_flight t =
     (let task_id = ''abandoned-task''; worker_id = ''worker-1'';
          w = insert_stale_running_task task_id worker_id (test_collection t)
      in expect (claim_next_task ref_server worker_id (from_millis 50) [] StaleRecovery None w)
           (\<lambda>result w1. result \<noteq> None))"

text \<open>The id that the tests of the targeted claim look up.\<close>

definition found_id :: "string \<Rightarrow> ref_world \<Rightarrow> (object_id \<Rightarrow> ref_world \<Rightarrow> bool) \<Rightarrow> bool" where
  "found_id task_id w k =
     (case ref_find_one [(''task_id'', BString task_id)] w of
        (Inr (Some d), w1) \<Rightarrow> (case get_object_id d ''_id'' of Some i \<Rightarrow> k i w1 | None \<Rightarrow> False)
      | _ \<Rightarrow> False)"

definition claim_expired_task_by_id_does_not_reclaim_own_in_flight_task :: "int \<Rightarrow> bool" where
  "claim_expired_task_by_id_does_not_reclaim_own_in_flight_task t =
     (let task_id = ''in-flight-task''; worker_id = ''worker-1'';
          w = insert_stale_running_task task_id worker_id (test_collection t)
      in found_id task_id w (\<lambda>i w1.
           let excluded = [task_id]
           in expect (claim_expired_task_by_id ref_server i worker_id (from_millis 50) (Some task_id) excluded w1)
                (\<lambda>result w2. result = None)))"

definition claim_expired_task_by_id_still_reclaims_when_not_in_flight :: "int \<Rightarrow> bool" where
  "claim_expired_task_by_id_still_reclaims_when_not_in_flight t =
     (let task_id = ''abandoned-task''; worker_id = ''worker-1'';
          w = insert_stale_running_task task_id worker_id (test_collection t)
      in found_id task_id w (\<lambda>i w1.
           expect (claim_expired_task_by_id ref_server i worker_id (from_millis 50) (Some task_id) [] w1)
             (\<lambda>result w2. result \<noteq> None)))"

definition ready_mode_does_not_reclaim_abandoned_running_tasks :: "int \<Rightarrow> bool" where
  "ready_mode_does_not_reclaim_abandoned_running_tasks t =
     (let worker_id = ''worker-1'';
          w = insert_stale_running_task ''legacy-stale-task'' ''dead-worker'' (test_collection t)
      in expect (claim_next_task ref_server worker_id (from_millis 50) [] Ready None w)
           (\<lambda>result w1. result = None))"

text \<open>The three claims of the sort test, in a loop that collects the ids.\<close>

fun claimed_order :: "nat \<Rightarrow> document option \<Rightarrow> ref_world \<Rightarrow> string list option" where
  "claimed_order 0 so w = Some []"
| "claimed_order (Suc n) so w =
     (case claim_next_task ref_server ''worker-1'' (from_millis 50) [] Ready so w of
        (Inr (Some claimed), w1) \<Rightarrow>
          (case get_str claimed ''task_id'' of
             Some s \<Rightarrow> map_option ((#) s) (claimed_order n so w1)
           | None \<Rightarrow> None)
      | _ \<Rightarrow> None)"

definition claim_next_task_respects_supplied_sort :: "int \<Rightarrow> bool" where
  "claim_next_task_respects_supplied_sort t =
     (let oldest = 1000; middle = 2000; newest = 3000;
          w = insert_pending_task ''task-newest'' newest
                (insert_pending_task ''task-oldest'' oldest
                  (insert_pending_task ''task-middle'' middle (test_collection t)));
          newest_first_sort = [(''created_at'', BInt32 (- 1))]
      in claimed_order 3 (Some newest_first_sort) w = Some [''task-newest'', ''task-middle'', ''task-oldest''])"

section \<open>Tests of ownership\<close>

definition heartbeat_rejects_superseded_claim_token :: "int \<Rightarrow> bool" where
  "heartbeat_rejects_superseded_claim_token t =
     (let task_id = ''task-a''; worker_id = ''worker-1'';
          w = insert_running_task task_id worker_id ''current-token'' (test_collection t)
      in expect (heartbeat ref_server task_id worker_id ''old-superseded-token'' w) (\<lambda>stale w1.
           \<not> stale \<and>
           expect (heartbeat ref_server task_id worker_id ''current-token'' w1) (\<lambda>current w2. current)))"

definition mark_task_failed_ignores_superseded_claim_token :: "int \<Rightarrow> bool" where
  "mark_task_failed_ignores_superseded_claim_token t =
     (let task_id = ''task-b''; worker_id = ''worker-1'';
          w = insert_running_task task_id worker_id ''current-token'' (test_collection t);
          w1 = mark_task_failed ref_server task_id worker_id ''old-superseded-token'' ''stale handler error'' w
      in case ref_find_one [(''task_id'', BString task_id)] w1 of
           (Inr (Some d), w2) \<Rightarrow> get_str d ''status'' = Some ''running''
         | _ \<Rightarrow> False)"

definition classify_heartbeat_result_distinguishes_superseded_from_transient_error :: bool where
  "classify_heartbeat_result_distinguishes_superseded_from_transient_error \<longleftrightarrow>
     classify_heartbeat_result (Inr True) = Alive \<and>
     classify_heartbeat_result (Inr False) = Superseded \<and>
     classify_heartbeat_result (Inl (Database ''connection reset'')) = TransientError \<and>
     classify_heartbeat_result (Inl Timeout) = TransientError"

text \<open>An address at which nothing listens: connecting succeeds, the first operation fails.\<close>

definition unreachable_collection :: "int \<Rightarrow> ref_world" where
  "unreachable_collection t = (ref_world_of [] t)\<lparr>rw_faults := [FailBefore]\<rparr>"

definition heartbeat_reports_unreachable_db_as_transient_error_not_superseded :: "int \<Rightarrow> bool" where
  "heartbeat_reports_unreachable_db_as_transient_error_not_superseded t =
     (let result = fst (heartbeat ref_server ''some-task'' ''worker-1'' ''some-token'' (unreachable_collection t))
      in isl result \<and> classify_heartbeat_result result = TransientError)"

section \<open>Tests of the expiry tracker and its events\<close>

definition stale_recovery_interval_is_rare_fallback_detector :: bool where
  "stale_recovery_interval_is_rare_fallback_detector \<longleftrightarrow> stale_recovery_interval = from_secs (10 * 60)"

definition expiry_tracker_preserves_task_id_across_heartbeat_updates :: "object_id \<Rightarrow> bool" where
  "expiry_tracker_preserves_task_id_across_heartbeat_updates i =
     (let tracker = tracker_upsert i None 2000 (from_millis 50)
            (tracker_upsert i (Some ''task-a'') 1000 (from_millis 50) tracker_new)
      in case fmlookup (tasks tracker) i of
           None \<Rightarrow> False
         | Some tracked \<Rightarrow> et_task_id tracked = Some ''task-a'' \<and> et_expires_at_ms tracked = Some 2050)"

definition expiry_change_stream_includes_deletes_for_tracker_cleanup :: bool where
  "expiry_change_stream_includes_deletes_for_tracker_cleanup \<longleftrightarrow>
     (case Option.bind (get_document (hd expiry_change_stream_pipeline) ''$match'') (\<lambda>m. doc_get m ''$or'') of
        Some (BArray alternatives) \<Rightarrow>
          list_ex (\<lambda>condition.
            case Option.bind (as_document condition) (\<lambda>c. Option.bind (get_document c ''operationType'') (\<lambda>operation.
                   doc_get operation ''$in'')) of
              Some (BArray operations) \<Rightarrow> list_ex (\<lambda>operation. as_string operation = Some ''delete'') operations
            | _ \<Rightarrow> False) alternatives
      | _ \<Rightarrow> False)"

definition expiration_update_reads_whole_or_dotted_worker_state :: bool where
  "expiration_update_reads_whole_or_dotted_worker_state \<longleftrightarrow>
     (let whole = [(''worker_state'', BDocument
            [(''heartbeat_at'', BDateTime 1000), (''switch_timeout_ms'', BInt64 25)])];
          dotted = [(''worker_state.heartbeat_at'', BDateTime 2000),
            (''worker_state.switch_timeout_ms'', BInt64 50)]
      in expiration_update_from_fields whole (from_millis 100) = Some (1000, from_millis 25) \<and>
         expiration_update_from_fields dotted (from_millis 100) = Some (2000, from_millis 50))"

definition pending_hint_never_caches_pending_task_ids :: bool where
  "pending_hint_never_caches_pending_task_ids \<longleftrightarrow>
     (let tracker = (mark_pending ^^ 10000) tracker_new
      in tasks tracker = fmempty \<and> tasks (set_pending_may_exist False tracker) = fmempty)"

section \<open>Tests of the storage\<close>

definition expected_claim_sort_index_is_none_without_a_claim_sort :: bool where
  "expected_claim_sort_index_is_none_without_a_claim_sort \<longleftrightarrow> expected_claim_sort_index None = None"

definition expected_claim_sort_index_adapts_to_the_configured_field :: bool where
  "expected_claim_sort_index_adapts_to_the_configured_field \<longleftrightarrow>
     expected_claim_sort_index (Some [(''created_at'', BInt32 (- 1))]) =
       Some [(''status'', BInt32 1), (''created_at'', BInt32 (- 1))] \<and>
     expected_claim_sort_index (Some [(''_id'', BInt32 (- 1))]) =
       Some [(''status'', BInt32 1), (''_id'', BInt32 (- 1))]"

section \<open>The tests pass\<close>

lemmas test_eval = expect_def found_id_def test_collection_def insert_one_def insert_stale_running_task_def
  insert_pending_task_def insert_running_task_def claim_next_task_def ready_filters_def claim_with_filter_def
  claim_update_def stale_claim_filter_def held_filter_def Let_def ref_eval

lemma stale_tests:
  "stale_heartbeat_does_not_reclaim_own_in_flight_task t"
  "stale_heartbeat_still_reclaims_when_not_in_flight t"
  by (simp_all add: stale_heartbeat_does_not_reclaim_own_in_flight_task_def
      stale_heartbeat_still_reclaims_when_not_in_flight_def test_eval)

lemma ready_tests:
  "ready_mode_does_not_claim_pending_task_that_is_already_in_flight t"
  "ready_mode_does_not_reclaim_abandoned_running_tasks t"
  by (simp_all add: ready_mode_does_not_claim_pending_task_that_is_already_in_flight_def
      ready_mode_does_not_reclaim_abandoned_running_tasks_def test_eval)

lemma by_id_tests:
  "claim_expired_task_by_id_does_not_reclaim_own_in_flight_task t"
  "claim_expired_task_by_id_still_reclaims_when_not_in_flight t"
  by (simp_all add: claim_expired_task_by_id_does_not_reclaim_own_in_flight_task_def
      claim_expired_task_by_id_still_reclaims_when_not_in_flight_def claim_expired_task_by_id_def
      doc_insert_def test_eval)

lemma sort_test: "claim_next_task_respects_supplied_sort t"
  by (simp add: claim_next_task_respects_supplied_sort_def numeral_3_eq_3 ref_le_def sort_key_def test_eval)

lemma ownership_tests:
  "heartbeat_rejects_superseded_claim_token t"
  "mark_task_failed_ignores_superseded_claim_token t"
  "heartbeat_reports_unreachable_db_as_transient_error_not_superseded t"
  by (simp_all add: heartbeat_rejects_superseded_claim_token_def mark_task_failed_ignores_superseded_claim_token_def
      heartbeat_reports_unreachable_db_as_transient_error_not_superseded_def unreachable_collection_def
      heartbeat_def mark_task_failed_def test_eval)

lemma tracker_tests:
  "expiry_tracker_preserves_task_id_across_heartbeat_updates i"
  "expiration_update_reads_whole_or_dotted_worker_state"
  by (simp_all add: expiry_tracker_preserves_task_id_across_heartbeat_updates_def
      expiration_update_reads_whole_or_dotted_worker_state_def tracker_upsert_def tracker_remove_def add_deadline_def
      tracker_new_def expiration_update_from_fields_def millis_or_def millis_or_max_def i64_try_from_def u64_try_from_def
      saturating_add_def i64_max_def i64_min_def as_millis_def from_millis_def accessor_defs doc_get_def Let_def)

lemma pipeline_test: "expiry_change_stream_includes_deletes_for_tracker_cleanup"
  by (simp add: expiry_change_stream_includes_deletes_for_tracker_cleanup_def expiry_change_stream_pipeline_def
      accessor_defs doc_get_def)

lemma tasks_mark_pending: "tasks ((mark_pending ^^ n) t) = tasks t"
  by (induction n) (simp_all add: mark_pending_def)

lemma pending_test: "pending_hint_never_caches_pending_task_ids"
  by (simp add: pending_hint_never_caches_pending_task_ids_def tasks_mark_pending set_pending_may_exist_def tracker_new_def
      Let_def)

lemma sort_index_tests:
  "expected_claim_sort_index_is_none_without_a_claim_sort"
  "expected_claim_sort_index_adapts_to_the_configured_field"
  by (simp_all add: expected_claim_sort_index_is_none_without_a_claim_sort_def
      expected_claim_sort_index_adapts_to_the_configured_field_def expected_claim_sort_index_def doc_insert_def)

lemma constant_tests:
  "classify_heartbeat_result_distinguishes_superseded_from_transient_error"
  "stale_recovery_interval_is_rare_fallback_detector"
  by (simp_all add: classify_heartbeat_result_distinguishes_superseded_from_transient_error_def
      stale_recovery_interval_is_rare_fallback_detector_def stale_recovery_interval_def)

end
